(* ===== verification/Prelude.thy ===== *)
theory Prelude
  imports Main "HOL-Library.List_Lexorder" "HOL-Library.Product_Lexorder"
    "HOL-Library.Option_ord" "HOL-Library.Multiset"
begin

text \<open>
  What every component of the development shares: the ordered collections of the Rust standard
  library (\<^verbatim>\<open>BTreeSet\<close> and \<^verbatim>\<open>BTreeMap\<close>) and the signed 64-bit integers.

  A \<^verbatim>\<open>BTreeSet\<close> is the list of its elements in the order its iterator yields them, strictly
  ascending; a \<^verbatim>\<open>BTreeMap\<close> is the list of its entries, strictly ascending in the key. The order the
  derived \<^verbatim>\<open>Ord\<close> of a \<^verbatim>\<open>BTreeSet\<close> or of a \<^verbatim>\<open>Vec\<close> has is the lexicographic order of these lists, which
  the library theories \<open>List_Lexorder\<close> and \<open>Product_Lexorder\<close> instantiate. Every operation below is
  executable, keeps the representation invariant (\<open>btset_ok\<close>, \<open>btmap_ok\<close>) and is characterised by
  what it does to the set of elements or to the finite map it represents.
\<close>

named_theorems btset_set "the set of elements each BTreeSet operation yields"
named_theorems btset_wf "every BTreeSet operation keeps the representation invariant"
named_theorems btmap_get "what a lookup returns after each BTreeMap operation"
named_theorems btmap_wf "every BTreeMap operation keeps the representation invariant"

lemma map_le_Some: "m \<subseteq>\<^sub>m m' \<Longrightarrow> m k = Some v \<Longrightarrow> m' k = Some v"
  by (metis domI map_le_def)

lemma map_le_SomeI: "(\<And>k v. m k = Some v \<Longrightarrow> m' k = Some v) \<Longrightarrow> m \<subseteq>\<^sub>m m'"
  by (auto simp: map_le_def)

lemma map_of_rev_distinct: "distinct (map fst xs) \<Longrightarrow> map_of (rev xs) = map_of xs"
  by (rule map_of_inject_set [THEN iffD2]) (simp_all add: rev_map [symmetric])

lemma map_of_filter_key: "map_of (filter (\<lambda>(k, v). P k) xs) k = (if P k then map_of xs k else None)"
  by (induction xs) auto

section \<open>BTreeSet\<close>

type_synonym 'a btset = "'a list"

definition btset_ok :: "'a::linorder btset \<Rightarrow> bool" where
  "btset_ok xs = sorted_wrt (<) xs"

text \<open>\<^verbatim>\<open>collect()\<close> into a set, \<^verbatim>\<open>insert\<close>, \<^verbatim>\<open>union\<close> or \<^verbatim>\<open>extend\<close>, \<^verbatim>\<open>difference\<close>.\<close>

definition bs_collect :: "'a::linorder list \<Rightarrow> 'a btset" where
  "bs_collect xs = sort (remdups xs)"

definition bs_insert :: "'a::linorder \<Rightarrow> 'a btset \<Rightarrow> 'a btset" where
  "bs_insert x xs = (if x \<in> set xs then xs else insort x xs)"

definition bs_union :: "'a::linorder btset \<Rightarrow> 'a btset \<Rightarrow> 'a btset" where
  "bs_union xs ys = bs_collect (xs @ ys)"

definition bs_diff :: "'a btset \<Rightarrow> 'a btset \<Rightarrow> 'a btset" where
  "bs_diff xs ys = filter (\<lambda>x. x \<notin> set ys) xs"

lemma set_bs_collect [simp, btset_set]: "set (bs_collect xs) = set xs"
  by (simp add: bs_collect_def)

lemma set_bs_insert [simp, btset_set]: "set (bs_insert x xs) = insert x (set xs)"
  by (auto simp: bs_insert_def set_insort_key)

lemma set_bs_union [simp, btset_set]: "set (bs_union xs ys) = set xs \<union> set ys"
  by (simp add: bs_union_def)

lemma set_bs_diff [simp, btset_set]: "set (bs_diff xs ys) = set xs - set ys"
  by (auto simp: bs_diff_def)

lemma btset_ok_iff: "btset_ok xs \<longleftrightarrow> sorted xs \<and> distinct xs"
  by (simp add: btset_ok_def strict_sorted_iff)

lemma btset_ok_Nil [simp, btset_wf]: "btset_ok []"
  by (simp add: btset_ok_def)

lemma btset_ok_single [simp, btset_wf]: "btset_ok [x]"
  by (simp add: btset_ok_def)

lemma btset_ok_collect [simp, btset_wf]: "btset_ok (bs_collect xs)"
  by (simp add: btset_ok_iff bs_collect_def)

lemma btset_ok_insert [simp, btset_wf]: "btset_ok xs \<Longrightarrow> btset_ok (bs_insert x xs)"
  by (auto simp: btset_ok_iff bs_insert_def distinct_insort sorted_insort)

lemma btset_ok_union [simp, btset_wf]: "btset_ok (bs_union xs ys)"
  by (simp add: bs_union_def)

lemma btset_ok_diff [simp, btset_wf]: "btset_ok xs \<Longrightarrow> btset_ok (bs_diff xs ys)"
  by (simp add: btset_ok_iff bs_diff_def sorted_wrt_filter)

text \<open>The representation is canonical: equal sets of elements are equal sets.\<close>

lemma btset_eqI:
  assumes "btset_ok xs" and "btset_ok ys" and "set xs = set ys"
  shows "xs = ys"
  using assms by (simp add: btset_ok_def strict_sorted_equal)

lemma bs_collect_eq_Nil [simp]: "bs_collect xs = [] \<longleftrightarrow> xs = []"
  by (metis set_bs_collect set_empty)

lemma bs_diff_Nil [simp]: "bs_diff [] ys = []"
  by (simp add: bs_diff_def)

lemma bs_diff_eq_Nil: "bs_diff xs ys = [] \<longleftrightarrow> set xs \<subseteq> set ys"
  by (auto simp: bs_diff_def filter_empty_conv)

section \<open>BTreeMap\<close>

type_synonym ('k, 'v) btmap = "('k \<times> 'v) list"

definition btmap_ok :: "('k::linorder, 'v) btmap \<Rightarrow> bool" where
  "btmap_ok m = sorted_wrt (<) (map fst m)"

abbreviation bm_get :: "('k, 'v) btmap \<Rightarrow> 'k \<Rightarrow> 'v option" where
  "bm_get \<equiv> map_of"

abbreviation bm_keys :: "('k, 'v) btmap \<Rightarrow> 'k btset" where
  "bm_keys \<equiv> map fst"

abbreviation bm_values :: "('k, 'v) btmap \<Rightarrow> 'v list" where
  "bm_values \<equiv> map snd"

text \<open>\<^verbatim>\<open>remove\<close>, \<^verbatim>\<open>insert\<close>, \<^verbatim>\<open>get(k).unwrap_or(d)\<close>, \<^verbatim>\<open>*entry(k).or_insert(d) = f(..)\<close>, \<^verbatim>\<open>collect()\<close>.\<close>

definition bm_remove :: "'k \<Rightarrow> ('k, 'v) btmap \<Rightarrow> ('k, 'v) btmap" where
  "bm_remove k m = filter (\<lambda>e. fst e \<noteq> k) m"

definition bm_insert :: "'k::linorder \<Rightarrow> 'v \<Rightarrow> ('k, 'v) btmap \<Rightarrow> ('k, 'v) btmap" where
  "bm_insert k v m = insort_key fst (k, v) (bm_remove k m)"

definition bm_get_or :: "'v \<Rightarrow> ('k, 'v) btmap \<Rightarrow> 'k \<Rightarrow> 'v" where
  "bm_get_or d m k = (case bm_get m k of None \<Rightarrow> d | Some v \<Rightarrow> v)"

definition bm_entry :: "'k::linorder \<Rightarrow> 'v \<Rightarrow> ('v \<Rightarrow> 'v) \<Rightarrow> ('k, 'v) btmap \<Rightarrow> ('k, 'v) btmap" where
  "bm_entry k d f m = bm_insert k (f (bm_get_or d m k)) m"

definition bm_collect :: "('k::linorder \<times> 'v) list \<Rightarrow> ('k, 'v) btmap" where
  "bm_collect es = fold (\<lambda>(k, v) m. bm_insert k v m) es []"

lemma map_of_insort_fst:
  "k \<notin> fst ` set m \<Longrightarrow> map_of (insort_key fst (k, v) m) = (map_of m)(k \<mapsto> v)"
  by (induction m) (auto simp: fun_eq_iff)

lemma bm_get_remove [simp, btmap_get]: "bm_get (bm_remove k m) = (bm_get m)(k := None)"
  by (induction m) (auto simp: bm_remove_def fun_eq_iff)

lemma bm_get_insert [simp, btmap_get]: "bm_get (bm_insert k v m) = (bm_get m)(k \<mapsto> v)"
proof -
  have "k \<notin> fst ` set (bm_remove k m)" by (auto simp: bm_remove_def)
  then show ?thesis by (simp add: bm_insert_def map_of_insort_fst)
qed

lemma bm_get_entry [simp, btmap_get]:
  "bm_get (bm_entry k d f m) = (bm_get m)(k \<mapsto> f (bm_get_or d m k))"
  by (simp add: bm_entry_def)

lemma bm_get_or_insert [simp, btmap_get]:
  "bm_get_or d (bm_insert k v m) k' = (if k' = k then v else bm_get_or d m k')"
  by (simp add: bm_get_or_def)

lemma bm_get_or_entry [simp, btmap_get]:
  "bm_get_or d (bm_entry k d' f m) k' =
     (if k' = k then f (bm_get_or d' m k) else bm_get_or d m k')"
  by (simp add: bm_entry_def)

lemma bm_get_or_Nil [simp]: "bm_get_or d [] k = d"
  by (simp add: bm_get_or_def)

lemma bm_get_collect_snoc:
  "bm_get (fold (\<lambda>(k, v) m. bm_insert k v m) es m) = bm_get m ++ map_of (rev es)"
  by (induction es arbitrary: m) (auto simp: map_add_def fun_eq_iff split: option.splits)

lemma bm_get_collect [simp, btmap_get]: "bm_get (bm_collect es) = map_of (rev es)"
  by (simp add: bm_collect_def bm_get_collect_snoc)

lemma set_bm_keys_remove [simp]: "fst ` set (bm_remove k m) = fst ` set m - {k}"
  by (auto simp: bm_remove_def)

lemma set_bm_keys_insert [simp]: "fst ` set (bm_insert k v m) = insert k (fst ` set m)"
  by (auto simp: bm_insert_def set_insort_key)

lemma set_bm_keys_entry [simp]: "fst ` set (bm_entry k d f m) = insert k (fst ` set m)"
  by (simp add: bm_entry_def)

lemma btmap_ok_Nil [simp, btmap_wf]: "btmap_ok []"
  by (simp add: btmap_ok_def)

lemma btmap_ok_iff: "btmap_ok m \<longleftrightarrow> sorted (map fst m) \<and> distinct (map fst m)"
  by (simp add: btmap_ok_def strict_sorted_iff)

lemma btmap_ok_remove [simp, btmap_wf]: "btmap_ok m \<Longrightarrow> btmap_ok (bm_remove k m)"
  by (auto simp: btmap_ok_def bm_remove_def sorted_wrt_map intro: sorted_wrt_filter)

lemma btmap_ok_insert [simp, btmap_wf]:
  assumes "btmap_ok m" shows "btmap_ok (bm_insert k v m)"
proof -
  have ok: "btmap_ok (bm_remove k m)" using assms by simp
  have "distinct (map fst (insort_key fst (k, v) (bm_remove k m)))"
    using ok by (induction "bm_remove k m" arbitrary: m)
      (auto simp: btmap_ok_iff distinct_insort_key bm_remove_def)
  moreover have "sorted (map fst (insort_key fst (k, v) (bm_remove k m)))"
    using ok by (simp add: btmap_ok_iff sorted_insort_key)
  ultimately show ?thesis by (simp add: btmap_ok_iff bm_insert_def)
qed

lemma btmap_ok_entry [simp, btmap_wf]: "btmap_ok m \<Longrightarrow> btmap_ok (bm_entry k d f m)"
  by (simp add: bm_entry_def)

lemma btmap_ok_collect [simp, btmap_wf]: "btmap_ok (bm_collect es)"
proof -
  have "btmap_ok m \<Longrightarrow> btmap_ok (fold (\<lambda>(k, v) m. bm_insert k v m) es m)" for m :: "('a, 'b) btmap"
    by (induction es arbitrary: m) auto
  then show ?thesis by (simp add: bm_collect_def)
qed

lemma set_bm_collect_distinct: "distinct (map fst es) \<Longrightarrow> set (bm_collect es) = set es"
proof -
  assume d: "distinct (map fst es)"
  have "distinct (map fst (bm_collect es))"
    using btmap_ok_collect [of es] by (simp add: btmap_ok_iff)
  then have "(k, v) \<in> set (bm_collect es) \<longleftrightarrow> map_of (rev es) k = Some v" for k v
    by (metis bm_get_collect map_of_eq_Some_iff)
  moreover have "map_of (rev es) k = Some v \<longleftrightarrow> (k, v) \<in> set es" for k v
    using d map_of_eq_Some_iff [of "rev es" k v] by (simp add: rev_map [symmetric])
  ultimately show ?thesis by auto
qed

lemma bm_get_or_absent: "k \<notin> fst ` set m \<Longrightarrow> bm_get_or d m k = d"
  by (simp add: bm_get_or_def map_of_eq_None_iff [THEN iffD2])

lemma bm_get_fold_insert:
  "bm_get (fold (\<lambda>k m. bm_insert k v m) ks m) = (\<lambda>k. if k \<in> set ks then Some v else bm_get m k)"
  by (induction ks arbitrary: m) (auto simp: fun_eq_iff)

lemma bm_get_fold_remove:
  "bm_get (fold bm_remove ks m) = (\<lambda>k. if k \<in> set ks then None else bm_get m k)"
  by (induction ks arbitrary: m) (auto simp: fun_eq_iff)

lemma bm_get_filter_None: "bm_get m k = None \<Longrightarrow> bm_get (filter P m) k = None"
  by (auto simp: map_of_eq_None_iff)

lemma btmap_ok_keys: "btmap_ok m \<Longrightarrow> btset_ok (bm_keys m)"
  by (simp add: btmap_ok_def btset_ok_def)

lemma dom_bm_get [simp]: "dom (bm_get m) = fst ` set m"
  by (rule dom_map_of_conv_image_fst)

lemma btmap_eqI:
  assumes "btmap_ok m" and "btmap_ok n" and "bm_get m = bm_get n"
  shows "m = n"
proof (rule map_sorted_distinct_set_unique [where f = fst])
  show "inj_on fst (set m \<union> set n)"
  proof (rule inj_onI)
    fix x y assume "x \<in> set m \<union> set n" "y \<in> set m \<union> set n" "fst x = fst y"
    moreover have "distinct (map fst m)" "distinct (map fst n)"
      using assms by (auto simp: btmap_ok_iff)
    ultimately show "x = y" using assms(3)
      by (metis Un_iff map_of_eq_Some_iff option.inject prod.collapse)
  qed
  show "sorted (map fst m)" "distinct (map fst m)" "sorted (map fst n)" "distinct (map fst n)"
    using assms by (auto simp: btmap_ok_iff)
  show "set m = set n"
    using assms by (auto simp: btmap_ok_iff set_eq_iff) (metis map_of_eq_Some_iff)+
qed

subsection \<open>Maps of sets\<close>

text \<open>A \<^verbatim>\<open>BTreeMap<K, BTreeSet<V>>\<close> and the map of sets it represents.\<close>

definition bmset_ok :: "('k::linorder, 'v::linorder btset) btmap \<Rightarrow> bool" where
  "bmset_ok m \<longleftrightarrow> btmap_ok m \<and> (\<forall>k v. bm_get m k = Some v \<longrightarrow> btset_ok v)"

definition bmset_abs :: "('k, 'v btset) btmap \<Rightarrow> 'k \<Rightarrow> 'v set option" where
  "bmset_abs m k = map_option set (bm_get m k)"

abbreviation (input) sets_add :: "'k \<Rightarrow> 'v set \<Rightarrow> ('k \<Rightarrow> 'v set option) \<Rightarrow> 'k \<Rightarrow> 'v set option" where
  "sets_add k V f \<equiv> f(k \<mapsto> V \<union> (case f k of None \<Rightarrow> {} | Some S \<Rightarrow> S))"

lemma bmset_ok_Nil [simp, btmap_wf]: "bmset_ok []"
  by (simp add: bmset_ok_def)

lemma bmset_ok_btmap: "bmset_ok m \<Longrightarrow> btmap_ok m"
  by (simp add: bmset_ok_def)

lemma bmset_ok_get_or: "bmset_ok m \<Longrightarrow> btset_ok (bm_get_or [] m k)"
  by (auto simp: bmset_ok_def bm_get_or_def split: option.splits)

lemma bmset_ok_entry [simp, btmap_wf]:
  "bmset_ok m \<Longrightarrow> (\<And>v. btset_ok v \<Longrightarrow> btset_ok (f v)) \<Longrightarrow> bmset_ok (bm_entry k [] f m)"
  by (auto simp: bmset_ok_def bmset_ok_get_or [unfolded bmset_ok_def])

lemma bmset_abs_Nil [simp]: "bmset_abs [] = Map.empty"
  by (simp add: bmset_abs_def fun_eq_iff)

lemma bmset_abs_entry [simp]:
  "bmset_abs (bm_entry k [] (bs_insert x) m) = sets_add k {x} (bmset_abs m)"
  by (auto simp: bmset_abs_def fun_eq_iff bm_get_or_def split: option.splits)

lemma bmset_abs_entry_id [simp]:
  "bmset_abs (bm_entry k [] id m) = sets_add k {} (bmset_abs m)"
  by (auto simp: bmset_abs_def fun_eq_iff bm_get_or_def split: option.splits)

lemma bmset_eqI:
  assumes "bmset_ok m" and "bmset_ok n" and "bmset_abs m = bmset_abs n"
  shows "m = n"
proof (rule btmap_eqI)
  show "btmap_ok m" "btmap_ok n" using assms by (auto simp: bmset_ok_def)
  show "bm_get m = bm_get n"
  proof
    fix k
    have "map_option set (bm_get m k) = map_option set (bm_get n k)"
      using fun_cong [OF assms(3), of k] by (simp add: bmset_abs_def)
    then show "bm_get m k = bm_get n k"
      using assms(1,2) by (cases "bm_get m k"; cases "bm_get n k") (auto simp: bmset_ok_def intro: btset_eqI)
  qed
qed

lemma dom_bmset_abs [simp]: "dom (bmset_abs m) = fst ` set m"
proof -
  have "dom (bmset_abs m) = dom (bm_get m)" by (auto simp: bmset_abs_def dom_def)
  then show ?thesis by simp
qed

section \<open>Signed 64-bit integers\<close>

text \<open>
  An \<^verbatim>\<open>i64\<close> is an \<^typ>\<open>int\<close> in \<open>i64_range\<close>. \<^verbatim>\<open>+\<close> and \<^verbatim>\<open>sum\<close> wrap (the release profile has no overflow
  checks), \<^verbatim>\<open>checked_add\<close> yields \<^const>\<open>None\<close> and \<^verbatim>\<open>saturating_add\<close> clamps.
\<close>

definition i64_MIN :: int where "i64_MIN = - (2 ^ 63)"
definition i64_MAX :: int where "i64_MAX = 2 ^ 63 - 1"

definition i64_range :: "int \<Rightarrow> bool" where
  "i64_range x \<longleftrightarrow> i64_MIN \<le> x \<and> x \<le> i64_MAX"

definition wrap_i64 :: "int \<Rightarrow> int" where
  "wrap_i64 x = (x + 2 ^ 63) mod 2 ^ 64 - 2 ^ 63"

definition checked_add_i64 :: "int \<Rightarrow> int \<Rightarrow> int option" where
  "checked_add_i64 a b = (if i64_range (a + b) then Some (a + b) else None)"

definition saturating_add_i64 :: "int \<Rightarrow> int \<Rightarrow> int" where
  "saturating_add_i64 a b = max i64_MIN (min i64_MAX (a + b))"

lemma i64_range_wrap [simp]: "i64_range (wrap_i64 x)"
proof -
  have "(x + 2 ^ 63) mod 2 ^ 64 < 2 ^ 64" "0 \<le> (x + 2 ^ 63) mod (2 ^ 64 :: int)"
    by simp_all
  then show ?thesis by (simp add: i64_range_def wrap_i64_def i64_MIN_def i64_MAX_def)
qed

lemma wrap_i64_id [simp]: "i64_range x \<Longrightarrow> wrap_i64 x = x"
  by (simp add: i64_range_def wrap_i64_def i64_MIN_def i64_MAX_def)

lemma saturating_add_i64_range [simp]: "i64_range (saturating_add_i64 a b)"
  by (simp add: i64_range_def saturating_add_i64_def i64_MIN_def i64_MAX_def)

lemma saturating_add_i64_nonneg:
  "0 \<le> a \<Longrightarrow> 0 \<le> b \<Longrightarrow> 0 \<le> saturating_add_i64 a b"
  by (simp add: saturating_add_i64_def i64_MIN_def i64_MAX_def)

text \<open>\<^verbatim>\<open>iter().sum()\<close> on \<^verbatim>\<open>i64\<close>.\<close>

definition sum_i64 :: "int list \<Rightarrow> int" where
  "sum_i64 xs = fold (\<lambda>x acc. wrap_i64 (acc + x)) xs 0"

section \<open>Iterators\<close>

text \<open>
  \<^verbatim>\<open>min_by\<close>/\<^verbatim>\<open>min_by_key\<close> return the first of several minima, \<^verbatim>\<open>max_by_key\<close> the last of several maxima.
\<close>

fun first_min_by :: "('a \<Rightarrow> 'b::linorder) \<Rightarrow> 'a list \<Rightarrow> 'a option" where
  "first_min_by f [] = None"
| "first_min_by f (x # xs) =
     (case first_min_by f xs of
        None \<Rightarrow> Some x
      | Some y \<Rightarrow> if f x \<le> f y then Some x else Some y)"

fun last_max_by :: "('a \<Rightarrow> 'b::linorder) \<Rightarrow> 'a list \<Rightarrow> 'a option" where
  "last_max_by f [] = None"
| "last_max_by f (x # xs) =
     (case last_max_by f xs of
        None \<Rightarrow> Some x
      | Some y \<Rightarrow> if f x \<le> f y then Some y else Some x)"

lemma first_min_by_None [simp]: "first_min_by f xs = None \<longleftrightarrow> xs = []"
  by (cases xs) (auto split: option.splits)

lemma first_min_by_SomeD:
  "first_min_by f xs = Some y \<Longrightarrow> y \<in> set xs \<and> (\<forall>x \<in> set xs. f y \<le> f x)"
proof (induction xs arbitrary: y)
  case (Cons x xs)
  then show ?case by (fastforce split: option.splits if_splits)
qed simp

lemma last_max_by_None [simp]: "last_max_by f xs = None \<longleftrightarrow> xs = []"
  by (cases xs) (auto split: option.splits)

lemma last_max_by_SomeD:
  "last_max_by f xs = Some y \<Longrightarrow> y \<in> set xs \<and> (\<forall>x \<in> set xs. f x \<le> f y)"
proof (induction xs arbitrary: y)
  case (Cons x xs)
  then show ?case by (fastforce split: option.splits if_splits)
qed simp

section \<open>Options\<close>

lemma those_map_Some: "those (map f xs) = Some ys \<longleftrightarrow> map f xs = map Some ys"
  by (induction xs arbitrary: ys) (auto split: option.splits simp: Cons_eq_map_conv)

lemma those_map_defined:
  "(\<And>x. x \<in> set xs \<Longrightarrow> f x \<noteq> None) \<Longrightarrow> \<exists>ys. those (map f xs) = Some ys"
  by (induction xs) (auto split: option.splits)

lemma those_map_mem:
  assumes "those (map f xs) = Some ys" and "y \<in> set ys" shows "\<exists>x\<in>set xs. f x = Some y"
  using assms unfolding those_map_Some by (metis imageE image_eqI image_set)

lemma those_map_mem_conv:
  assumes "those (map f xs) = Some ys" and "x \<in> set xs" shows "\<exists>y\<in>set ys. f x = Some y"
  using assms unfolding those_map_Some by (metis imageE image_eqI image_set)

lemma those_map_keys:
  "those (map (\<lambda>(k, v). map_option (Pair k) (f v)) m) = Some es \<Longrightarrow> map fst es = map fst m"
  by (induction m arbitrary: es) (auto split: option.splits)

lemma length_those: "those (map f xs) = Some ys \<Longrightarrow> length ys = length xs"
  unfolding those_map_Some by (metis length_map)

lemma sum_list_map_of:
  assumes "distinct (map fst m)"
  shows "sum_list (map snd m) = (\<Sum>k\<in>fst ` set m. bm_get_or 0 m k)"
  using assms
proof (induction m)
  case (Cons e m)
  obtain k v where e: "e = (k, v)" by (cases e)
  have "(\<Sum>k'\<in>fst ` set m. bm_get_or 0 (e # m) k') = (\<Sum>k'\<in>fst ` set m. bm_get_or 0 m k')"
    using Cons.prems e by (intro sum.cong) (auto simp: bm_get_or_def)
  then show ?case using Cons e by (simp add: bm_get_or_def)
qed simp

lemma sum_list_filter_keys:
  fixes f :: "'k \<Rightarrow> int"
  assumes "distinct (map fst m)"
  shows "sum_list (map (\<lambda>(k, v). if P v then f k else 0) m) = (\<Sum>k\<in>{k. \<exists>v. (k, v) \<in> set m \<and> P v}. f k)"
  using assms
proof (induction m)
  case (Cons e m)
  obtain k v where e: "e = (k, v)" by (cases e)
  let ?A = "{k. \<exists>v. (k, v) \<in> set m \<and> P v}"
  have fin: "finite ?A" by (rule finite_subset [of _ "fst ` set m"]) force+
  have "k \<notin> ?A" using Cons.prems e by force
  moreover have "{k'. \<exists>v'. (k', v') \<in> set (e # m) \<and> P v'} = (if P v then insert k ?A else ?A)"
    using e by auto
  ultimately show ?case using Cons fin e by simp
qed simp

end
