(* ===== verification/Merging.thy ===== *)
theory Merging
  imports Prelude
begin

text \<open>
  The conflict resolution of a block merge, \<^verbatim>\<open>sdk/src/dag/merging.rs\<close>: which deploys of a conflict
  set are rejected so that what is left has no conflicts, no deploy without its dependencies and no
  mergeable (numeric) channel below zero. Dependency and conflict relations are maps from an item to
  the set of items that depend on it, or that conflict with it.
\<close>

type_synonym 'd relation_map = "('d, 'd btset) btmap"

section \<open>Definitions\<close>

definition union_maps :: "'d::linorder relation_map \<Rightarrow> 'd relation_map \<Rightarrow> 'd relation_map" where
  "union_maps a b = fold (\<lambda>(k, v) m. bm_entry k [] (\<lambda>s. bs_union s v) m) b a"

text \<open>The loop of \<^verbatim>\<open>with_dependencies\<close>: \<open>frontier\<close> is what the last round added.\<close>

definition dependents_of :: "'d::linorder relation_map \<Rightarrow> 'd btset \<Rightarrow> 'd btset" where
  "dependents_of dependency_map frontier =
     bs_collect (concat (map (\<lambda>d. bm_get_or [] dependency_map d) frontier))"

lemma bm_get_or_in_values:
  assumes "x \<in> set (bm_get_or [] m k)"
  shows "x \<in> \<Union> (set ` snd ` set m)"
proof (cases "bm_get m k")
  case None
  then show ?thesis using assms by (simp add: bm_get_or_def)
next
  case (Some v)
  then have "(k, v) \<in> set m" by (rule map_of_SomeD)
  then show ?thesis using assms Some by (force simp: bm_get_or_def)
qed

lemma set_dependents_of: "set (dependents_of m f) = (\<Union>d \<in> set f. set (bm_get_or [] m d))"
  by (simp add: dependents_of_def)

lemma dependents_of_subset: "set (dependents_of m f) \<subseteq> \<Union> (set ` snd ` set m)"
proof
  fix x assume "x \<in> set (dependents_of m f)"
  then obtain d where "x \<in> set (bm_get_or [] m d)" by (auto simp: set_dependents_of)
  then show "x \<in> \<Union> (set ` snd ` set m)" by (rule bm_get_or_in_values)
qed

function with_dependencies_loop ::
  "'d::linorder relation_map \<Rightarrow> 'd btset \<Rightarrow> 'd btset \<Rightarrow> 'd btset" where
  "with_dependencies_loop dependency_map result frontier =
     (let next = dependents_of dependency_map frontier;
          new = bs_diff next result
      in if new = [] then result
         else with_dependencies_loop dependency_map (bs_union result new) new)"
  by pat_completeness auto
termination
proof (relation "measure (\<lambda>(m, r, f). card (\<Union> (set ` snd ` set m) - set r))", goal_cases)
  case 1
  show ?case by simp
next
  case (2 m r f nxt new)
  let ?V = "\<Union> (set ` snd ` set m)"
  have new: "set new = set (dependents_of m f) - set r" using 2 by simp
  note dependents_of_subset [of m f]
  moreover obtain x where "x \<in> set new" using 2(3) by (metis 2(2) list.set_sel(1))
  ultimately have x: "x \<in> ?V - set r" "x \<notin> ?V - set (bs_union r new)" using new by auto
  have "?V - set (bs_union r new) \<subseteq> ?V - set r" by auto
  with x have "?V - set (bs_union r new) \<subset> ?V - set r" by (metis psubsetI)
  then have "card (?V - set (bs_union r new)) < card (?V - set r)"
    by (rule psubset_card_mono [rotated]) simp
  then show ?case by simp
qed

declare with_dependencies_loop.simps [simp del]

definition with_dependencies :: "'d::linorder btset \<Rightarrow> 'd relation_map \<Rightarrow> 'd btset" where
  "with_dependencies items dependency_map = with_dependencies_loop dependency_map items items"

definition incompatible_with_final ::
  "'d::linorder btset \<Rightarrow> 'd btset \<Rightarrow> 'd relation_map \<Rightarrow> 'd relation_map \<Rightarrow> 'd btset" where
  "incompatible_with_final accepted_finally rejected_finally conflicts_map dependency_map =
     (let out = fold (\<lambda>a out. case bm_get conflicts_map a of
                               Some v \<Rightarrow> bs_union out v | None \<Rightarrow> out) accepted_finally []
      in fold (\<lambda>r out. case bm_get dependency_map r of
                         Some v \<Rightarrow> bs_union out v | None \<Rightarrow> out) rejected_finally out)"

fun partition_scope :: "'d btset list \<Rightarrow> 'd btset list" where
  "partition_scope [] = []"
| "partition_scope (head # tail) = head # partition_scope (map (\<lambda>v. bs_diff v head) tail)"

definition relate ::
  "bool \<Rightarrow> ('d::linorder \<Rightarrow> 'd \<Rightarrow> bool) \<Rightarrow> 'd \<Rightarrow> 'd \<Rightarrow> 'd relation_map \<Rightarrow> 'd relation_map" where
  "relate directed relation target source acc =
     (if relation target source \<and> target \<noteq> source then
        let acc = bm_entry source [] (bs_insert target) acc
        in if \<not> directed then bm_entry target [] (bs_insert source) acc else acc
      else acc)"

definition compute_relation_map ::
  "bool \<Rightarrow> 'd::linorder btset \<Rightarrow> 'd btset \<Rightarrow> ('d \<Rightarrow> 'd \<Rightarrow> bool) \<Rightarrow> 'd relation_map" where
  "compute_relation_map directed target_set source_set relation =
     fold (\<lambda>target acc. fold (\<lambda>source acc. relate directed relation target source acc)
                          source_set acc) target_set []"

definition compute_conflicts_map ::
  "'d::linorder btset \<Rightarrow> 'd btset \<Rightarrow> ('d \<Rightarrow> 'd \<Rightarrow> bool) \<Rightarrow> 'd relation_map" where
  "compute_conflicts_map target_set source_set conflicts =
     compute_relation_map False target_set source_set conflicts"

definition compute_dependency_map ::
  "'d::linorder btset \<Rightarrow> 'd btset \<Rightarrow> ('d \<Rightarrow> 'd \<Rightarrow> bool) \<Rightarrow> 'd relation_map" where
  "compute_dependency_map target_set source_set depends =
     compute_relation_map True target_set source_set depends"

definition fold_root :: "'d::linorder \<times> 'd btset \<Rightarrow> 'd relation_map \<Rightarrow> 'd relation_map" where
  "fold_root entry acc =
     (let (root, depending) = entry;
          root_dependencies = map fst (filter (\<lambda>(_, v). root \<in> set v) acc)
      in if root_dependencies \<noteq> [] then
           let acc = bm_remove root acc;
               merged = bs_collect (depending @ [root])
           in fold (\<lambda>k acc. bm_entry k [] (\<lambda>s. bs_union s merged) acc) root_dependencies acc
         else acc)"

definition relation_items :: "'d::linorder relation_map \<Rightarrow> 'd btset" where
  "relation_items dependency_map =
     fold (\<lambda>(k, v) all. bs_union (bs_insert k all) v) dependency_map []"

definition compute_branches :: "'d::linorder btset \<Rightarrow> 'd relation_map \<Rightarrow> 'd relation_map" where
  "compute_branches target dependency_map =
     (let acc = fold fold_root dependency_map dependency_map;
          all = relation_items dependency_map
      in fold (\<lambda>t acc. bm_entry t [] (\<lambda>s. s) acc) (bs_diff target all) acc)"

definition compute_greedy_non_intersecting_branches ::
  "'d::linorder btset \<Rightarrow> 'd relation_map \<Rightarrow> 'd btset list" where
  "compute_greedy_non_intersecting_branches target dependency_map =
     (let concurrent_roots = compute_branches target dependency_map;
          sorted = sort_key (\<lambda>(k, v). (- int (length v), k)) concurrent_roots;
          views = map (\<lambda>(k, v). bs_insert k v) sorted
      in partition_scope views)"

definition compute_relation_map_for_merge_set ::
  "'d::linorder btset \<Rightarrow> 'd btset \<Rightarrow> ('d \<Rightarrow> 'd \<Rightarrow> bool) \<Rightarrow> ('d \<Rightarrow> 'd \<Rightarrow> bool)
     \<Rightarrow> 'd relation_map \<times> 'd relation_map" where
  "compute_relation_map_for_merge_set conflict_set final_set conflicts depends =
     (let conflicts_map = union_maps (compute_conflicts_map conflict_set final_set conflicts)
                            (compute_conflicts_map conflict_set conflict_set conflicts);
          dependency_map = union_maps (compute_dependency_map conflict_set final_set depends)
                             (compute_dependency_map conflict_set conflict_set depends)
      in (conflicts_map, dependency_map))"

text \<open>
  The breadth-first search of \<^verbatim>\<open>compute_rejection_options\<close>: a state is the item accepted last, what
  the accepted items reject and what was accepted.
\<close>

type_synonym 'd rejection_state = "'d \<times> 'd btset \<times> 'd btset"

definition rejection_step ::
  "'d::linorder relation_map \<Rightarrow> 'd rejection_state \<Rightarrow> 'd btset \<times> 'd btset \<times> 'd list" where
  "rejection_step conflicts_map st =
     (let (a, rj_acc, ac_acc) = st;
          new_rj = (case bm_get conflicts_map a of Some c \<Rightarrow> bs_union rj_acc c | None \<Rightarrow> rj_acc);
          new_ac = bs_insert a ac_acc;
          next = filter (\<lambda>k. k \<notin> set new_rj \<and> k \<notin> set new_ac) (bm_keys conflicts_map)
      in (new_rj, new_ac, next))"

definition rejection_weight :: "'d::linorder relation_map \<Rightarrow> 'd rejection_state \<Rightarrow> nat" where
  "rejection_weight m st =
     (length m + 1) ^ card (fst ` set m - insert (fst st) (set (snd (snd st))))"

lemma sum_list_map_const: "(\<And>x. x \<in> set xs \<Longrightarrow> f x = c) \<Longrightarrow> sum_list (map f xs) = length xs * c"
  for c :: nat
  by (induction xs) auto

lemma less_power_of_pred: "0 < l \<Longrightarrow> n * (n + 1) ^ (l - 1) < (n + 1 :: nat) ^ l"
  by (cases l) simp_all

lemma rejection_weight_children:
  assumes "rejection_step m st = (rj, ac, nxt)"
  shows "sum_list (map (\<lambda>n. rejection_weight m (n, rj, ac)) nxt) < rejection_weight m st"
proof -
  obtain a r c where st: "st = (a, r, c)" by (cases st)
  define L where "L = fst ` set m - insert a (set c)"
  have L: "finite L" "rejection_weight m st = (length m + 1) ^ card L"
    by (simp_all add: L_def rejection_weight_def st)
  have ac: "set ac = insert a (set c)"
    and nxt: "nxt = filter (\<lambda>k. k \<notin> set rj \<and> k \<notin> set ac) (map fst m)"
    using assms by (auto simp: rejection_step_def st Let_def)
  have in_L: "set nxt \<subseteq> L" unfolding nxt L_def using ac by auto
  have child: "rejection_weight m (n, rj, ac) = (length m + 1) ^ (card L - 1)" if "n \<in> set nxt" for n
  proof -
    have "fst ` set m - insert n (set ac) = L - {n}" using ac by (auto simp: L_def)
    then have "rejection_weight m (n, rj, ac) = (length m + 1) ^ card (L - {n})"
      by (simp only: rejection_weight_def fst_conv snd_conv)
    then show ?thesis using that in_L by (simp add: subset_iff card_Diff_singleton)
  qed
  show ?thesis
  proof (cases "nxt = []")
    case False
    then have "L \<noteq> {}" using in_L by auto
    then have "0 < card L" using L(1) by (simp add: card_gt_0_iff)
    moreover have "length nxt \<le> length m"
      unfolding nxt by (rule order_trans [OF length_filter_le]) simp
    ultimately have "length nxt * (length m + 1) ^ (card L - 1) < (length m + 1) ^ card L"
      using less_power_of_pred [of "card L" "length m"]
        mult_le_mono1 [of "length nxt" "length m" "(length m + 1) ^ (card L - 1)"] by linarith
    moreover have "sum_list (map (\<lambda>n. rejection_weight m (n, rj, ac)) nxt)
        = length nxt * (length m + 1) ^ (card L - 1)"
      by (rule sum_list_map_const) (rule child)
    ultimately show ?thesis by (simp only: L(2))
  qed (simp add: L(2))
qed

function rejection_loop ::
  "'d::linorder relation_map \<Rightarrow> 'd rejection_state list \<Rightarrow> 'd btset btset \<Rightarrow> 'd btset btset" where
  "rejection_loop conflicts_map [] result = result"
| "rejection_loop conflicts_map (st # queue) result =
     (let (new_rj, new_ac, next) = rejection_step conflicts_map st
      in if next = [] then rejection_loop conflicts_map queue (bs_insert new_rj result)
         else rejection_loop conflicts_map (queue @ map (\<lambda>n. (n, new_rj, new_ac)) next) result)"
  by pat_completeness auto
termination
proof (relation "measure (\<lambda>(m, q, r). sum_list (map (rejection_weight m) q))", goal_cases)
  case 1
  show ?case by simp
next
  case (2 m st q r x rj y ac nxt)
  show ?case by (simp add: rejection_weight_def)
next
  case (3 m st q r x rj y ac nxt)
  then have "sum_list (map (\<lambda>n. rejection_weight m (n, rj, ac)) nxt) < rejection_weight m st"
    by (intro rejection_weight_children) simp
  then show ?case by (simp add: comp_def)
qed

definition compute_rejection_options :: "'d::linorder relation_map \<Rightarrow> 'd btset btset" where
  "compute_rejection_options conflicts_map =
     rejection_loop conflicts_map (map (\<lambda>k. (k, [], [k])) (bm_keys conflicts_map)) []"

definition rejection_key :: "('d \<Rightarrow> int) \<Rightarrow> 'd btset \<Rightarrow> int \<times> nat \<times> 'd list" where
  "rejection_key target_f a = (sum_i64 (map target_f a), length a, a)"

definition compute_optimal_rejection :: "'d::linorder btset btset \<Rightarrow> ('d \<Rightarrow> int) \<Rightarrow> 'd btset" where
  "compute_optimal_rejection options target_f =
     (case first_min_by (rejection_key target_f) options of Some a \<Rightarrow> a | None \<Rightarrow> [])"

type_synonym 'c balances = "('c, int) btmap"

fun apply_diff :: "'c::linorder balances \<Rightarrow> ('c \<times> int) list \<Rightarrow> 'c balances option" where
  "apply_diff acc [] = Some acc"
| "apply_diff acc ((channel, change) # diff) =
     (case checked_add_i64 (bm_get_or 0 acc channel) change of
        None \<Rightarrow> None
      | Some result \<Rightarrow>
          if result < 0 then None else apply_diff (bm_insert channel result acc) diff)"

definition calc_merged_result ::
  "'d::linorder \<Rightarrow> 'c::linorder balances \<Rightarrow> ('d, 'c balances) btmap \<Rightarrow> 'c balances option" where
  "calc_merged_result deploy balances mergeable_diffs =
     apply_diff balances (bm_get_or [] mergeable_diffs deploy)"

text \<open>\<^verbatim>\<open>traverse_tree\<close> does not return on a cyclic dependency map: not returning is \<^const>\<open>None\<close>.\<close>

partial_function (option) traverse_loop ::
  "('d::linorder \<Rightarrow> 'd btset) \<Rightarrow> 'd list \<Rightarrow> 'd list \<Rightarrow> 'd list option" where
  "traverse_loop next result frontier =
     (if frontier = [] then Some result
      else traverse_loop next (result @ sort frontier)
             (bs_collect (concat (map next (sort frontier)))))"

declare traverse_loop.simps [code]

definition traverse_tree :: "'d::linorder \<Rightarrow> ('d \<Rightarrow> 'd btset) \<Rightarrow> 'd list option" where
  "traverse_tree root next = traverse_loop next [] [root]"

fun fold_branch ::
  "'d::linorder relation_map \<Rightarrow> ('d, 'c::linorder balances) btmap \<Rightarrow> 'd list
     \<Rightarrow> 'c balances \<times> 'd btset \<Rightarrow> 'c balances \<times> 'd btset" where
  "fold_branch dependency_map mergeable_diffs [] s = s"
| "fold_branch dependency_map mergeable_diffs (deploy # branch) (balances, rejected) =
     fold_branch dependency_map mergeable_diffs branch
       (if deploy \<in> set rejected then (balances, rejected)
        else case calc_merged_result deploy balances mergeable_diffs of
               Some new_balances \<Rightarrow> (new_balances, rejected)
             | None \<Rightarrow> (balances, bs_union (bs_insert deploy rejected)
                                   (with_dependencies [deploy] dependency_map)))"

fun fold_roots ::
  "'d::linorder relation_map \<Rightarrow> ('d, 'c::linorder balances) btmap \<Rightarrow> 'd list
     \<Rightarrow> 'c balances \<times> 'd btset \<Rightarrow> ('c balances \<times> 'd btset) option" where
  "fold_roots dependency_map mergeable_diffs [] s = Some s"
| "fold_roots dependency_map mergeable_diffs (root # roots) s =
     (case traverse_tree root (\<lambda>d. bm_get_or [] dependency_map d) of
        None \<Rightarrow> None
      | Some branch \<Rightarrow> fold_roots dependency_map mergeable_diffs roots
                         (fold_branch dependency_map mergeable_diffs branch s))"

definition fold_rejection ::
  "'c::linorder balances \<Rightarrow> 'd::linorder btset \<Rightarrow> 'd relation_map \<Rightarrow> ('d, 'c balances) btmap
     \<Rightarrow> 'd btset option" where
  "fold_rejection base_balance to_merge dependency_map mergeable_diffs =
     (let branches = compute_branches to_merge dependency_map;
          concurrent_roots = sort (bm_keys branches)
      in map_option snd
           (fold_roots dependency_map mergeable_diffs concurrent_roots (base_balance, [])))"

definition add_mergeable_overflow_rejections ::
  "'d::linorder btset \<Rightarrow> 'd relation_map \<Rightarrow> 'd btset btset \<Rightarrow> 'c::linorder balances
     \<Rightarrow> ('d, 'c balances) btmap \<Rightarrow> 'd btset btset option" where
  "add_mergeable_overflow_rejections conflict_set dependency_map reject_options
     init_mergeable_values mergeable_diffs =
     (if reject_options = [] then
        map_option (\<lambda>r. [r])
          (fold_rejection init_mergeable_values conflict_set dependency_map mergeable_diffs)
      else
        map_option bs_collect
          (those (map (\<lambda>rj. map_option (bs_union rj)
             (fold_rejection init_mergeable_values (bs_diff conflict_set rj) dependency_map
                mergeable_diffs)) reject_options)))"

definition full_conflicts :: "'d::linorder relation_map \<Rightarrow> 'd relation_map \<Rightarrow> 'd relation_map" where
  "full_conflicts conflicts_map dependency_map =
     map (\<lambda>(k, vs). (k, bs_union vs (with_dependencies vs dependency_map))) conflicts_map"

definition resolve_conflict_set ::
  "'d::linorder btset \<Rightarrow> 'd btset \<Rightarrow> 'd btset \<Rightarrow> ('d \<Rightarrow> int) \<Rightarrow> 'd relation_map \<Rightarrow> 'd relation_map
     \<Rightarrow> ('d, 'c::linorder balances) btmap \<Rightarrow> 'c balances \<Rightarrow> ('d btset \<times> 'd btset) option" where
  "resolve_conflict_set conflict_set accepted_finally rejected_finally cost conflicts_map
     dependency_map mergeable_diffs init_mergeable_values =
     (let enforce_rejected = with_dependencies
            (incompatible_with_final accepted_finally rejected_finally conflicts_map dependency_map)
            dependency_map;
          conflict_set_compatible = bs_diff conflict_set enforce_rejected;
          full_conflicts_map = full_conflicts conflicts_map dependency_map;
          rejection_options = compute_rejection_options full_conflicts_map
      in case add_mergeable_overflow_rejections conflict_set dependency_map rejection_options
                init_mergeable_values mergeable_diffs of
           None \<Rightarrow> None
         | Some mergeable_overflow_rejection_options \<Rightarrow>
             let resolved = compute_optimal_rejection mergeable_overflow_rejection_options cost
             in Some (bs_diff conflict_set_compatible resolved,
                      bs_union resolved enforce_rejected))"

section \<open>The dependency closure\<close>

text \<open>\<open>(d, e) \<in> dep_edges m\<close>: the map lists \<open>e\<close> among the items that depend on \<open>d\<close>.\<close>

definition dep_edges :: "'d relation_map \<Rightarrow> ('d \<times> 'd) set" where
  "dep_edges m = {(d, e). e \<in> set (bm_get_or [] m d)}"

definition dep_closed :: "'d relation_map \<Rightarrow> 'd set \<Rightarrow> bool" where
  "dep_closed m X \<longleftrightarrow> dep_edges m `` X \<subseteq> X"

lemma set_dependents_of_edges: "set (dependents_of m f) = dep_edges m `` set f"
  by (auto simp: set_dependents_of dep_edges_def)

lemma dep_closed_Un [intro]: "dep_closed m X \<Longrightarrow> dep_closed m Y \<Longrightarrow> dep_closed m (X \<union> Y)"
  by (auto simp: dep_closed_def)

lemma dep_closed_UN [intro]: "(\<And>i. i \<in> I \<Longrightarrow> dep_closed m (X i)) \<Longrightarrow> dep_closed m (\<Union>i \<in> I. X i)"
  by (fastforce simp: dep_closed_def)

lemma dep_closed_empty [simp, intro]: "dep_closed m {}"
  by (simp add: dep_closed_def)

lemma dep_closed_rtrancl [simp, intro]: "dep_closed m ((dep_edges m)\<^sup>* `` X)"
  by (auto simp: dep_closed_def intro: rtrancl_into_rtrancl)

lemma rtrancl_Image_closed: "E `` X \<subseteq> X \<Longrightarrow> E\<^sup>* `` X = X"
  by (rule Image_closed_trancl)

lemma rtrancl_Image_absorb: "Y \<subseteq> E `` X \<Longrightarrow> E\<^sup>* `` (X \<union> Y) = E\<^sup>* `` X"
  by (auto simp: Image_def intro: converse_rtrancl_into_rtrancl)

lemma with_dependencies_loop_closure:
  assumes "set frontier \<subseteq> set result"
    and "dep_edges m `` (set result - set frontier) \<subseteq> set result"
  shows "set (with_dependencies_loop m result frontier) = (dep_edges m)\<^sup>* `` set result"
  using assms
proof (induction m result frontier rule: with_dependencies_loop.induct)
  case (1 m result frontier)
  define new where "new = bs_diff (dependents_of m frontier) result"
  have new: "set new = dep_edges m `` set frontier - set result"
    by (simp add: new_def set_dependents_of_edges)
  have unfold: "with_dependencies_loop m result frontier =
      (if new = [] then result else with_dependencies_loop m (bs_union result new) new)"
    by (simp add: with_dependencies_loop.simps [of m result] new_def Let_def)
  have succ: "dep_edges m `` set result \<subseteq> set result \<union> set new"
    using "1.prems" new by blast
  show ?case
  proof (cases "new = []")
    case True
    then have "dep_edges m `` set result \<subseteq> set result" using succ by simp
    then show ?thesis using True by (simp add: unfold rtrancl_Image_closed)
  next
    case False
    have "set (with_dependencies_loop m (bs_union result new) new)
        = (dep_edges m)\<^sup>* `` set (bs_union result new)"
    proof (rule "1.IH" [OF refl])
      show "new = bs_diff (dependents_of m frontier) result" by (rule new_def)
      show "new \<noteq> []" by (rule False)
      show "set new \<subseteq> set (bs_union result new)" by simp
      show "dep_edges m `` (set (bs_union result new) - set new) \<subseteq> set (bs_union result new)"
        using succ by auto
    qed
    also have "\<dots> = (dep_edges m)\<^sup>* `` set result"
    proof -
      have "set new \<subseteq> dep_edges m `` set result" using "1.prems"(1) new by auto
      then show ?thesis by (simp add: rtrancl_Image_absorb)
    qed
    finally show ?thesis using False by (simp add: unfold)
  qed
qed

lemma set_with_dependencies [simp]:
  "set (with_dependencies xs m) = (dep_edges m)\<^sup>* `` set xs"
  unfolding with_dependencies_def by (rule with_dependencies_loop_closure) auto

lemma btset_ok_with_dependencies: "btset_ok xs \<Longrightarrow> btset_ok (with_dependencies xs m)"
proof -
  have "btset_ok r \<Longrightarrow> btset_ok (with_dependencies_loop m r f)" for r f
  proof (induction m r f rule: with_dependencies_loop.induct)
    case (1 m r f)
    then show ?case by (simp add: with_dependencies_loop.simps [of m r] Let_def)
  qed
  then show "btset_ok xs \<Longrightarrow> btset_ok (with_dependencies xs m)" by (simp add: with_dependencies_def)
qed

section \<open>The rejection options\<close>

abbreviation conflicts_of :: "'d relation_map \<Rightarrow> 'd \<Rightarrow> 'd set" where
  "conflicts_of m a \<equiv> set (bm_get_or [] m a)"

text \<open>
  \<open>rej_leaf m st r\<close>: the search started in the state \<open>st\<close> ends with the rejection set \<open>r\<close> for some
  choice of the items to accept.
\<close>

inductive rej_leaf :: "'d::linorder relation_map \<Rightarrow> 'd rejection_state \<Rightarrow> 'd btset \<Rightarrow> bool"
  for m where
  stop: "rejection_step m st = (rj, ac, []) \<Longrightarrow> rej_leaf m st rj"
| accept: "rejection_step m st = (rj, ac, nxt) \<Longrightarrow> n \<in> set nxt \<Longrightarrow> rej_leaf m (n, rj, ac) r
     \<Longrightarrow> rej_leaf m st r"

inductive_simps rej_leaf_iff: "rej_leaf m st r"

lemma set_rejection_loop:
  "set (rejection_loop m q res) = set res \<union> {r. \<exists>st \<in> set q. rej_leaf m st r}"
proof (induction m q res rule: rejection_loop.induct)
  case (1 m result)
  then show ?case by simp
next
  case (2 m st queue result)
  obtain rj ac nxt where step: "rejection_step m st = (rj, ac, nxt)" by (cases "rejection_step m st")
  show ?case
  proof (cases "nxt = []")
    case True
    have "{r. rej_leaf m st r} = {rj}"
      using step True by (auto simp: rej_leaf_iff [of m st])
    moreover have "set (rejection_loop m queue (bs_insert rj result)) =
        set (bs_insert rj result) \<union> {r. \<exists>st \<in> set queue. rej_leaf m st r}"
      by (rule "2.IH"(1) [OF step [symmetric] refl refl True])
    ultimately show ?thesis using step True by auto
  next
    case False
    have leaf: "rej_leaf m st r \<longleftrightarrow> (\<exists>n \<in> set nxt. rej_leaf m (n, rj, ac) r)" for r
      using step False by (auto simp: rej_leaf_iff [of m st])
    have "set (rejection_loop m (queue @ map (\<lambda>n. (n, rj, ac)) nxt) result) =
        set result \<union> {r. \<exists>st \<in> set (queue @ map (\<lambda>n. (n, rj, ac)) nxt). rej_leaf m st r}"
      by (rule "2.IH"(2) [OF step [symmetric] refl refl False])
    then show ?thesis using step False leaf by auto
  qed
qed

lemma set_compute_rejection_options:
  "set (compute_rejection_options m) = {r. \<exists>k \<in> fst ` set m. rej_leaf m (k, [], [k]) r}"
  by (auto simp: compute_rejection_options_def set_rejection_loop)

lemma rejection_stepD:
  assumes "rejection_step m (a, r, c) = (rj, ac, nxt)"
  shows "set rj = set r \<union> conflicts_of m a" and "set ac = insert a (set c)"
    and "set nxt = fst ` set m - set rj - set ac" and "btset_ok r \<Longrightarrow> btset_ok rj"
proof -
  have rj: "rj = (case bm_get m a of Some c \<Rightarrow> bs_union r c | None \<Rightarrow> r)"
    and ac: "ac = bs_insert a c"
    and nxt: "nxt = filter (\<lambda>k. k \<notin> set rj \<and> k \<notin> set ac) (bm_keys m)"
    using assms by (auto simp: rejection_step_def Let_def)
  show "set rj = set r \<union> conflicts_of m a" "btset_ok r \<Longrightarrow> btset_ok rj"
    by (auto simp: rj bm_get_or_def split: option.splits)
  show "set ac = insert a (set c)" by (simp add: ac)
  show "set nxt = fst ` set m - set rj - set ac" unfolding nxt by auto
qed

text \<open>
  What a state of the search knows: the accepted items other than the last are keys and reject
  exactly what was collected, and the last accepted item is a key.
\<close>

definition rej_inv :: "'d::linorder relation_map \<Rightarrow> 'd rejection_state \<Rightarrow> bool" where
  "rej_inv m st = (case st of (a, r, c) \<Rightarrow>
     btset_ok r \<and> insert a (set c) \<subseteq> fst ` set m \<and> set r = (\<Union>x \<in> set c - {a}. conflicts_of m x))"

lemma rej_inv_init: "k \<in> fst ` set m \<Longrightarrow> rej_inv m (k, [], [k])"
  by (simp add: rej_inv_def)

lemma rej_inv_step:
  assumes "rejection_step m (a, r, c) = (rj, ac, nxt)" and "rej_inv m (a, r, c)"
  shows "set rj = (\<Union>x \<in> insert a (set c). conflicts_of m x)"
    and "n \<in> set nxt \<Longrightarrow> rej_inv m (n, rj, ac)"
proof -
  note step = rejection_stepD [OF assms(1)]
  show rj: "set rj = (\<Union>x \<in> insert a (set c). conflicts_of m x)"
    using assms(2) step(1) by (auto simp: rej_inv_def)
  assume "n \<in> set nxt"
  then have "n \<in> fst ` set m" "n \<notin> set ac" using step(3) by auto
  then show "rej_inv m (n, rj, ac)" using assms(2) step rj by (simp add: rej_inv_def)
qed

text \<open>Every option is what some accepted items reject, and each key is accepted or rejected.\<close>

lemma rej_leaf_sound:
  assumes "rej_leaf m st r" and "rej_inv m st"
  shows "\<exists>M. insert (fst st) (set (snd (snd st))) \<subseteq> M \<and> M \<subseteq> fst ` set m
    \<and> set r = (\<Union>x \<in> M. conflicts_of m x) \<and> fst ` set m \<subseteq> set r \<union> M \<and> btset_ok r"
  using assms
proof (induction rule: rej_leaf.induct)
  case (stop st rj ac)
  obtain a r c where st: "st = (a, r, c)" by (cases st)
  note step = stop(1) [unfolded st]
  have "set rj = (\<Union>x \<in> insert a (set c). conflicts_of m x)"
    using rej_inv_step(1) [OF step] stop(2) st by simp
  then show ?case
    using rejection_stepD [OF step] stop(2) by (intro exI [of _ "insert a (set c)"])
      (auto simp: st rej_inv_def)
next
  case (accept st rj ac nxt n r)
  obtain a r' c where st: "st = (a, r', c)" by (cases st)
  have "rej_inv m (n, rj, ac)"
    by (rule rej_inv_step(2) [OF accept(1) [unfolded st] accept.prems [unfolded st] accept(2)])
  then have "\<exists>M. insert n (set ac) \<subseteq> M \<and> M \<subseteq> fst ` set m
    \<and> set r = (\<Union>x \<in> M. conflicts_of m x) \<and> fst ` set m \<subseteq> set r \<union> M \<and> btset_ok r"
    using accept.IH by simp
  moreover have "set ac = insert a (set c)" by (rule rejection_stepD(2) [OF accept(1) [unfolded st]])
  ultimately show ?case by (auto simp: st)
qed

lemma rejection_optionD:
  assumes "r \<in> set (compute_rejection_options m)"
  obtains M where "M \<subseteq> fst ` set m" and "set r = (\<Union>x \<in> M. conflicts_of m x)"
    and "fst ` set m \<subseteq> set r \<union> M" and "btset_ok r"
proof -
  from assms obtain k where k: "k \<in> fst ` set m" "rej_leaf m (k, [], [k]) r"
    by (auto simp: set_compute_rejection_options)
  from rej_leaf_sound [OF k(2) rej_inv_init [OF k(1)]] show thesis by (elim exE conjE) (rule that)
qed

lemma rej_leaf_exists: "\<exists>r. rej_leaf m st r"
proof (induction "rejection_weight m st" arbitrary: st rule: less_induct)
  case less
  obtain rj ac nxt where step: "rejection_step m st = (rj, ac, nxt)" by (cases "rejection_step m st")
  show ?case
  proof (cases nxt)
    case Nil
    then show ?thesis using step by (auto intro: rej_leaf.stop)
  next
    case (Cons n ns)
    then have "rejection_weight m (n, rj, ac) < rejection_weight m st"
      using rejection_weight_children [OF step] by simp
    then obtain r where "rej_leaf m (n, rj, ac) r" using less.hyps by blast
    then have "rej_leaf m st r" by (rule rej_leaf.accept [OF step, rotated]) (simp add: Cons)
    then show ?thesis ..
  qed
qed

lemma compute_rejection_options_nonempty:
  assumes "m \<noteq> []"
  shows "compute_rejection_options m \<noteq> []"
proof -
  obtain r where "rej_leaf m (fst (hd m), [], [fst (hd m)]) r" using rej_leaf_exists by metis
  then have "r \<in> set (compute_rejection_options m)"
    using assms by (auto simp: set_compute_rejection_options intro!: bexI [of _ "fst (hd m)"])
  then show ?thesis by auto
qed

text \<open>
  The specification of the search on a proper conflict graph (symmetric, irreflexive, every
  conflicting item a key): an option rejects everything outside a maximal set of items that do not
  conflict with each other.
\<close>

definition conflict_graph :: "'d relation_map \<Rightarrow> bool" where
  "conflict_graph m \<longleftrightarrow>
     (\<forall>a \<in> fst ` set m. a \<notin> conflicts_of m a \<and>
        (\<forall>b \<in> conflicts_of m a. b \<in> fst ` set m \<and> a \<in> conflicts_of m b))"

definition compatible :: "'d relation_map \<Rightarrow> 'd set \<Rightarrow> bool" where
  "compatible m M \<longleftrightarrow> (\<forall>a \<in> M. \<forall>b \<in> M. b \<notin> conflicts_of m a)"

definition max_compatible :: "'d relation_map \<Rightarrow> 'd set \<Rightarrow> bool" where
  "max_compatible m M \<longleftrightarrow> M \<subseteq> fst ` set m \<and> compatible m M
     \<and> (\<forall>b \<in> fst ` set m - M. \<exists>a \<in> M. a \<in> conflicts_of m b)"

lemma conflicts_of_not_key: "a \<notin> fst ` set m \<Longrightarrow> conflicts_of m a = {}"
  by (simp add: bm_get_or_def map_of_eq_None_iff [THEN iffD2])

lemma conflict_graph_sym: "conflict_graph m \<Longrightarrow> b \<in> conflicts_of m a \<Longrightarrow> a \<in> conflicts_of m b"
  unfolding conflict_graph_def by (metis conflicts_of_not_key empty_iff)

lemma conflict_graph_key: "conflict_graph m \<Longrightarrow> b \<in> conflicts_of m a \<Longrightarrow> b \<in> fst ` set m"
  unfolding conflict_graph_def by (metis conflicts_of_not_key empty_iff)

lemma conflict_graph_irrefl: "conflict_graph m \<Longrightarrow> a \<notin> conflicts_of m a"
  unfolding conflict_graph_def by (metis conflicts_of_not_key empty_iff)

lemma compatible_insert:
  assumes "conflict_graph m" and "compatible m M" and "n \<notin> (\<Union>x \<in> M. conflicts_of m x)"
  shows "compatible m (insert n M)"
  unfolding compatible_def
proof (intro ballI)
  fix a b assume "a \<in> insert n M" "b \<in> insert n M"
  then consider "a = n" "b = n" | "a = n" "b \<in> M" | "a \<in> M" "b = n" | "a \<in> M" "b \<in> M" by auto
  then show "b \<notin> conflicts_of m a"
  proof cases
    case 1
    then show ?thesis using conflict_graph_irrefl [OF assms(1)] by simp
  next
    case 2
    then show ?thesis using conflict_graph_sym [OF assms(1), of b a] assms(3) by auto
  next
    case 3
    then show ?thesis using assms(3) by auto
  next
    case 4
    then show ?thesis using assms(2) by (simp add: compatible_def)
  qed
qed

lemma max_compatible_rejects:
  assumes "conflict_graph m" and "max_compatible m M"
  shows "(\<Union>x \<in> M. conflicts_of m x) = fst ` set m - M"
proof (intro equalityI subsetI)
  fix b assume "b \<in> (\<Union>x \<in> M. conflicts_of m x)"
  then obtain x where "x \<in> M" "b \<in> conflicts_of m x" by auto
  moreover from this have "b \<notin> M" using assms(2) by (auto simp: max_compatible_def compatible_def)
  ultimately show "b \<in> fst ` set m - M" using conflict_graph_key [OF assms(1)] by simp
next
  fix b assume "b \<in> fst ` set m - M"
  then obtain x where "x \<in> M" "x \<in> conflicts_of m b"
    using assms(2) unfolding max_compatible_def by metis
  moreover from this have "b \<in> conflicts_of m x" using conflict_graph_sym [OF assms(1)] by simp
  ultimately show "b \<in> (\<Union>x \<in> M. conflicts_of m x)" by auto
qed

lemma rej_leaf_compatible:
  assumes "rej_leaf m st r" and "rej_inv m st" and "conflict_graph m"
    and "compatible m (insert (fst st) (set (snd (snd st))))"
  shows "\<exists>M. max_compatible m M \<and> set r = fst ` set m - M"
  using assms
proof (induction rule: rej_leaf.induct)
  case (stop st rj ac)
  obtain a r c where st: "st = (a, r, c)" by (cases st)
  let ?M = "insert a (set c)"
  note step = stop(1) [unfolded st] and inv = stop(2) [unfolded st]
  have rj: "set rj = (\<Union>x \<in> ?M. conflicts_of m x)" by (rule rej_inv_step(1) [OF step inv])
  have "?M \<subseteq> fst ` set m" using inv by (simp add: rej_inv_def)
  moreover have "compatible m ?M" using stop(4) by (simp add: st)
  moreover have "\<exists>x \<in> ?M. x \<in> conflicts_of m b" if "b \<in> fst ` set m - ?M" for b
  proof -
    have "b \<in> set rj" using that rejection_stepD(2,3) [OF step] by auto
    then obtain x where "x \<in> ?M" "b \<in> conflicts_of m x" unfolding rj by (rule UN_E)
    then show ?thesis using conflict_graph_sym [OF stop(3)] by metis
  qed
  ultimately have max: "max_compatible m ?M" by (simp add: max_compatible_def)
  then show ?case using max_compatible_rejects [OF stop(3) max] rj by (intro exI [of _ ?M]) simp
next
  case (accept st rj ac nxt n r)
  obtain a r' c where st: "st = (a, r', c)" by (cases st)
  note step = accept(1) [unfolded st] and inv = accept.prems(1) [unfolded st]
  note D = rejection_stepD [OF step]
  have "n \<notin> (\<Union>x \<in> set ac. conflicts_of m x)"
    using rej_inv_step(1) [OF step inv] D(2,3) accept(2) by simp
  moreover have "compatible m (set ac)" using accept.prems(3) D(2) by (simp add: st)
  ultimately have "compatible m (insert n (set ac))" by (intro compatible_insert accept.prems(2))
  then show ?case
    using accept.IH [OF rej_inv_step(2) [OF step inv accept(2)] accept.prems(2)] by simp
qed

lemma rej_leaf_complete:
  assumes "conflict_graph m" and "max_compatible m M"
    and "rej_inv m (a, r, c)" and "insert a (set c) \<subseteq> M"
  shows "\<exists>r'. rej_leaf m (a, r, c) r' \<and> set r' = fst ` set m - M \<and> btset_ok r'"
  using assms(3,4)
proof (induction "card (M - insert a (set c))" arbitrary: a r c rule: less_induct)
  case less
  obtain rj ac nxt where step: "rejection_step m (a, r, c) = (rj, ac, nxt)"
    by (cases "rejection_step m (a, r, c)")
  note D = rejection_stepD [OF step] and inv = rej_inv_step [OF step less.prems(1)]
  have fin: "finite M" using assms(2) by (auto simp: max_compatible_def intro: finite_subset)
  show ?case
  proof (cases "M = insert a (set c)")
    case True
    then have "set rj = fst ` set m - M"
      using inv(1) max_compatible_rejects [OF assms(1,2)] by simp
    moreover from this have "set nxt = {}" unfolding D(3) D(2) using True by blast
    ultimately show ?thesis
      using step D(4) less.prems(1) by (auto simp: rej_inv_def intro!: exI [of _ rj] rej_leaf.stop)
  next
    case False
    then obtain n where n: "n \<in> M" "n \<notin> insert a (set c)" using less.prems(2) by auto
    have "n \<in> fst ` set m" using n assms(2) by (auto simp: max_compatible_def)
    moreover have "set rj \<subseteq> (\<Union>x \<in> M. conflicts_of m x)"
      unfolding inv(1) by (rule UN_mono) (use less.prems(2) in auto)
    then have "n \<notin> set rj" unfolding max_compatible_rejects [OF assms(1,2)] using n(1) by auto
    ultimately have nxt: "n \<in> set nxt" using D(2,3) n by simp
    have "insert n (set ac) = insert n (insert a (set c))" using D(2) by simp
    then have "M - insert n (set ac) \<subset> M - insert a (set c)" using n by auto
    then have "card (M - insert n (set ac)) < card (M - insert a (set c))"
      using fin by (auto intro: psubset_card_mono)
    then have "\<exists>r'. rej_leaf m (n, rj, ac) r' \<and> set r' = fst ` set m - M \<and> btset_ok r'"
      using less.hyps inv(2) [OF nxt] D(2) n less.prems(2) by simp
    then show ?thesis using step nxt by (auto intro: rej_leaf.accept)
  qed
qed

lemma compute_rejection_options_exact:
  assumes "conflict_graph m" and "m \<noteq> []"
  shows "set (compute_rejection_options m)
    = {r. btset_ok r \<and> (\<exists>M. max_compatible m M \<and> set r = fst ` set m - M)}"
proof (intro equalityI subsetI)
  fix r assume "r \<in> set (compute_rejection_options m)"
  then obtain k where k: "k \<in> fst ` set m" "rej_leaf m (k, [], [k]) r"
    by (auto simp: set_compute_rejection_options)
  note inv = rej_inv_init [OF k(1)]
  have "\<exists>M. max_compatible m M \<and> set r = fst ` set m - M"
    by (rule rej_leaf_compatible [OF k(2) inv assms(1)])
      (simp add: compatible_def conflict_graph_irrefl [OF assms(1)])
  moreover have "btset_ok r" using rej_leaf_sound [OF k(2) inv] by auto
  ultimately show "r \<in> {r. btset_ok r \<and> (\<exists>M. max_compatible m M \<and> set r = fst ` set m - M)}" by simp
next
  fix r assume "r \<in> {r. btset_ok r \<and> (\<exists>M. max_compatible m M \<and> set r = fst ` set m - M)}"
  then obtain M where ok: "btset_ok r" and M: "max_compatible m M" and r: "set r = fst ` set m - M"
    by auto
  have "M \<noteq> {}" using M assms(2) by (cases m) (auto simp: max_compatible_def)
  then obtain k where k: "k \<in> M" by auto
  have key: "k \<in> fst ` set m" using k M by (auto simp: max_compatible_def)
  obtain r' where leaf: "rej_leaf m (k, [], [k]) r'" and r': "set r' = fst ` set m - M" "btset_ok r'"
    using rej_leaf_complete [OF assms(1) M rej_inv_init [OF key]] k by auto
  have "r = r'" by (rule btset_eqI [OF ok r'(2)]) (simp add: r r')
  then show "r \<in> set (compute_rejection_options m)"
    using key leaf by (auto simp: set_compute_rejection_options)
qed

section \<open>The optimal rejection\<close>

lemma rejection_key_inj: "rejection_key f a = rejection_key f b \<Longrightarrow> a = b"
  by (simp add: rejection_key_def)

lemma compute_optimal_rejection_min:
  assumes "options \<noteq> []"
  shows "compute_optimal_rejection options f \<in> set options"
    and "\<forall>a \<in> set options. rejection_key f (compute_optimal_rejection options f) \<le> rejection_key f a"
proof -
  obtain a where a: "first_min_by (rejection_key f) options = Some a"
    using assms by (metis first_min_by_None not_Some_eq)
  then have "compute_optimal_rejection options f = a" by (simp add: compute_optimal_rejection_def)
  then show "compute_optimal_rejection options f \<in> set options"
    "\<forall>a \<in> set options. rejection_key f (compute_optimal_rejection options f) \<le> rejection_key f a"
    using first_min_by_SomeD [OF a] by simp_all
qed

lemma compute_optimal_rejection_unique:
  assumes "a \<in> set options" and "\<forall>b \<in> set options. rejection_key f a \<le> rejection_key f b"
  shows "compute_optimal_rejection options f = a"
proof -
  have ne: "options \<noteq> []" using assms(1) by auto
  note min = compute_optimal_rejection_min [OF ne, of f]
  have "rejection_key f (compute_optimal_rejection options f) = rejection_key f a"
    using assms min by (intro antisym) auto
  then show ?thesis by (rule rejection_key_inj)
qed

lemma compute_optimal_rejection_cong:
  assumes "set options = set options'"
  shows "compute_optimal_rejection options f = compute_optimal_rejection options' f"
proof (cases "options = []")
  case True
  then show ?thesis using assms by simp
next
  case False
  then have "options' \<noteq> []" using assms by auto
  note min = compute_optimal_rejection_min [OF this, of f]
  show ?thesis by (rule compute_optimal_rejection_unique) (use min assms in auto)
qed

section \<open>Mergeable balances\<close>

text \<open>Every balance is a non-negative \<^verbatim>\<open>i64\<close>.\<close>

definition balances_ok :: "'c balances \<Rightarrow> bool" where
  "balances_ok b \<longleftrightarrow> (\<forall>c. 0 \<le> bm_get_or 0 b c \<and> i64_range (bm_get_or 0 b c))"

lemma apply_diff_ok: "balances_ok b \<Longrightarrow> apply_diff b diff = Some b' \<Longrightarrow> balances_ok b'"
proof (induction b diff rule: apply_diff.induct)
  case (2 acc channel change diff)
  then obtain result where r: "checked_add_i64 (bm_get_or 0 acc channel) change = Some result"
    "0 \<le> result" "apply_diff (bm_insert channel result acc) diff = Some b'"
    by (auto split: option.splits if_splits)
  then have "balances_ok (bm_insert channel result acc)"
    using "2.prems"(1) by (auto simp: balances_ok_def checked_add_i64_def split: if_splits)
  then show ?case using "2.IH" r by simp
qed simp

text \<open>An accepted diff adds each of its changes to the balance of its channel.\<close>

lemma apply_diff_add:
  "apply_diff b diff = Some b' \<Longrightarrow>
     bm_get_or 0 b' c = bm_get_or 0 b c + sum_list (map snd (filter (\<lambda>e. fst e = c) diff))"
proof (induction b diff rule: apply_diff.induct)
  case (2 acc channel change diff)
  then obtain result where r: "checked_add_i64 (bm_get_or 0 acc channel) change = Some result"
    "apply_diff (bm_insert channel result acc) diff = Some b'" "0 \<le> result"
    by (auto split: option.splits if_splits)
  then show ?case using "2.IH" by (auto simp: checked_add_i64_def split: if_splits)
qed simp

lemma fold_branch_ok:
  "balances_ok b \<Longrightarrow> fold_branch m d br (b, rj) = (b', rj') \<Longrightarrow> balances_ok b'"
proof (induction br arbitrary: b rj)
  case (Cons x br)
  then show ?case
    by (auto simp: calc_merged_result_def split: if_splits option.splits dest: apply_diff_ok)
qed simp

lemma fold_branch_closed:
  "dep_closed m (set rj) \<Longrightarrow> fold_branch m d br (b, rj) = (b', rj') \<Longrightarrow>
     dep_closed m (set rj') \<and> set rj \<subseteq> set rj'"
proof (induction br arbitrary: b rj)
  case (Cons x br)
  have "insert x (set rj) \<union> (dep_edges m)\<^sup>* `` {x} = set rj \<union> (dep_edges m)\<^sup>* `` {x}" by auto
  then have closed: "dep_closed m (set (bs_union (bs_insert x rj) (with_dependencies [x] m)))"
    using Cons.prems(1) by (simp add: dep_closed_Un)
  show ?case
  proof (cases "x \<in> set rj \<or> calc_merged_result x b d \<noteq> None")
    case True
    then obtain b'' where "fold_branch m d br (b'', rj) = (b', rj')"
      using Cons.prems(2) by (auto split: if_splits)
    then show ?thesis by (rule Cons.IH [OF Cons.prems(1)])
  next
    case False
    then have "fold_branch m d br (b, bs_union (bs_insert x rj) (with_dependencies [x] m)) = (b', rj')"
      using Cons.prems(2) by simp
    then show ?thesis using Cons.IH [OF closed] by auto
  qed
qed simp

lemma fold_roots_inv:
  assumes step: "\<And>br s. P s \<Longrightarrow> P (fold_branch m d br s)"
  shows "P s \<Longrightarrow> fold_roots m d roots s = Some s' \<Longrightarrow> P s'"
proof (induction roots arbitrary: s)
  case (Cons root roots)
  then obtain branch where "traverse_tree root (\<lambda>d. bm_get_or [] m d) = Some branch"
    by (auto split: option.splits)
  then have "fold_roots m d roots (fold_branch m d branch s) = Some s'" using Cons.prems(2) by simp
  then show ?case by (rule Cons.IH [OF step [OF Cons.prems(1)]])
qed simp

lemma fold_roots_closed:
  assumes "fold_roots m d roots s = Some s'" and "dep_closed m (set (snd s))"
  shows "dep_closed m (set (snd s'))"
  by (rule fold_roots_inv [where P = "\<lambda>s. dep_closed m (set (snd s))", OF _ assms(2,1)])
    (metis fold_branch_closed prod.collapse)

lemma fold_roots_ok:
  assumes "fold_roots m d roots s = Some s'" and "balances_ok (fst s)"
  shows "balances_ok (fst s')"
  by (rule fold_roots_inv [where P = "\<lambda>s. balances_ok (fst s)", OF _ assms(2,1)])
    (metis fold_branch_ok prod.collapse)

lemma fold_rejection_closed:
  "fold_rejection b tm m d = Some r \<Longrightarrow> dep_closed m (set r)"
  by (auto simp: fold_rejection_def Let_def dest: fold_roots_closed)

section \<open>The resolution\<close>

lemma set_incompatible_with_final:
  "set (incompatible_with_final af rf cm dm) =
     (\<Union>a \<in> set af. conflicts_of cm a) \<union> (\<Union>r \<in> set rf. set (bm_get_or [] dm r))"
proof -
  have fold_get: "set (fold (\<lambda>a out. case bm_get m a of Some v \<Rightarrow> bs_union out v | None \<Rightarrow> out) xs out)
      = set out \<union> (\<Union>a \<in> set xs. set (bm_get_or [] m a))" for m :: "'a relation_map" and xs out
    by (induction xs arbitrary: out) (auto simp: bm_get_or_def split: option.splits)
  show ?thesis unfolding incompatible_with_final_def Let_def fold_get by simp
qed

lemma bm_get_or_full_conflicts:
  "conflicts_of (full_conflicts cm dm) a = (dep_edges dm)\<^sup>* `` conflicts_of cm a"
proof -
  have "bm_get (full_conflicts cm dm) a
      = map_option (\<lambda>vs. bs_union vs (with_dependencies vs dm)) (bm_get cm a)"
    by (simp add: full_conflicts_def map_of_map)
  moreover have "set vs \<subseteq> (dep_edges dm)\<^sup>* `` set vs" for vs by auto
  ultimately show ?thesis by (auto simp: bm_get_or_def split: option.splits)
qed

lemma keys_full_conflicts [simp]: "fst ` set (full_conflicts cm dm) = fst ` set cm"
  by (force simp: full_conflicts_def)

lemma those_in_set: "those xs = Some ys \<Longrightarrow> y \<in> set ys \<longleftrightarrow> Some y \<in> set xs"
  by (induction xs arbitrary: ys) (auto split: option.splits)

lemma overflow_optionD:
  assumes "add_mergeable_overflow_rejections cs dm opts iv md = Some opts'" and "r \<in> set opts'"
  obtains fr rj where "set r = set rj \<union> set fr" and "dep_closed dm (set fr)"
    and "rj \<in> set opts \<or> opts = [] \<and> rj = []"
proof (cases "opts = []")
  case True
  then have "fold_rejection iv cs dm md = Some r"
    using assms by (auto simp: add_mergeable_overflow_rejections_def)
  from fold_rejection_closed [OF this] show thesis using that [of "[]" r] True by simp
next
  case False
  then obtain rs where rs: "those (map (\<lambda>rj. map_option (bs_union rj)
      (fold_rejection iv (bs_diff cs rj) dm md)) opts) = Some rs" "opts' = bs_collect rs"
    using assms(1) by (auto simp: add_mergeable_overflow_rejections_def)
  then have "Some r \<in> set (map (\<lambda>rj. map_option (bs_union rj)
      (fold_rejection iv (bs_diff cs rj) dm md)) opts)"
    using those_in_set [OF rs(1)] assms(2) by simp
  then obtain rj fr where r: "rj \<in> set opts" "r = bs_union rj fr"
    and fr: "fold_rejection iv (bs_diff cs rj) dm md = Some fr"
    by (auto dest: map_option_eq_Some [THEN iffD1, OF sym])
  from fold_rejection_closed [OF fr] show thesis using that [of rj fr] r by simp
qed

lemma overflow_options_nonempty:
  "add_mergeable_overflow_rejections cs dm opts iv md = Some opts' \<Longrightarrow> opts' \<noteq> []"
  by (cases opts) (auto simp: add_mergeable_overflow_rejections_def split: option.splits if_splits)

text \<open>What every successful resolution consists of.\<close>

lemma resolve_conflict_setD:
  assumes "resolve_conflict_set cs af rf cost cm dm md iv = Some (acc, rej)"
  obtains enforced resolved rj fr where
    "set enforced = (dep_edges dm)\<^sup>* `` set (incompatible_with_final af rf cm dm)"
    and "set acc = set cs - set enforced - set resolved"
    and "set rej = set resolved \<union> set enforced"
    and "set resolved = set rj \<union> set fr" and "dep_closed dm (set fr)"
    and "rj \<in> set (compute_rejection_options (full_conflicts cm dm)) \<or> cm = [] \<and> rj = []"
proof -
  let ?enf = "with_dependencies (incompatible_with_final af rf cm dm) dm"
  obtain opts where opts: "add_mergeable_overflow_rejections cs dm
      (compute_rejection_options (full_conflicts cm dm)) iv md = Some opts"
    and res: "acc = bs_diff (bs_diff cs ?enf) (compute_optimal_rejection opts cost)"
      "rej = bs_union (compute_optimal_rejection opts cost) ?enf"
    using assms by (auto simp: resolve_conflict_set_def Let_def split: option.splits)
  have mem: "compute_optimal_rejection opts cost \<in> set opts"
    by (rule compute_optimal_rejection_min(1) [OF overflow_options_nonempty [OF opts]])
  obtain fr rj where r: "set (compute_optimal_rejection opts cost) = set rj \<union> set fr"
    "dep_closed dm (set fr)" "rj \<in> set (compute_rejection_options (full_conflicts cm dm))
      \<or> compute_rejection_options (full_conflicts cm dm) = [] \<and> rj = []"
    by (rule overflow_optionD [OF opts mem])
  have "cm = []" if "compute_rejection_options (full_conflicts cm dm) = []"
    using that compute_rejection_options_nonempty [of "full_conflicts cm dm"]
    by (cases cm) (auto simp: full_conflicts_def)
  then show thesis using that [of ?enf "compute_optimal_rejection opts cost" rj fr] r res by auto
qed

lemma rejection_option_full_conflicts:
  assumes "rj \<in> set (compute_rejection_options (full_conflicts cm dm)) \<or> cm = [] \<and> rj = []"
  shows "dep_closed dm (set rj)"
    and "a \<in> fst ` set cm \<Longrightarrow> a \<notin> set rj \<Longrightarrow> conflicts_of cm a \<subseteq> set rj"
proof -
  obtain M where M: "set rj = (\<Union>x \<in> M. (dep_edges dm)\<^sup>* `` conflicts_of cm x)"
    "fst ` set cm \<subseteq> set rj \<union> M"
  proof (cases "cm = []")
    case True
    then have "rj = []" using assms
      by (auto simp: full_conflicts_def compute_rejection_options_def)
    then show thesis using that [of "{}"] True by simp
  next
    case False
    then have "rj \<in> set (compute_rejection_options (full_conflicts cm dm))" using assms by simp
    then show thesis
      by (rule rejection_optionD) (use that in \<open>simp add: bm_get_or_full_conflicts\<close>)
  qed
  show "dep_closed dm (set rj)" unfolding M(1) by blast
  assume "a \<in> fst ` set cm" "a \<notin> set rj"
  then have "a \<in> M" using M(2) by auto
  then show "conflicts_of cm a \<subseteq> set rj" unfolding M(1) by auto
qed

text \<open>The dependency map has no cycle: then \<^verbatim>\<open>traverse_tree\<close> returns.\<close>

lemma finite_dep_edges: "finite (dep_edges m)"
proof -
  have "dep_edges m \<subseteq> fst ` set m \<times> \<Union> (set ` snd ` set m)"
  proof (rule subrelI, rule SigmaI)
    fix d e assume "(d, e) \<in> dep_edges m"
    then have e: "e \<in> set (bm_get_or [] m d)" by (simp add: dep_edges_def)
    then show "d \<in> fst ` set m" using conflicts_of_not_key [of d m] by (metis empty_iff)
    show "e \<in> \<Union> (set ` snd ` set m)" by (rule bm_get_or_in_values [OF e])
  qed
  then show ?thesis by (rule finite_subset) auto
qed

lemma acyclic_frontier_shrinks:
  assumes "finite E" and "acyclic E" and "finite F" and "F \<noteq> {}"
  shows "card (E\<^sup>* `` (E `` F)) < card (E\<^sup>* `` F)"
proof -
  have "wf (E\<^sup>+)" using assms by (simp add: finite_acyclic_wf wf_trancl)
  then obtain x where x: "x \<in> F" "\<And>y. (y, x) \<in> E\<^sup>+ \<Longrightarrow> y \<notin> F"
    using assms(4) by (meson all_not_in_conv wfE_min)
  have "E\<^sup>* `` (E `` F) = E\<^sup>+ `` F"
    by (metis relcomp_Image trancl_unfold_left)
  moreover have "x \<notin> E\<^sup>+ `` F" "x \<in> E\<^sup>* `` F" using x by auto
  moreover have "E\<^sup>+ `` F \<subseteq> E\<^sup>* `` F" by (auto dest: trancl_into_rtrancl)
  ultimately have "E\<^sup>* `` (E `` F) \<subset> E\<^sup>* `` F" by auto
  moreover have "finite (E\<^sup>* `` F)" using assms(1,3)
    by (simp add: finite_rtrancl_Image)
  ultimately show ?thesis by (rule psubset_card_mono [rotated])
qed

lemma traverse_loop_total:
  assumes "acyclic (dep_edges m)"
  shows "\<exists>out. traverse_loop (\<lambda>d. bm_get_or [] m d) result frontier = Some out"
proof (induction "card ((dep_edges m)\<^sup>* `` set frontier)" arbitrary: result frontier
    rule: less_induct)
  case less
  show ?case
  proof (cases "frontier = []")
    case True
    then show ?thesis by (simp add: traverse_loop.simps)
  next
    case False
    let ?next = "bs_collect (concat (map (\<lambda>d. bm_get_or [] m d) (sort frontier)))"
    have "set ?next = dep_edges m `` set frontier" by (auto simp: dep_edges_def)
    moreover have "card ((dep_edges m)\<^sup>* `` (dep_edges m `` set frontier))
        < card ((dep_edges m)\<^sup>* `` set frontier)"
      by (rule acyclic_frontier_shrinks) (simp_all add: finite_dep_edges assms False)
    ultimately show ?thesis
      using less.hyps [of ?next] False by (simp add: traverse_loop.simps [of _ _ frontier])
  qed
qed

lemma fold_rejection_total:
  assumes "acyclic (dep_edges m)"
  shows "\<exists>r. fold_rejection b tm m d = Some r"
proof -
  have "\<exists>s'. fold_roots m d roots s = Some s'" for roots s
  proof (induction roots arbitrary: s)
    case (Cons root roots)
    obtain br where "traverse_tree root (\<lambda>d. bm_get_or [] m d) = Some br"
      using traverse_loop_total [OF assms] by (auto simp: traverse_tree_def)
    then show ?case using Cons.IH by simp
  qed simp
  then obtain s' where "fold_roots m d (sort (bm_keys (compute_branches tm m))) (b, []) = Some s'"
    by metis
  then show ?thesis by (simp add: fold_rejection_def Let_def)
qed

lemma those_total: "(\<And>x. x \<in> set xs \<Longrightarrow> \<exists>y. x = Some y) \<Longrightarrow> \<exists>ys. those xs = Some ys"
proof (induction xs)
  case (Cons x xs)
  obtain y where "x = Some y" using Cons.prems [of x] by auto
  moreover obtain ys where "those xs = Some ys" using Cons by auto
  ultimately show ?case by simp
qed simp

lemma overflow_total:
  assumes "acyclic (dep_edges dm)"
  shows "\<exists>opts'. add_mergeable_overflow_rejections cs dm opts iv md = Some opts'"
proof -
  have "\<exists>rs. those (map (\<lambda>rj. map_option (bs_union rj)
      (fold_rejection iv (bs_diff cs rj) dm md)) opts) = Some rs"
  proof (rule those_total)
    fix x assume "x \<in> set (map (\<lambda>rj. map_option (bs_union rj)
      (fold_rejection iv (bs_diff cs rj) dm md)) opts)"
    then obtain rj where "x = map_option (bs_union rj) (fold_rejection iv (bs_diff cs rj) dm md)"
      by auto
    moreover obtain r where "fold_rejection iv (bs_diff cs rj) dm md = Some r"
      using fold_rejection_total [OF assms] by blast
    ultimately show "\<exists>y. x = Some y" by simp
  qed
  moreover obtain r where "fold_rejection iv cs dm md = Some r"
    using fold_rejection_total [OF assms] by blast
  ultimately show ?thesis by (auto simp: add_mergeable_overflow_rejections_def)
qed

section \<open>Relation maps and partitions\<close>

lemma relate_get_or:
  "x \<in> set (bm_get_or [] (relate directed rel t s acc) k) \<longleftrightarrow>
     x \<in> set (bm_get_or [] acc k) \<or>
     rel t s \<and> t \<noteq> s \<and> (k = s \<and> x = t \<or> \<not> directed \<and> k = t \<and> x = s)"
  by (auto simp: relate_def Let_def)

lemma fold_relate_sources:
  "x \<in> set (bm_get_or [] (fold (\<lambda>s acc. relate directed rel t s acc) ss acc) k) \<longleftrightarrow>
     x \<in> set (bm_get_or [] acc k) \<or>
     (\<exists>s \<in> set ss. rel t s \<and> t \<noteq> s \<and> (k = s \<and> x = t \<or> \<not> directed \<and> k = t \<and> x = s))"
  by (induction ss arbitrary: acc) (auto simp: relate_get_or)

lemma fold_relate_targets:
  "x \<in> set (bm_get_or [] (fold (\<lambda>t acc. fold (\<lambda>s acc. relate directed rel t s acc) ss acc) ts acc) k)
   \<longleftrightarrow> x \<in> set (bm_get_or [] acc k) \<or>
     (\<exists>t \<in> set ts. \<exists>s \<in> set ss. rel t s \<and> t \<noteq> s \<and>
        (k = s \<and> x = t \<or> \<not> directed \<and> k = t \<and> x = s))"
  by (induction ts arbitrary: acc) (auto simp: fold_relate_sources)

lemma compute_relation_map_get:
  "x \<in> set (bm_get_or [] (compute_relation_map directed ts ss rel) k) \<longleftrightarrow>
     (\<exists>t \<in> set ts. \<exists>s \<in> set ss. rel t s \<and> t \<noteq> s \<and>
        (k = s \<and> x = t \<or> \<not> directed \<and> k = t \<and> x = s))"
  by (simp add: compute_relation_map_def fold_relate_targets)

lemma union_maps_get:
  "x \<in> set (bm_get_or [] (union_maps a b) k) \<longleftrightarrow>
     x \<in> set (bm_get_or [] a k) \<or> (\<exists>v. (k, v) \<in> set b \<and> x \<in> set v)"
  unfolding union_maps_def by (induction b arbitrary: a) (auto split: if_splits)

fun pairwise_disjoint :: "'d btset list \<Rightarrow> bool" where
  "pairwise_disjoint [] = True"
| "pairwise_disjoint (v # vs) = ((\<forall>w \<in> set vs. set v \<inter> set w = {}) \<and> pairwise_disjoint vs)"

lemma partition_scope_avoids:
  "\<forall>v \<in> set vs. set v \<inter> X = {} \<Longrightarrow> w \<in> set (partition_scope vs) \<Longrightarrow> set w \<inter> X = {}"
proof (induction vs rule: partition_scope.induct)
  case (2 head tail)
  then show ?case by fastforce
qed simp

lemma partition_scope_disjoint: "pairwise_disjoint (partition_scope vs)"
proof (induction vs rule: partition_scope.induct)
  case (2 head tail)
  have "set w \<inter> set head = {}" if "w \<in> set (partition_scope (map (\<lambda>v. bs_diff v head) tail))" for w
    by (rule partition_scope_avoids [OF _ that]) auto
  then show ?case using 2 by auto
qed simp

lemma partition_scope_Union: "\<Union> (set ` set (partition_scope vs)) = \<Union> (set ` set vs)"
proof (induction vs rule: partition_scope.induct)
  case (2 head tail)
  then show ?case by auto
qed simp

section \<open>Properties\<close>

text \<open>
  C3: a resolution splits the conflict set. What \<^verbatim>\<open>resolve_conflict_set\<close> accepts is exactly the part of
  the conflict set it does not reject, no two accepted deploys conflict, and no accepted deploy
  conflicts with a finally accepted one or depends on a finally rejected one.
\<close>

theorem resolve_accepts_compatible:
  assumes "resolve_conflict_set cs af rf cost cm dm md iv = Some (acc, rej)"
  shows "set acc = set cs - set rej \<and> compatible cm (set acc)
    \<and> (\<Union>a \<in> set af. conflicts_of cm a) \<inter> set acc = {}
    \<and> (\<Union>r \<in> set rf. (dep_edges dm)\<^sup>+ `` {r}) \<inter> set acc = {}"
proof (intro conjI)
  obtain enforced resolved rj fr where
    enf: "set enforced = (dep_edges dm)\<^sup>* `` set (incompatible_with_final af rf cm dm)"
    and acc: "set acc = set cs - set enforced - set resolved"
    and rej: "set rej = set resolved \<union> set enforced"
    and res: "set resolved = set rj \<union> set fr"
    and rj: "rj \<in> set (compute_rejection_options (full_conflicts cm dm)) \<or> cm = [] \<and> rj = []"
    by (rule resolve_conflict_setD [OF assms])
  show "set acc = set cs - set rej" using acc rej by auto
  show "compatible cm (set acc)" unfolding compatible_def
  proof (intro ballI notI)
    fix a b assume ab: "a \<in> set acc" "b \<in> set acc" "b \<in> conflicts_of cm a"
    have "a \<in> fst ` set cm" using ab(3) conflicts_of_not_key by fastforce
    moreover have "a \<notin> set rj" using ab(1) acc res by auto
    ultimately have "b \<in> set rj"
      using rejection_option_full_conflicts(2) [OF rj] ab(3) by auto
    then show False using ab(2) acc res by auto
  qed
  have "conflicts_of cm a \<subseteq> set enforced" if "a \<in> set af" for a
    using that by (auto simp: enf set_incompatible_with_final)
  then show "(\<Union>a \<in> set af. conflicts_of cm a) \<inter> set acc = {}" using acc by auto
  have "(dep_edges dm)\<^sup>+ `` {r} \<subseteq> set enforced" if "r \<in> set rf" for r
  proof
    fix x assume "x \<in> (dep_edges dm)\<^sup>+ `` {r}"
    then obtain y where "(r, y) \<in> dep_edges dm" "(y, x) \<in> (dep_edges dm)\<^sup>*"
      by (auto dest: tranclD)
    then show "x \<in> set enforced"
      using that by (auto simp: enf set_incompatible_with_final dep_edges_def)
  qed
  then show "(\<Union>r \<in> set rf. (dep_edges dm)\<^sup>+ `` {r}) \<inter> set acc = {}" using acc by auto
qed

text \<open>
  C21: the rejection is closed under dependencies. Whatever depends, directly or through other
  deploys, on a rejected deploy is rejected too, so no accepted deploy is left without one it needs.
\<close>

theorem resolve_rejects_dependents:
  assumes "resolve_conflict_set cs af rf cost cm dm md iv = Some (acc, rej)"
  shows "(dep_edges dm)\<^sup>* `` set rej = set rej"
proof -
  obtain enforced resolved rj fr where
    enf: "set enforced = (dep_edges dm)\<^sup>* `` set (incompatible_with_final af rf cm dm)"
    and rej: "set rej = set resolved \<union> set enforced"
    and res: "set resolved = set rj \<union> set fr" and fr: "dep_closed dm (set fr)"
    and rj: "rj \<in> set (compute_rejection_options (full_conflicts cm dm)) \<or> cm = [] \<and> rj = []"
    by (rule resolve_conflict_setD [OF assms])
  have "dep_closed dm (set rej)"
    unfolding rej res enf
    by (intro dep_closed_Un rejection_option_full_conflicts(1) [OF rj] fr dep_closed_rtrancl)
  then show ?thesis unfolding dep_closed_def by (rule rtrancl_Image_closed)
qed

text \<open>
  C23: with an acyclic dependency map a resolution always exists: \<^verbatim>\<open>resolve_conflict_set\<close> returns,
  although the breadth-first traversal it uses has no visited set.
\<close>

theorem resolve_terminates:
  assumes "acyclic (dep_edges dm)"
  shows "\<exists>acc rej. resolve_conflict_set cs af rf cost cm dm md iv = Some (acc, rej)"
proof -
  obtain opts where "add_mergeable_overflow_rejections cs dm
      (compute_rejection_options (full_conflicts cm dm)) iv md = Some opts"
    using overflow_total [OF assms] by blast
  then show ?thesis by (simp add: resolve_conflict_set_def Let_def)
qed


text \<open>
  The choice among the rejection options is deterministic. The option with the least (cost,
  size, lexicographic) key is chosen, it is the only one with that key, and the result depends on the
  set of options alone, not on the order they were found in.
\<close>

theorem optimal_rejection_deterministic:
  assumes "options \<noteq> []" and "set options' = set options"
  shows "compute_optimal_rejection options' f = compute_optimal_rejection options f
    \<and> compute_optimal_rejection options f \<in> set options
    \<and> (\<forall>a \<in> set options - {compute_optimal_rejection options f}.
         rejection_key f (compute_optimal_rejection options f) < rejection_key f a)"
proof (intro conjI ballI)
  show "compute_optimal_rejection options' f = compute_optimal_rejection options f"
    by (rule compute_optimal_rejection_cong [OF assms(2)])
  show "compute_optimal_rejection options f \<in> set options"
    by (rule compute_optimal_rejection_min(1) [OF assms(1)])
  fix a assume "a \<in> set options - {compute_optimal_rejection options f}"
  then have a: "a \<in> set options" "a \<noteq> compute_optimal_rejection options f" by auto
  show "rejection_key f (compute_optimal_rejection options f) < rejection_key f a"
    using bspec [OF compute_optimal_rejection_min(2) [OF assms(1), of f] a(1)]
      rejection_key_inj [of f "compute_optimal_rejection options f" a] a(2)
    by (auto simp: order_less_le)
qed

text \<open>
  Greedy partitioning covers every item of the branches once: the parts are pairwise disjoint,
  and their union is the union of the views.
\<close>

theorem partition_scope_partitions:
  "pairwise_disjoint (partition_scope vs) \<and>
   \<Union> (set ` set (partition_scope vs)) = \<Union> (set ` set vs)"
  by (intro conjI partition_scope_disjoint partition_scope_Union)

text \<open>
  The overflow fold keeps every mergeable balance a non-negative \<^verbatim>\<open>i64\<close>: a deploy whose diff would
  overflow a channel or take it below zero is rejected instead of applied.
\<close>

theorem overflow_fold_balances:
  assumes "balances_ok init" and "fold_roots dm md roots (init, []) = Some (balances, rejected)"
  shows "balances_ok balances"
  using fold_roots_ok [OF assms(2)] assms(1) by simp

section \<open>Witnesses\<close>

text \<open>
  Deploys 1 and 4 conflict, 2 depends on 1, deploy 3 draws 10 from channel 0, which only deploy 1
  fills, and rejecting 4 costs more than rejecting 1 and 2.
\<close>

definition ex_conflicts :: "nat relation_map" where "ex_conflicts = [(1, [4]), (4, [1])]"
definition ex_dependents :: "nat relation_map" where "ex_dependents = [(1, [2])]"
definition ex_diffs :: "(nat, nat balances) btmap" where
  "ex_diffs = [(1, [(0, 10)]), (3, [(0, -10)])]"
definition ex_cost :: "nat \<Rightarrow> int" where "ex_cost d = (if d = 4 then 9 else 1)"

lemmas ex_merge_defs = ex_conflicts_def ex_dependents_def ex_diffs_def ex_cost_def

lemma ex_resolve:
  "resolve_conflict_set [1, 2, 3, 4] [] [] ex_cost ex_conflicts ex_dependents ex_diffs [(0, 0)]
     = Some ([3, 4], [1, 2])"
  by code_simp

theorem resolve_accepts_compatible_witness:
  "resolve_conflict_set [1, 2, 3, 4] [] [] ex_cost ex_conflicts ex_dependents ex_diffs [(0, 0)]
     = Some ([3, 4], [1, 2]) \<and> set [3, 4 :: nat] = set [1, 2, 3, 4] - set [1, 2]
   \<and> compatible ex_conflicts (set [3, 4])"
  using resolve_accepts_compatible [OF ex_resolve] ex_resolve by simp

theorem resolve_rejects_dependents_witness:
  "resolve_conflict_set [1, 2, 3, 4] [] [] ex_cost ex_conflicts ex_dependents ex_diffs [(0, 0)]
     = Some ([3, 4], [1, 2]) \<and> (dep_edges ex_dependents)\<^sup>* `` set [1, 2] = set [1, 2]"
  using resolve_rejects_dependents [OF ex_resolve] ex_resolve by simp

lemma ex_dep_edges: "dep_edges ex_dependents = {(1, 2)}"
  by (auto simp: dep_edges_def ex_dependents_def bm_get_or_def split: if_splits)

theorem resolve_terminates_witness:
  "acyclic (dep_edges ex_dependents) \<and>
   (\<exists>acc rej. resolve_conflict_set [1, 2, 3, 4] [] [] ex_cost ex_conflicts ex_dependents ex_diffs
      [(0, 0)] = Some (acc, rej))"
proof -
  have ac: "acyclic (dep_edges ex_dependents)" by (simp add: ex_dep_edges wf_acyclic)
  show ?thesis using ac resolve_terminates [OF ac] by blast
qed


theorem optimal_rejection_deterministic_witness:
  "[[4], [1, 2 :: nat]] \<noteq> [] \<and> set [[1, 2], [4]] = set [[4], [1, 2 :: nat]] \<and>
   compute_optimal_rejection [[1, 2], [4]] ex_cost = compute_optimal_rejection [[4], [1, 2]] ex_cost"
proof -
  have h: "[[4], [1, 2 :: nat]] \<noteq> []" "set [[1, 2], [4]] = set [[4], [1, 2 :: nat]]" by auto
  show ?thesis using h optimal_rejection_deterministic [OF h, of ex_cost] by blast
qed

theorem overflow_fold_balances_witness:
  "balances_ok [(0 :: nat, 0)] \<and> balances_ok [(0 :: nat, 0)] \<and>
   fold_roots ex_dependents ex_diffs [1, 3] ([(0, 0)], []) = Some ([(0, 0)], [])"
proof -
  have ok: "balances_ok [(0 :: nat, 0)]"
    by (simp add: balances_ok_def bm_get_or_def i64_range_def i64_MIN_def i64_MAX_def)
  have run: "fold_roots ex_dependents ex_diffs [1, 3] ([(0, 0)], []) = Some ([(0, 0)], [])"
    by code_simp
  show ?thesis using ok run overflow_fold_balances [OF ok run] by blast
qed

text \<open>
  C34: the overflow check does not make the merged state overflow-free. The fold walks every branch of
  the dependency map, also the branches of deploys the option already rejects, and counts their
  diffs. Here deploy 1 is rejected for its conflict with 4, its deposit of 10 is counted all the same,
  and the accepted withdrawal of deploy 3 takes the channel below zero.
\<close>

theorem accepted_deploys_can_overdraw:
  "balances_ok [(0 :: nat, 0)] \<and>
   resolve_conflict_set [1, 2, 3, 4] [] [] ex_cost ex_conflicts ex_dependents ex_diffs [(0, 0)]
     = Some ([3, 4], [1, 2]) \<and>
   calc_merged_result 3 [(0, 0)] ex_diffs = None"
proof (intro conjI)
  show "balances_ok [(0 :: nat, 0)]"
    by (simp add: balances_ok_def bm_get_or_def i64_range_def i64_MIN_def i64_MAX_def)
  show "calc_merged_result 3 [(0, 0)] ex_diffs = None" by code_simp
qed (rule ex_resolve)

end
