(* ===== verification/Refined.thy ===== *)
theory Refined
  imports Prelude "HOL-Library.Word"
begin

text \<open>
  Hexadecimal text (\<^verbatim>\<open>shared/src/base16.rs\<close>) and the refinement newtypes
  (\<^verbatim>\<open>shared/src/refined.rs\<close>). A newtype is modelled by its carrier; its validated constructor
  returns a sum, with the error on the left. A \<^verbatim>\<open>&str\<close> is the list of its UTF-8 bytes, so a character
  outside ASCII shows as bytes that are not hexadecimal digits.
\<close>

unbundle bit_operations_syntax

section \<open>Base16\<close>

type_synonym byte = "8 word"
type_synonym bytes = "byte list"

definition hex_digits :: string where
  "hex_digits = ''0123456789abcdef''"

definition encode_byte :: "byte \<Rightarrow> string" where
  "encode_byte b = [hex_digits ! unat (drop_bit 4 b), hex_digits ! unat (take_bit 4 b)]"

definition base16_encode :: "bytes \<Rightarrow> string" where
  "base16_encode input = concat (map encode_byte input)"

definition to_digit16 :: "char \<Rightarrow> nat option" where
  "to_digit16 c =
     (let n = of_char c :: nat in
      if 48 \<le> n \<and> n \<le> 57 then Some (n - 48)
      else if 97 \<le> n \<and> n \<le> 102 then Some (n - 87)
      else if 65 \<le> n \<and> n \<le> 70 then Some (n - 55)
      else None)"

definition is_ascii_hexdigit :: "char \<Rightarrow> bool" where
  "is_ascii_hexdigit c \<longleftrightarrow> to_digit16 c \<noteq> None"

fun parse_chunks :: "string \<Rightarrow> bytes option" where
  "parse_chunks (h # l # rest) =
     (case to_digit16 h of None \<Rightarrow> None
      | Some hi \<Rightarrow> (case to_digit16 l of None \<Rightarrow> None
         | Some lo \<Rightarrow> map_option ((#) (push_bit 4 (of_nat hi) OR of_nat lo)) (parse_chunks rest)))"
| "parse_chunks [c] = None"
| "parse_chunks [] = Some []"

definition parse_hex_padded :: "string \<Rightarrow> bytes option" where
  "parse_hex_padded digits =
     parse_chunks (if even (length digits) then digits else CHR ''0'' # digits)"

definition base16_decode :: "string \<Rightarrow> bytes option" where
  "base16_decode input =
     (if list_ex (\<lambda>c. \<not> is_ascii_hexdigit c) input then None
      else if length input mod 2 \<noteq> 0 then None
      else parse_hex_padded input)"

definition unsafe_decode :: "string \<Rightarrow> bytes" where
  "unsafe_decode input =
     (case parse_hex_padded (filter is_ascii_hexdigit input) of None \<Rightarrow> [] | Some bs \<Rightarrow> bs)"

definition try_decode :: "string \<Rightarrow> string + bytes" where
  "try_decode input =
     (case base16_decode input of None \<Rightarrow> Inl (''invalid hex input: '' @ input) | Some bs \<Rightarrow> Inr bs)"

section \<open>Refinement newtypes\<close>

text \<open>The violated refinement; the message text of \<^verbatim>\<open>RefineError\<close> is not modelled.\<close>

datatype refine_error =
    NegativeValue int
  | PortOutOfRange int
  | LengthDoesNotFit nat
  | NegativeLength int
  | WrongHashLength nat
  | InvalidHex string

type_synonym nonneg_i64 = int
type_synonym block_height = int
type_synonym seq_num = int

definition nonneg_try_from :: "int \<Rightarrow> refine_error + nonneg_i64" where
  "nonneg_try_from v = (if v \<ge> 0 then Inr v else Inl (NegativeValue v))"

definition nonneg_one :: nonneg_i64 where "nonneg_one = 1"
definition nonneg_zero :: nonneg_i64 where "nonneg_zero = 0"

definition block_height_try_from :: "int \<Rightarrow> refine_error + block_height" where
  "block_height_try_from v = (if v \<ge> 0 then Inr v else Inl (NegativeValue v))"

definition block_height_zero :: block_height where "block_height_zero = 0"

definition block_height_add :: "block_height \<Rightarrow> nonneg_i64 \<Rightarrow> block_height" where
  "block_height_add h n = saturating_add_i64 h n"

definition block_height_sub :: "block_height \<Rightarrow> int \<Rightarrow> int" where
  "block_height_sub h n = wrap_i64 (h - n)"

definition seq_num_try_from :: "int \<Rightarrow> refine_error + seq_num" where
  "seq_num_try_from v = (if v \<ge> 0 then Inr v else Inl (NegativeValue v))"

definition seq_num_zero :: seq_num where "seq_num_zero = 0"

definition seq_num_add :: "seq_num \<Rightarrow> nonneg_i64 \<Rightarrow> seq_num" where
  "seq_num_add s n = saturating_add_i64 s n"

definition seq_num_sub :: "seq_num \<Rightarrow> int \<Rightarrow> int" where
  "seq_num_sub s n = wrap_i64 (s - n)"

type_synonym port = "16 word"

definition port_try_from :: "int \<Rightarrow> refine_error + port" where
  "port_try_from v =
     (if 0 \<le> v \<and> v < 2 ^ 16 then Inr (word_of_int v) else Inl (PortOutOfRange v))"

definition byte_len_try_from :: "nat \<Rightarrow> refine_error + 8 word" where
  "byte_len_try_from v = (if v < 2 ^ 8 then Inr (of_nat v) else Inl (LengthDoesNotFit v))"

definition short_len_try_from :: "nat \<Rightarrow> refine_error + 16 word" where
  "short_len_try_from v = (if v < 2 ^ 16 then Inr (of_nat v) else Inl (LengthDoesNotFit v))"

definition wire_len_try_from :: "nat \<Rightarrow> refine_error + 32 word" where
  "wire_len_try_from v = (if v < 2 ^ 32 then Inr (of_nat v) else Inl (LengthDoesNotFit v))"

definition wire_len_try_from_i32 :: "int \<Rightarrow> refine_error + 32 word" where
  "wire_len_try_from_i32 v = (if v \<ge> 0 then Inr (word_of_int v) else Inl (NegativeLength v))"

subsection \<open>Hashes\<close>

type_synonym hash32 = bytes

definition HASH32_LENGTH :: nat where "HASH32_LENGTH = 32"

definition hash32_ok :: "hash32 \<Rightarrow> bool" where
  "hash32_ok h \<longleftrightarrow> length h = HASH32_LENGTH"

definition hash32_try_from :: "bytes \<Rightarrow> refine_error + hash32" where
  "hash32_try_from bs =
     (if length bs \<noteq> HASH32_LENGTH then Inl (WrongHashLength (length bs)) else Inr bs)"

definition to_hex :: "hash32 \<Rightarrow> string" where
  "to_hex h = base16_encode h"

definition try_from_hex :: "string \<Rightarrow> refine_error + hash32" where
  "try_from_hex s =
     (case try_decode s of Inl e \<Rightarrow> Inl (InvalidHex e) | Inr bs \<Rightarrow> hash32_try_from bs)"

definition starts_with :: "hash32 \<Rightarrow> bytes \<Rightarrow> bool" where
  "starts_with h pre \<longleftrightarrow> take (length pre) h = pre"

section \<open>Round trips and validation\<close>

lemma low_digit_less: "unat (take_bit 4 b :: byte) < 16"
  using take_bit_nat_less_exp [of 4 "unat b"] by (simp add: unsigned_take_bit_eq)

lemma high_digit_less: "unat (drop_bit 4 b :: byte) < 16"
proof -
  have "unat b < 2 ^ 8" using unsigned_less [of b, where 'a = nat] by simp
  then have "drop_bit 4 (unat b) < 16" by (simp add: drop_bit_eq_div)
  then show ?thesis by (simp only: unat_drop_bit_eq)
qed

lemma to_digit16_hex: "n < 16 \<Longrightarrow> to_digit16 (hex_digits ! n) = Some n"
proof -
  have "\<forall>n\<in>set [0..<16]. to_digit16 (hex_digits ! n) = Some n" by code_simp
  then show "n < 16 \<Longrightarrow> to_digit16 (hex_digits ! n) = Some n" by simp
qed

lemma is_ascii_hexdigit_hex: "n < 16 \<Longrightarrow> is_ascii_hexdigit (hex_digits ! n)"
  by (simp add: is_ascii_hexdigit_def to_digit16_hex)

lemma join_digits: "push_bit 4 (drop_bit 4 b) OR take_bit 4 b = (b :: byte)"
  by (rule bit_eqI) (auto simp: bit_simps)

lemma parse_chunks_encode: "parse_chunks (base16_encode bs) = Some bs"
  by (induction bs)
    (simp_all add: base16_encode_def encode_byte_def to_digit16_hex low_digit_less high_digit_less
      join_digits)

lemma length_base16_encode [simp]: "length (base16_encode bs) = 2 * length bs"
  by (induction bs) (simp_all add: base16_encode_def encode_byte_def)

lemma base16_encode_hexdigits: "c \<in> set (base16_encode bs) \<Longrightarrow> is_ascii_hexdigit c"
  by (auto simp: base16_encode_def encode_byte_def is_ascii_hexdigit_hex low_digit_less
      high_digit_less)

lemma base16_decode_encode [simp]: "base16_decode (base16_encode bs) = Some bs"
  by (auto simp: base16_decode_def parse_hex_padded_def parse_chunks_encode list_ex_iff
      dest: base16_encode_hexdigits)

lemma parse_chunks_defined:
  "even (length s) \<Longrightarrow> \<forall>c\<in>set s. is_ascii_hexdigit c \<Longrightarrow> \<exists>bs. parse_chunks s = Some bs"
  by (induction s rule: parse_chunks.induct) (auto simp: is_ascii_hexdigit_def)

lemma parse_chunks_length: "parse_chunks s = Some bs \<Longrightarrow> length s = 2 * length bs"
  by (induction s arbitrary: bs rule: parse_chunks.induct) (auto split: option.splits)

text \<open>The lower-case form of a hexadecimal digit, which is what the encoder prints.\<close>

definition lower_hex :: "char \<Rightarrow> char" where
  "lower_hex c = (case to_digit16 c of None \<Rightarrow> c | Some d \<Rightarrow> hex_digits ! d)"

lemma to_digit16_less: "to_digit16 c = Some d \<Longrightarrow> d < 16"
  by (auto simp: to_digit16_def Let_def split: if_splits)

lemma chunk_digits:
  assumes "hi < 16" "lo < 16"
  shows "unat (drop_bit 4 (push_bit 4 (of_nat hi) OR of_nat lo :: byte)) = hi
    \<and> unat (take_bit 4 (push_bit 4 (of_nat hi) OR of_nat lo :: byte)) = lo"
proof -
  have "\<forall>hi\<in>set [0..<16]. \<forall>lo\<in>set [0..<16].
      unat (drop_bit 4 (push_bit 4 (of_nat hi) OR of_nat lo :: byte)) = hi
    \<and> unat (take_bit 4 (push_bit 4 (of_nat hi) OR of_nat lo :: byte)) = lo"
    by code_simp
  then show ?thesis using assms by simp
qed

lemma encode_parse_chunks: "parse_chunks s = Some bs \<Longrightarrow> base16_encode bs = map lower_hex s"
proof (induction s arbitrary: bs rule: parse_chunks.induct)
  case (1 h l rest)
  then obtain hi lo bs' where d: "to_digit16 h = Some hi" "to_digit16 l = Some lo"
      "parse_chunks rest = Some bs'" "bs = (push_bit 4 (of_nat hi) OR of_nat lo) # bs'"
    by (auto split: option.splits)
  from 1 d have "base16_encode bs' = map lower_hex rest" by simp
  with d show ?case
    using chunk_digits [OF to_digit16_less to_digit16_less, OF d(1,2)]
    by (simp add: base16_encode_def encode_byte_def lower_hex_def)
qed (auto simp: base16_encode_def)

lemma base16_decode_Some:
  "base16_decode s = Some bs \<longleftrightarrow>
     even (length s) \<and> (\<forall>c\<in>set s. is_ascii_hexdigit c) \<and> parse_chunks s = Some bs"
  by (auto simp: base16_decode_def parse_hex_padded_def list_ex_iff even_iff_mod_2_eq_zero)

lemma unsafe_decode_of_decode: "base16_decode s = Some bs \<Longrightarrow> unsafe_decode s = bs"
  by (simp add: base16_decode_Some unsafe_decode_def parse_hex_padded_def)

section \<open>Properties\<close>



text \<open>
  A hash reads back from its hexadecimal form, and a text is accepted as a hash only when it is
  64 hexadecimal digits.
\<close>

theorem hash32_hex_round_trip:
  assumes "hash32_ok h"
  shows "try_from_hex (to_hex h) = Inr h \<and>
    (\<forall>s h'. try_from_hex s = Inr h' \<longrightarrow> hash32_ok h' \<and> length s = 64 \<and> to_hex h' = map lower_hex s)"
proof -
  have "try_from_hex (to_hex h) = Inr h"
    using assms by (simp add: try_from_hex_def to_hex_def try_decode_def hash32_try_from_def hash32_ok_def)
  moreover have "hash32_ok h' \<and> length s = 64 \<and> to_hex h' = map lower_hex s"
    if "try_from_hex s = Inr h'" for s h'
    using that parse_chunks_length [of s h'] encode_parse_chunks [of s h']
    by (auto simp: try_from_hex_def try_decode_def hash32_try_from_def hash32_ok_def to_hex_def
        HASH32_LENGTH_def base16_decode_Some split: option.splits if_splits)
  ultimately show ?thesis by blast
qed

theorem hash32_hex_round_trip_witness:
  "hash32_ok (replicate 32 0xab) \<and>
   try_from_hex (to_hex (replicate 32 0xab)) = Inr (replicate 32 0xab)"
proof -
  have h: "hash32_ok (replicate 32 0xab)" by (simp add: hash32_ok_def HASH32_LENGTH_def)
  show ?thesis using h hash32_hex_round_trip [OF h] by blast
qed



end
