(* ===== verification/Finalizer.thy ===== *)
theory Finalizer
  imports Prelude Refined "HOL-Library.Monad_Syntax"
begin

text \<open>
  The stake threshold (\<^verbatim>\<open>sdk/src/consensus.rs\<close>), the messages of the DAG and the fringe estimator
  (\<^verbatim>\<open>block-storage/src/dag/finalizer.rs\<close>), and the helpers over a message map
  (\<^verbatim>\<open>block-storage/src/dag/message_map.rs\<close>). The walk along a sender's own chain and the outer search
  for the top fringe are unbounded loops of the code: not returning is \<^const>\<open>None\<close> in the model.
\<close>

section \<open>Messages\<close>

datatype ('m, 's) message = Message
  (msg_id: 'm) (height: block_height) (sender: 's) (sender_seq: seq_num)
  (bonds_map: "('s, nonneg_i64) btmap") (parents: "'m btset") (fringe: "'m btset")
  (seen: "'m btset")

text \<open>The derived \<^verbatim>\<open>Ord\<close> compares the fields in the order they are declared.\<close>

fun msg_fields where
  "msg_fields (Message i h s q b p f v) = (i, h, s, q, b, p, f, v)"

lemma msg_fields_inj [simp]: "msg_fields m = msg_fields n \<longleftrightarrow> m = n"
  by (cases m; cases n) simp

instantiation message :: (linorder, linorder) linorder
begin

definition less_eq_message :: "('a, 'b) message \<Rightarrow> ('a, 'b) message \<Rightarrow> bool" where
  "less_eq_message m n \<longleftrightarrow> msg_fields m \<le> msg_fields n"

definition less_message :: "('a, 'b) message \<Rightarrow> ('a, 'b) message \<Rightarrow> bool" where
  "less_message m n \<longleftrightarrow> msg_fields m < msg_fields n"

instance
  by standard
    (auto simp: less_eq_message_def less_message_def less_le_not_le dest: antisym)

end

type_synonym ('m, 's) msg_map = "('m, ('m, 's) message) btmap"
type_synonym 's bonds = "('s, nonneg_i64) btmap"

section \<open>Stake\<close>

definition is_super_majority :: "int \<Rightarrow> int \<Rightarrow> bool" where
  "is_super_majority stake total_stake \<longleftrightarrow> stake * 3 > total_stake * 2"

section \<open>Message maps\<close>

text \<open>\<^verbatim>\<open>ids.iter().filter_map(|id| msg_map.get(id).cloned())\<close>.\<close>

definition msgs_at :: "('m, 's) msg_map \<Rightarrow> 'm list \<Rightarrow> ('m, 's) message list" where
  "msgs_at mm ids = List.map_filter (bm_get mm) ids"

definition seen_msgs ::
  "('m::linorder, 's::linorder) msg_map \<Rightarrow> ('m, 's) message btset \<Rightarrow> ('m, 's) message btset" where
  "seen_msgs mm bound = bs_collect (concat (map (\<lambda>m. msgs_at mm (seen m)) bound))"

definition between ::
  "('m::linorder, 's::linorder) msg_map \<Rightarrow> ('m, 's) message btset \<Rightarrow> ('m, 's) message btset
   \<Rightarrow> ('m, 's) message btset" where
  "between mm upper lower = bs_diff (seen_msgs mm upper) (seen_msgs mm lower)"

definition fringe_height :: "('m, 's) msg_map \<Rightarrow> ('m, 's) message \<Rightarrow> block_height option" where
  "fringe_height mm j = last_max_by id (map height (msgs_at mm (fringe j)))"

definition latest_fringe ::
  "('m::linorder, 's::linorder) msg_map \<Rightarrow> ('m, 's) message btset \<Rightarrow> ('m, 's) message btset" where
  "latest_fringe mm justifications =
     (case last_max_by (fringe_height mm) justifications of
        Some j \<Rightarrow> bs_collect (msgs_at mm (fringe j)) | None \<Rightarrow> [])"

definition lowest_fringe ::
  "('m::linorder, 's::linorder) msg_map \<Rightarrow> ('m, 's) message btset \<Rightarrow> ('m, 's) message btset" where
  "lowest_fringe mm msgs =
     (case first_min_by (fringe_height mm) msgs of
        Some j \<Rightarrow> bs_collect (msgs_at mm (fringe j)) | None \<Rightarrow> [])"

definition find_with_empty_parents :: "('m, 's) msg_map \<Rightarrow> ('m, 's) message option" where
  "find_with_empty_parents mm = find (\<lambda>m. parents m = []) (bm_values mm)"

definition prune_fringe ::
  "('m::linorder, 's::linorder) msg_map \<Rightarrow> 'm btset \<Rightarrow> ('m, 'm btset) btmap
   \<Rightarrow> ('m, 's) message btset" where
  "prune_fringe mm final_fringe child_map =
     lowest_fringe mm (bs_collect (msgs_at mm (concat (map (bm_get_or [] child_map) final_fringe))))"

section \<open>The finalizer\<close>

definition self_next ::
  "('m, 's) msg_map \<Rightarrow> 's \<Rightarrow> ('m, 's) message btset \<Rightarrow> ('m, 's) message \<Rightarrow> ('m, 's) message list"
where
  "self_next mm s finalized m =
     filter (\<lambda>x. sender x = s \<and> x \<notin> set finalized) (msgs_at mm (parents m))"

text \<open>The loop pops the last of the candidates and drops the others.\<close>

partial_function (option) self_loop ::
  "('m, 's) msg_map \<Rightarrow> 's \<Rightarrow> ('m, 's) message btset \<Rightarrow> ('m, 's) message
   \<Rightarrow> ('m, 's) message list option"
where
  "self_loop mm s finalized m =
     (if self_next mm s finalized m = [] then Some []
      else (let x = last (self_next mm s finalized m) in
            Option.bind (self_loop mm s finalized x) (\<lambda>chain. Some (x # chain))))"

definition self_parents ::
  "('m, 's) msg_map \<Rightarrow> ('m, 's) message \<Rightarrow> ('m, 's) message btset \<Rightarrow> ('m, 's) message list option"
where
  "self_parents mm mv finalized = self_loop mm (sender mv) finalized mv"

definition check_min_messages :: "('m, 's) message list \<Rightarrow> 's bonds \<Rightarrow> bool" where
  "check_min_messages min_msgs bonds \<longleftrightarrow> length min_msgs = length bonds"

definition raise_layer ::
  "('m, 's::linorder) message \<Rightarrow> ('s, ('m, 's) message) btmap \<Rightarrow> ('s, ('m, 's) message) btmap" where
  "raise_layer m layer =
     (case bm_get layer (sender m) of
        Some cur \<Rightarrow> if sender_seq m > sender_seq cur then bm_insert (sender m) m layer else layer
      | None \<Rightarrow> layer)"

definition calculate_next_layer ::
  "('m, 's::linorder) msg_map \<Rightarrow> ('m, 's) message list \<Rightarrow> ('s, ('m, 's) message) btmap" where
  "calculate_next_layer mm min_msgs =
     (let layer = bm_collect (map (\<lambda>x. (sender x, x)) min_msgs);
          candidates = filter (\<lambda>x. bm_get layer (sender x) \<noteq> None)
            (concat (map (\<lambda>x. msgs_at mm (parents x)) min_msgs))
      in fold raise_layer candidates layer)"

definition parent_sees ::
  "('m, 's) msg_map \<Rightarrow> ('m, 's) message btset \<Rightarrow> 'm \<Rightarrow> ('m, 's) message \<Rightarrow> bool option" where
  "parent_sees mm finalized i p = do {
     chain \<leftarrow> self_parents mm p finalized;
     Some (list_ex (\<lambda>m. i \<in> set (seen m)) (p # chain)) }"

definition see_min_msg ::
  "('m, 's::linorder) msg_map \<Rightarrow> ('m, 's) message btset \<Rightarrow> 'm list \<Rightarrow> ('m, 's) message
   \<Rightarrow> 's btset option" where
  "see_min_msg mm finalized parents_of_parent min_msg = do {
     bs \<leftarrow> those (map (\<lambda>p. map_option (Pair p) (parent_sees mm finalized (msg_id min_msg) p))
            (msgs_at mm parents_of_parent));
     Some (bs_collect (map (sender \<circ> fst) (filter snd bs))) }"

definition seen_by_map ::
  "('m::linorder, 's::linorder) msg_map \<Rightarrow> ('s, ('m, 's) message) btmap \<Rightarrow> ('m, 's) message btset
   \<Rightarrow> ('m, 's) message \<Rightarrow> ('s, 's btset) btmap option" where
  "seen_by_map mm next_layer finalized mv = do {
     es \<leftarrow> those (map (\<lambda>(s, min_msg). map_option (Pair s)
            (see_min_msg mm finalized
              (bs_diff (parents mv) (map msg_id (bm_values next_layer))) min_msg)) next_layer);
     Some (bm_collect (filter (\<lambda>(s, v). v \<noteq> []) es)) }"

definition calculate_next_fringe_support_map ::
  "('m::linorder, 's::linorder) msg_map \<Rightarrow> ('m, 's) message btset \<Rightarrow> ('s, ('m, 's) message) btmap
   \<Rightarrow> ('m, 's) message btset \<Rightarrow> ('s, ('s, 's btset) btmap) btmap option" where
  "calculate_next_fringe_support_map mm justifications next_layer finalized = do {
     es \<leftarrow> those (map (\<lambda>mv. map_option (Pair (sender mv)) (seen_by_map mm next_layer finalized mv))
            justifications);
     Some (bm_collect (filter (\<lambda>(s, seen_by). seen_by \<noteq> []) es)) }"

text \<open>Whether a support entry sees the full partition, and the stake of those that do.\<close>

definition all_bonded :: "'s bonds \<Rightarrow> ('s, 's btset) btmap \<Rightarrow> bool" where
  "all_bonded bonds seen_by \<longleftrightarrow>
     seen_by \<noteq> [] \<and> list_all (\<lambda>v. v = bm_keys bonds) (bm_values seen_by)"

definition full_partition_stake :: "('s, ('s, 's btset) btmap) btmap \<Rightarrow> 's bonds \<Rightarrow> int" where
  "full_partition_stake support bonds =
     sum_list (map (\<lambda>(s, seen_by).
       if all_bonded bonds seen_by then bm_get_or 0 bonds s else 0) support)"

definition calculate_fringe :: "('s, ('s, 's btset) btmap) btmap \<Rightarrow> 's bonds \<Rightarrow> bool" where
  "calculate_fringe support bonds =
     is_super_majority (full_partition_stake support bonds) (sum_list (bm_values bonds))"

definition min_message ::
  "('m, 's) msg_map \<Rightarrow> ('m, 's) message btset \<Rightarrow> ('m, 's) message \<Rightarrow> ('m, 's) message option" where
  "min_message mm prev_fringe p = map_option (\<lambda>chain. last (p # chain)) (self_parents mm p prev_fringe)"

definition next_fringe ::
  "('m::linorder, 's::linorder) msg_map \<Rightarrow> ('m, 's) message btset \<Rightarrow> 's bonds
   \<Rightarrow> ('m, 's) message btset \<Rightarrow> ('m, 's) message btset option option" where
  "next_fringe mm justifications bonds prev_fringe = do {
     min_msgs \<leftarrow> those (map (min_message mm prev_fringe) justifications);
     if \<not> check_min_messages min_msgs bonds then Some None
     else do {
       let next_layer = calculate_next_layer mm min_msgs;
       support \<leftarrow> calculate_next_fringe_support_map mm justifications next_layer prev_fringe;
       Some (if calculate_fringe support bonds then Some (bs_collect (bm_values next_layer))
             else None) } }"

partial_function (option) finalization_loop ::
  "('m::linorder, 's::linorder) msg_map \<Rightarrow> ('m, 's) message btset \<Rightarrow> 's bonds
   \<Rightarrow> ('m, 's) message btset \<Rightarrow> ('m, 's) message btset option
   \<Rightarrow> ('m, 's) message btset option option"
where
  "finalization_loop mm justifications bonds current new_fringe_opt =
     Option.bind (next_fringe mm justifications bonds current) (\<lambda>r.
       case r of
         None \<Rightarrow> Some new_fringe_opt
       | Some nf \<Rightarrow>
           if nf = current then Some new_fringe_opt
           else finalization_loop mm justifications bonds nf (Some nf))"

definition calculate_finalization ::
  "('m::linorder, 's::linorder) msg_map \<Rightarrow> ('m, 's) message btset \<Rightarrow> 's bonds
   \<Rightarrow> (('m, 's) message btset \<times> ('m, 's) message btset option) option" where
  "calculate_finalization mm justifications bonds =
     (let parent_fringe = latest_fringe mm justifications in
      map_option (Pair parent_fringe)
        (finalization_loop mm justifications bonds parent_fringe None))"

declare self_loop.simps [code] finalization_loop.simps [code]

section \<open>The view of the justifications\<close>

text \<open>The messages reachable from the justifications along parents that the map knows.\<close>

inductive_set view :: "('m, 's) msg_map \<Rightarrow> ('m, 's) message set \<Rightarrow> ('m, 's) message set"
  for mm J where
  view_base: "j \<in> J \<Longrightarrow> j \<in> view mm J"
| view_step: "m \<in> view mm J \<Longrightarrow> p \<in> set (msgs_at mm (parents m)) \<Longrightarrow> p \<in> view mm J"

lemma set_msgs_at: "set (msgs_at mm ids) = {m. \<exists>i\<in>set ids. bm_get mm i = Some m}"
  by (auto simp: msgs_at_def map_filter_def) force

lemma set_self_next:
  "x \<in> set (self_next mm s F m) \<longleftrightarrow> x \<in> set (msgs_at mm (parents m)) \<and> sender x = s \<and> x \<notin> set F"
  by (auto simp: self_next_def)

lemma self_loop_induct [consumes 1, case_names stop step]:
  assumes "self_loop mm s F m = Some chain"
    and stop: "\<And>m. self_next mm s F m = [] \<Longrightarrow> P m []"
    and step: "\<And>m x chain. x \<in> set (self_next mm s F m) \<Longrightarrow> P x chain \<Longrightarrow> P m (x # chain)"
  shows "P m chain"
proof -
  have "s' = s \<longrightarrow> F' = F \<longrightarrow> mm' = mm \<longrightarrow> P m chain"
    if "self_loop mm' s' F' m = Some chain" for mm' s' F'
    using that
  proof (rule self_loop.raw_induct [rotated], intro impI)
    fix loop mm' s' F' m chain
    assume IH: "\<And>mm' s' F' m chain. loop mm' s' F' m = Some chain \<Longrightarrow>
        s' = s \<longrightarrow> F' = F \<longrightarrow> mm' = mm \<longrightarrow> P m chain"
      and body: "(if self_next mm' s' F' m = [] then Some []
        else let x = last (self_next mm' s' F' m) in
          Option.bind (loop mm' s' F' x) (\<lambda>chain. Some (x # chain))) = Some chain"
      and eq: "s' = s" "F' = F" "mm' = mm"
    show "P m chain"
    proof (cases "self_next mm s F m = []")
      case False
      then obtain c where "loop mm s F (last (self_next mm s F m)) = Some c"
          "chain = last (self_next mm s F m) # c"
        using body eq by (auto simp: Let_def split: Option.bind_splits)
      then show ?thesis using IH False step [of "last (self_next mm s F m)" m c] by simp
    qed (use body eq stop in simp)
  qed
  then show ?thesis using assms(1) by simp
qed

lemma self_loop_chain:
  assumes "self_loop mm s F m = Some chain" and "m \<in> view mm J"
  shows "\<forall>x\<in>set chain. x \<in> view mm J \<and> sender x = s \<and> x \<notin> set F"
  using assms
proof (induction rule: self_loop_induct)
  case (step m x chain)
  then have "x \<in> view mm J" by (auto simp: set_self_next intro: view_step)
  then show ?case using step by (auto simp: set_self_next)
qed simp

lemma min_message_view:
  assumes "min_message mm F j = Some m" and "j \<in> J"
  shows "m \<in> view mm J \<and> sender m = sender j"
  using assms self_loop_chain [of mm "sender j" F j _ J] last_in_set [of "_ # _"]
  by (fastforce simp: min_message_def self_parents_def intro: view_base)

subsection \<open>The next layer\<close>

definition layer_ok :: "('m, 's) message set \<Rightarrow> ('s::linorder, ('m, 's) message) btmap \<Rightarrow> bool" where
  "layer_ok V layer \<longleftrightarrow> btmap_ok layer \<and> (\<forall>s m. bm_get layer s = Some m \<longrightarrow> m \<in> V \<and> sender m = s)"

lemma raise_layer_ok: "layer_ok V layer \<Longrightarrow> m \<in> V \<Longrightarrow> layer_ok V (raise_layer m layer)"
  by (auto simp: layer_ok_def raise_layer_def split: option.splits)

lemma raise_layer_keys: "fst ` set (raise_layer m layer) = fst ` set layer"
  by (auto simp: raise_layer_def split: option.splits dest: map_of_SomeD)
    (metis fst_conv image_eqI map_of_SomeD)

lemma fold_raise_layer_ok:
  "layer_ok V layer \<Longrightarrow> set ms \<subseteq> V \<Longrightarrow> layer_ok V (fold raise_layer ms layer)"
  by (induction ms arbitrary: layer) (auto intro: raise_layer_ok)

lemma fold_raise_layer_keys: "fst ` set (fold raise_layer ms layer) = fst ` set layer"
  by (induction ms arbitrary: layer) (auto simp: raise_layer_keys)

lemma bm_get_min_msgs:
  "map_of (rev (map (\<lambda>x. (sender x, x)) ms)) s = Some m \<Longrightarrow> m \<in> set ms \<and> sender m = s"
  by (auto dest!: map_of_SomeD)

lemma set_bm_keys_collect [simp]: "fst ` set (bm_collect es) = fst ` set es"
proof -
  have "dom (bm_get (bm_collect es)) = dom (map_of (rev es))" by (simp only: bm_get_collect)
  then show ?thesis by (simp only: dom_map_of_conv_image_fst set_rev)
qed

lemma calculate_next_layer_ok:
  assumes "set ms \<subseteq> view mm J"
  shows "layer_ok (view mm J) (calculate_next_layer mm ms)"
proof -
  have "layer_ok (view mm J) (bm_collect (map (\<lambda>x. (sender x, x)) ms))"
    using assms by (auto simp: layer_ok_def dest!: bm_get_min_msgs)
  moreover have "p \<in> view mm J" if "m \<in> set ms" "p \<in> set (msgs_at mm (parents m))" for m p
    using that assms by (blast intro: view_step)
  ultimately show ?thesis
    unfolding calculate_next_layer_def Let_def by (intro fold_raise_layer_ok) auto
qed

lemma calculate_next_layer_keys: "fst ` set (calculate_next_layer mm ms) = sender ` set ms"
  by (simp add: calculate_next_layer_def Let_def fold_raise_layer_keys image_image)

lemma layer_values:
  assumes "layer_ok V layer"
  shows "set (bm_values layer) \<subseteq> V" "inj_on sender (set (bm_values layer))"
    "sender ` set (bm_values layer) = fst ` set layer"
proof -
  have d: "distinct (map fst layer)" using assms by (simp add: layer_ok_def btmap_ok_iff)
  have e: "snd x \<in> V \<and> sender (snd x) = fst x" if "x \<in> set layer" for x
    using that assms map_of_is_SomeI [OF d, of "fst x" "snd x"] by (simp add: layer_ok_def)
  show "set (bm_values layer) \<subseteq> V" using e by auto
  show "inj_on sender (set (bm_values layer))"
  proof (rule inj_onI)
    fix m n assume "m \<in> set (bm_values layer)" "n \<in> set (bm_values layer)" "sender m = sender n"
    then obtain x y where "x \<in> set layer" "y \<in> set layer" "m = snd x" "n = snd y" "fst x = fst y"
      using e by auto
    then show "m = n" using d by (metis eq_key_imp_eq_value prod.collapse)
  qed
  have "sender ` set (bm_values layer) = (\<lambda>x. sender (snd x)) ` set layer" by (simp add: image_image)
  also have "\<dots> = fst ` set layer" using e by (intro image_cong) auto
  finally show "sender ` set (bm_values layer) = fst ` set layer" .
qed

subsection \<open>Support for a layer\<close>

text \<open>
  What the support map counts: \<open>seers\<close> are the senders of the parents of the justification \<open>j\<close>,
  outside the layer, that see the layer message \<open>n\<close> themselves or along their own unfinalized chain.
  A justification supports the layer fully when some layer message has seers, and each one that has
  is seen by exactly the bonded senders.
\<close>

definition sees ::
  "('m, 's) msg_map \<Rightarrow> ('m, 's) message btset \<Rightarrow> ('m, 's) message \<Rightarrow> ('m, 's) message \<Rightarrow> bool" where
  "sees mm F n p \<longleftrightarrow> (\<exists>chain. self_parents mm p F = Some chain
     \<and> (\<exists>m\<in>set (p # chain). msg_id n \<in> set (seen m)))"

definition seers ::
  "('m, 's) msg_map \<Rightarrow> ('m, 's) message btset \<Rightarrow> ('m, 's) message set \<Rightarrow> ('m, 's) message
   \<Rightarrow> ('m, 's) message \<Rightarrow> 's set" where
  "seers mm F L j n =
     sender ` {p. (\<exists>i\<in>set (parents j) - msg_id ` L. bm_get mm i = Some p) \<and> sees mm F n p}"

definition full_support ::
  "('m, 's) msg_map \<Rightarrow> ('m, 's) message btset \<Rightarrow> ('m, 's) message set \<Rightarrow> 's bonds
   \<Rightarrow> ('m, 's) message \<Rightarrow> bool" where
  "full_support mm F L bonds j \<longleftrightarrow>
     (\<exists>n\<in>L. seers mm F L j n \<noteq> {}) \<and>
     (\<forall>n\<in>L. seers mm F L j n = {} \<or> seers mm F L j n = fst ` set bonds)"

definition bonds_ok :: "'s::linorder bonds \<Rightarrow> bool" where
  "bonds_ok bonds \<longleftrightarrow> btmap_ok bonds \<and> list_all (\<lambda>v. 0 \<le> v) (bm_values bonds)"

definition stake_of :: "'s bonds \<Rightarrow> 's set \<Rightarrow> int" where
  "stake_of bonds S = (\<Sum>s\<in>S \<inter> fst ` set bonds. bm_get_or 0 bonds s)"

lemma bonds_nonneg: "bonds_ok bonds \<Longrightarrow> 0 \<le> bm_get_or 0 bonds s"
  by (auto simp: bonds_ok_def bm_get_or_def list_all_iff split: option.splits dest: map_of_SomeD)
    (metis imageI map_of_SomeD snd_conv)

lemma stake_of_mono: "bonds_ok bonds \<Longrightarrow> S \<subseteq> T \<Longrightarrow> stake_of bonds S \<le> stake_of bonds T"
  unfolding stake_of_def by (intro sum_mono2) (auto simp: bonds_nonneg)

lemma total_stake: "bonds_ok bonds \<Longrightarrow> sum_list (bm_values bonds) = stake_of bonds UNIV"
  by (simp add: stake_of_def bonds_ok_def btmap_ok_iff sum_list_map_of)

lemma parent_sees_iff: "parent_sees mm F (msg_id n) p = Some True \<longleftrightarrow> sees mm F n p"
  by (cases "self_parents mm p F") (simp_all add: parent_sees_def sees_def list_ex_iff)

lemma see_min_msg_set:
  assumes "see_min_msg mm F ids n = Some v"
  shows "btset_ok v \<and> set v = sender ` {p. (\<exists>i\<in>set ids. bm_get mm i = Some p) \<and> sees mm F n p}"
proof -
  let ?f = "\<lambda>p. map_option (Pair p) (parent_sees mm F (msg_id n) p)"
  from assms obtain bs where bs: "those (map ?f (msgs_at mm ids)) = Some bs"
      "v = bs_collect (map (sender \<circ> fst) (filter snd bs))"
    by (auto simp: see_min_msg_def split: Option.bind_splits)
  have "set v = sender ` {p \<in> set (msgs_at mm ids). parent_sees mm F (msg_id n) p = Some True}"
  proof (intro equalityI subsetI)
    fix s assume "s \<in> set v"
    then obtain p where p: "(p, True) \<in> set bs" "s = sender p" using bs(2) by auto
    then show "s \<in> sender ` {p \<in> set (msgs_at mm ids). parent_sees mm F (msg_id n) p = Some True}"
      using those_map_mem [OF bs(1) p(1)] by auto
  next
    fix s assume "s \<in> sender ` {p \<in> set (msgs_at mm ids). parent_sees mm F (msg_id n) p = Some True}"
    then obtain p where p: "p \<in> set (msgs_at mm ids)" "parent_sees mm F (msg_id n) p = Some True"
        "s = sender p" by auto
    then have "(p, True) \<in> set bs" using those_map_mem_conv [OF bs(1) p(1)] by auto
    then show "s \<in> set v" using bs(2) p(3) by force
  qed
  also have "\<dots> = sender ` {p. (\<exists>i\<in>set ids. bm_get mm i = Some p) \<and> sees mm F n p}"
    by (simp add: set_msgs_at parent_sees_iff)
  finally show ?thesis using bs(2) by simp
qed

lemma seen_by_map_entries:
  assumes "seen_by_map mm layer F j = Some sb" and "layer_ok V layer"
  shows "(s, v) \<in> set sb \<Longrightarrow> \<exists>n\<in>set (bm_values layer). sender n = s \<and> btset_ok v
      \<and> set v = seers mm F (set (bm_values layer)) j n \<and> v \<noteq> []"
    and "n \<in> set (bm_values layer) \<Longrightarrow> seers mm F (set (bm_values layer)) j n \<noteq> {} \<Longrightarrow>
      \<exists>v. (sender n, v) \<in> set sb \<and> btset_ok v \<and> set v = seers mm F (set (bm_values layer)) j n"
proof -
  let ?ids = "bs_diff (parents j) (map msg_id (bm_values layer))"
  let ?f = "\<lambda>(s, n). map_option (Pair s) (see_min_msg mm F ?ids n)"
  from assms(1) obtain es where es: "those (map ?f layer) = Some es"
      "sb = bm_collect (filter (\<lambda>(s, v). v \<noteq> []) es)"
    by (auto simp: seen_by_map_def split: Option.bind_splits)
  have ids: "set ?ids = set (parents j) - msg_id ` set (bm_values layer)" by auto
  have see: "btset_ok v \<and> set v = seers mm F (set (bm_values layer)) j n"
    if "see_min_msg mm F ?ids n = Some v" for n v
    using see_min_msg_set [OF that] unfolding ids seers_def .
  have d: "distinct (map fst layer)" using assms(2) by (simp add: layer_ok_def btmap_ok_iff)
  have key: "sender n = s" if "(s, n) \<in> set layer" for s n
    using that assms(2) map_of_is_SomeI [OF d that] by (auto simp: layer_ok_def)
  have "map fst es = map fst layer"
    using es(1) by (rule those_map_keys)
  then have "distinct (map fst (filter (\<lambda>(s, v). v \<noteq> []) es))"
    using d by (metis distinct_map_filter)
  then have set_sb: "set sb = {e \<in> set es. snd e \<noteq> []}"
    using es(2) by (simp add: set_bm_collect_distinct case_prod_beta)
  show "\<exists>n\<in>set (bm_values layer). sender n = s \<and> btset_ok v
      \<and> set v = seers mm F (set (bm_values layer)) j n \<and> v \<noteq> []" if "(s, v) \<in> set sb" for s v
  proof -
    from that set_sb have "(s, v) \<in> set es" "v \<noteq> []" by auto
    then obtain n where "(s, n) \<in> set layer" "see_min_msg mm F ?ids n = Some v"
      using those_map_mem [OF es(1)] by fastforce
    then show ?thesis using see key \<open>v \<noteq> []\<close> by force
  qed
  show "\<exists>v. (sender n, v) \<in> set sb \<and> btset_ok v \<and> set v = seers mm F (set (bm_values layer)) j n"
    if n: "n \<in> set (bm_values layer)" and ne: "seers mm F (set (bm_values layer)) j n \<noteq> {}"
  proof -
    from n obtain s where s: "(s, n) \<in> set layer" by auto
    then obtain v where v: "(s, v) \<in> set es" "see_min_msg mm F ?ids n = Some v"
      using those_map_mem_conv [OF es(1) s] by auto
    have "v \<noteq> []" using see [OF v(2)] ne by auto
    then have "(sender n, v) \<in> set sb" using v(1) key [OF s] set_sb by simp
    then show ?thesis using see [OF v(2)] by blast
  qed
qed

lemma all_bonded_full_support:
  assumes "seen_by_map mm layer F j = Some sb" and "layer_ok V layer" and "btmap_ok bonds"
  shows "all_bonded bonds sb \<longleftrightarrow> full_support mm F (set (bm_values layer)) bonds j"
proof -
  note sb = seen_by_map_entries [OF assms(1,2)]
  have keys: "v = bm_keys bonds \<longleftrightarrow> set v = fst ` set bonds" if "btset_ok v" for v
    using btset_eqI [OF that btmap_ok_keys [OF assms(3)]] by (metis set_map)
  show ?thesis
  proof
    assume a: "all_bonded bonds sb"
    then obtain s v where "(s, v) \<in> set sb" by (cases sb) (auto simp: all_bonded_def)
    from sb(1) [OF this] obtain n where n: "n \<in> set (bm_values layer)"
        "seers mm F (set (bm_values layer)) j n \<noteq> {}" by (metis set_empty)
    have "seers mm F (set (bm_values layer)) j n = fst ` set bonds"
      if "n \<in> set (bm_values layer)" "seers mm F (set (bm_values layer)) j n \<noteq> {}" for n
    proof -
      from sb(2) [OF that] obtain v where v: "(sender n, v) \<in> set sb" "btset_ok v"
        "set v = seers mm F (set (bm_values layer)) j n" by blast
      from a v(1) have "v = bm_keys bonds" by (auto simp: all_bonded_def list_all_iff)
      then show ?thesis using v(3) by simp
    qed
    then show "full_support mm F (set (bm_values layer)) bonds j"
      unfolding full_support_def using n by blast
  next
    assume f: "full_support mm F (set (bm_values layer)) bonds j"
    then obtain n where n: "n \<in> set (bm_values layer)" "seers mm F (set (bm_values layer)) j n \<noteq> {}"
      unfolding full_support_def by blast
    then have "sb \<noteq> []" using sb(2) [OF n] by auto
    moreover have "v = bm_keys bonds" if e: "e \<in> set sb" "v = snd e" for e v
    proof -
      have "(fst e, v) \<in> set sb" using e by simp
      from sb(1) [OF this] obtain n where n: "n \<in> set (bm_values layer)" "btset_ok v"
        "set v = seers mm F (set (bm_values layer)) j n" "v \<noteq> []" by blast
      then have "set v = fst ` set bonds" using f unfolding full_support_def by (metis set_empty)
      then show ?thesis using keys [OF n(2)] by simp
    qed
    ultimately show "all_bonded bonds sb" by (auto simp: all_bonded_def list_all_iff)
  qed
qed

text \<open>The stake that counts is held by senders of fully supporting justifications.\<close>

definition supporters ::
  "('m, 's) msg_map \<Rightarrow> ('m, 's) message btset \<Rightarrow> ('m, 's) message set \<Rightarrow> 's bonds
   \<Rightarrow> ('m, 's) message set \<Rightarrow> 's set" where
  "supporters mm F L bonds J = sender ` {j \<in> J. full_support mm F L bonds j}"

lemma full_partition_stake_le:
  assumes "calculate_next_fringe_support_map mm J layer F = Some sm" and "layer_ok V layer"
    and "bonds_ok bonds"
  shows "full_partition_stake sm bonds
    \<le> stake_of bonds (supporters mm F (set (bm_values layer)) bonds (set J))"
proof -
  let ?S = "supporters mm F (set (bm_values layer)) bonds (set J)"
  let ?f = "\<lambda>j. map_option (Pair (sender j)) (seen_by_map mm layer F j)"
  from assms(1) obtain es where es: "those (map ?f J) = Some es"
      "sm = bm_collect (filter (\<lambda>(s, seen_by). seen_by \<noteq> []) es)"
    by (auto simp: calculate_next_fringe_support_map_def split: Option.bind_splits)
  have d: "distinct (map fst sm)"
    unfolding es(2) using btmap_ok_collect btmap_ok_iff by blast
  have sup: "s \<in> ?S" if e: "(s, sb) \<in> set sm" and ab: "all_bonded bonds sb" for s sb
  proof -
    have "map_of sm s = Some sb" by (rule map_of_is_SomeI [OF d e])
    then have "(s, sb) \<in> set es" unfolding es(2) bm_get_collect by (auto dest!: map_of_SomeD)
    from those_map_mem [OF es(1) this] obtain j where j: "j \<in> set J" "seen_by_map mm layer F j = Some sb"
      "sender j = s" by auto
    then show ?thesis
      using all_bonded_full_support [OF j(2) assms(2)] ab assms(3)
      by (auto simp: supporters_def bonds_ok_def)
  qed
  let ?A = "{s. \<exists>sb. (s, sb) \<in> set sm \<and> all_bonded bonds sb}"
  have "full_partition_stake sm bonds = (\<Sum>s\<in>?A. bm_get_or 0 bonds s)"
    unfolding full_partition_stake_def using d by (rule sum_list_filter_keys)
  also have "\<dots> = (\<Sum>s\<in>?A \<inter> fst ` set bonds. bm_get_or 0 bonds s)"
  proof (rule sum.mono_neutral_right)
    have "?A \<subseteq> fst ` set sm" by force
    then show "finite ?A" by (rule finite_subset) simp
    show "\<forall>s\<in>?A - ?A \<inter> fst ` set bonds. bm_get_or 0 bonds s = 0"
      by (auto intro!: bm_get_or_absent)
  qed simp
  also have "\<dots> \<le> stake_of bonds ?S"
    unfolding stake_of_def using sup bonds_nonneg [OF assms(3)] by (intro sum_mono2) auto
  finally show ?thesis .
qed

section \<open>Quorums\<close>

text \<open>What a finality threshold promises its clients: growing a quorum keeps it one, two quorums meet.\<close>

locale quorum_system =
  fixes quorum :: "'b \<Rightarrow> 's set \<Rightarrow> bool"
  assumes quorum_upward: "quorum b S \<Longrightarrow> S \<subseteq> T \<Longrightarrow> quorum b T"
    and quorum_meet: "quorum b S \<Longrightarrow> quorum b T \<Longrightarrow> S \<inter> T \<noteq> {}"
begin

lemma quorum_nonempty: "quorum b S \<Longrightarrow> S \<noteq> {}"
  using quorum_meet [of b S S] by simp

lemma quorum_blocks_rest: "quorum b S \<Longrightarrow> \<not> quorum b (- S)"
  using quorum_meet [of b S "- S"] by auto

lemma common_voter:
  "quorum b {v. votes v x} \<Longrightarrow> quorum b {v. votes v y} \<Longrightarrow> \<exists>v. votes v x \<and> votes v y"
  using quorum_meet by fastforce

lemma agreement:
  assumes "\<And>v x y. votes v x \<Longrightarrow> votes v y \<Longrightarrow> x = y"
    and "quorum b {v. votes v x}" "quorum b {v. votes v y}"
  shows "x = y"
  using common_voter [OF assms(2,3)] assms(1) by blast

end

definition bonded_quorum :: "'s::linorder bonds \<Rightarrow> 's set \<Rightarrow> bool" where
  "bonded_quorum bonds S \<longleftrightarrow>
     bonds_ok bonds \<and> is_super_majority (stake_of bonds S) (sum_list (bm_values bonds))"

lemma stake_of_Int_Un:
  "stake_of bonds (S \<inter> T) + stake_of bonds (S \<union> T) = stake_of bonds S + stake_of bonds T"
proof -
  let ?D = "fst ` set bonds"
  have "stake_of bonds S + stake_of bonds T
      = stake_of bonds ((S \<inter> ?D) \<union> (T \<inter> ?D)) + stake_of bonds ((S \<inter> ?D) \<inter> (T \<inter> ?D))"
    unfolding stake_of_def
    using sum.union_inter [of "S \<inter> ?D" "T \<inter> ?D" "bm_get_or 0 bonds"]
    by (simp add: Int_Un_distrib2 inf_assoc inf_left_commute)
  moreover have "stake_of bonds (X \<inter> ?D) = stake_of bonds X" for X
    by (simp add: stake_of_def inf_assoc)
  ultimately show ?thesis
    by (metis (no_types, lifting) Int_Un_distrib2 add.commute inf_assoc inf_commute inf_left_idem)
qed

lemma quorum_overlap:
  assumes "bonded_quorum bonds S" "bonded_quorum bonds T"
  shows "sum_list (bm_values bonds) < 3 * stake_of bonds (S \<inter> T)"
proof -
  have "stake_of bonds (S \<union> T) \<le> stake_of bonds UNIV"
    using assms by (intro stake_of_mono) (auto simp: bonded_quorum_def)
  then show ?thesis
    using assms stake_of_Int_Un [of bonds S T] total_stake [of bonds]
    by (auto simp: bonded_quorum_def is_super_majority_def)
qed

interpretation supermajority: quorum_system bonded_quorum
proof
  fix b :: "'s::linorder bonds" and S T
  assume q: "bonded_quorum b S"
  show "bonded_quorum b T" if "S \<subseteq> T"
    using q stake_of_mono [OF _ that, of b] by (auto simp: bonded_quorum_def is_super_majority_def)
  assume t: "bonded_quorum b T"
  have "0 \<le> sum_list (bm_values b)"
    using q total_stake [of b] stake_of_mono [of b "{}" UNIV]
    by (simp add: bonded_quorum_def) (simp add: stake_of_def)
  then show "S \<inter> T \<noteq> {}" using quorum_overlap [OF q t] by (auto simp: stake_of_def)
qed

section \<open>Certified fringes\<close>

definition fringe_certified ::
  "('m, 's::linorder) msg_map \<Rightarrow> ('m, 's) message btset \<Rightarrow> 's bonds \<Rightarrow> ('m, 's) message btset
   \<Rightarrow> ('m, 's) message btset \<Rightarrow> bool" where
  "fringe_certified mm J bonds F nf \<longleftrightarrow>
     set nf \<subseteq> view mm (set J) \<and> inj_on sender (set nf) \<and> sender ` set nf = sender ` set J
   \<and> bonded_quorum bonds (supporters mm F (set nf) bonds (set J))"

lemma next_fringe_certified:
  assumes "next_fringe mm J bonds F = Some (Some nf)" and "bonds_ok bonds"
  shows "fringe_certified mm J bonds F nf"
proof -
  from assms(1) obtain ms where ms: "those (map (min_message mm F) J) = Some ms"
      "check_min_messages ms bonds"
    by (auto simp: next_fringe_def split: Option.bind_splits if_splits)
  let ?L = "calculate_next_layer mm ms"
  from assms(1) ms obtain sm where sm: "calculate_next_fringe_support_map mm J ?L F = Some sm"
      "calculate_fringe sm bonds" "nf = bs_collect (bm_values ?L)"
    by (auto simp: next_fringe_def Let_def split: Option.bind_splits if_splits)
  have mem: "m \<in> view mm (set J) \<and> sender m \<in> sender ` set J" if "m \<in> set ms" for m
    using those_map_mem [OF ms(1) that] min_message_view by fastforce
  have senders: "sender ` set ms = sender ` set J"
  proof
    have "\<exists>m\<in>set ms. sender m = sender j" if "j \<in> set J" for j
      using those_map_mem_conv [OF ms(1) that] min_message_view [OF _ that, of mm F] by blast
    then show "sender ` set J \<subseteq> sender ` set ms" by (metis image_eqI image_subsetI)
  qed (use mem in auto)
  have ok: "layer_ok (view mm (set J)) ?L" by (rule calculate_next_layer_ok) (use mem in auto)
  have "full_partition_stake sm bonds \<le> stake_of bonds (supporters mm F (set nf) bonds (set J))"
    using full_partition_stake_le [OF sm(1) ok assms(2)] sm(3) by simp
  then have "bonded_quorum bonds (supporters mm F (set nf) bonds (set J))"
    using sm(2) assms(2) by (auto simp: bonded_quorum_def calculate_fringe_def is_super_majority_def)
  then show ?thesis
    unfolding fringe_certified_def using layer_values [OF ok] sm(3) senders
    by (simp add: calculate_next_layer_keys)
qed

lemma finalization_loop_result:
  assumes "finalization_loop mm J bonds F0 r0 = Some (Some nf)"
  shows "r0 = Some nf \<or> (\<exists>F. next_fringe mm J bonds F = Some (Some nf))"
proof -
  have "\<forall>nf. r = Some nf \<longrightarrow> r0 = Some nf \<or> (\<exists>F. next_fringe mm J bonds F = Some (Some nf))"
    if "finalization_loop mm J bonds F0 r0 = Some r" for r
    using that
  proof (rule finalization_loop.raw_induct [rotated], intro allI impI)
    fix loop and mm :: "('a, 'b) msg_map" and J bonds F0 r0 r nf
    assume IH: "\<And>mm J bonds F0 r0 r. loop mm J bonds F0 r0 = Some r \<Longrightarrow>
        \<forall>nf. r = Some nf \<longrightarrow> r0 = Some nf \<or> (\<exists>F. next_fringe mm J bonds F = Some (Some nf))"
      and body: "Option.bind (next_fringe mm J bonds F0) (\<lambda>x. case x of None \<Rightarrow> Some r0
          | Some nf \<Rightarrow> if nf = F0 then Some r0 else loop mm J bonds nf (Some nf)) = Some r"
      and r: "r = Some nf"
    show "r0 = Some nf \<or> (\<exists>F. next_fringe mm J bonds F = Some (Some nf))"
      using body r IH [of mm J bonds] by (auto split: Option.bind_splits option.splits if_splits) blast
  qed
  then show ?thesis using assms by simp
qed

lemma finalized_fringe_certified:
  assumes "calculate_finalization mm J bonds = Some (pf, Some nf)" and "bonds_ok bonds"
  shows "\<exists>F. fringe_certified mm J bonds F nf"
proof -
  obtain F where "next_fringe mm J bonds F = Some (Some nf)"
    using assms(1) finalization_loop_result [of mm J bonds _ None nf]
    by (auto simp: calculate_finalization_def Let_def)
  from next_fringe_certified [OF this assms(2)] show ?thesis by blast
qed

subsection \<open>Returning\<close>

text \<open>Heights decrease along the known parents, so a walk along them ends.\<close>

definition parents_below :: "('m, 's) msg_map \<Rightarrow> ('m, 's) message \<Rightarrow> bool" where
  "parents_below mm m = list_all (\<lambda>p. 0 \<le> height p \<and> height p < height m) (msgs_at mm (parents m))"

definition heights_ok :: "('m, 's) msg_map \<Rightarrow> bool" where
  "heights_ok mm = list_all (parents_below mm) (bm_values mm)"

lemma heights_okD: "heights_ok mm \<Longrightarrow> p \<in> set (msgs_at mm ids) \<Longrightarrow> parents_below mm p"
  by (auto simp: heights_ok_def list_all_iff set_msgs_at dest!: map_of_SomeD)

lemma self_loop_returns:
  assumes "heights_ok mm" and "parents_below mm m"
  shows "\<exists>chain. self_loop mm s F m = Some chain"
  using assms(2)
proof (induction "nat (height m)" arbitrary: m rule: less_induct)
  case less
  show ?case
  proof (cases "self_next mm s F m = []")
    case False
    let ?x = "last (self_next mm s F m)"
    have "?x \<in> set (self_next mm s F m)" using False by simp
    then have x: "?x \<in> set (msgs_at mm (parents m))" unfolding set_self_next by blast
    then have "0 \<le> height ?x" "height ?x < height m"
      using less.prems by (auto simp: parents_below_def list_all_iff)
    then have "nat (height ?x) < nat (height m)" by simp
    then obtain c where "self_loop mm s F ?x = Some c"
      using less.hyps [of ?x] heights_okD [OF assms(1) x] by blast
    then show ?thesis using False by (subst self_loop.simps) (simp add: Let_def)
  qed (subst self_loop.simps, simp)
qed

lemma seen_by_map_returns:
  assumes "heights_ok mm" shows "\<exists>sb. seen_by_map mm layer F j = Some sb"
proof -
  have p: "parent_sees mm F i p \<noteq> None" if "p \<in> set (msgs_at mm ids)" for i p ids
    using self_loop_returns [OF assms heights_okD [OF assms that], of "sender p" F]
    by (auto simp: parent_sees_def self_parents_def)
  have see: "see_min_msg mm F ids n \<noteq> None" for ids n
  proof -
    obtain bs where "those (map (\<lambda>p. map_option (Pair p) (parent_sees mm F (msg_id n) p))
        (msgs_at mm ids)) = Some bs"
      using those_map_defined [of "msgs_at mm ids"
          "\<lambda>p. map_option (Pair p) (parent_sees mm F (msg_id n) p)"] p by auto
    then show ?thesis by (simp add: see_min_msg_def)
  qed
  let ?f = "\<lambda>(s, n). map_option (Pair s) (see_min_msg mm F
      (bs_diff (parents j) (map msg_id (bm_values layer))) n)"
  obtain es where "those (map ?f layer) = Some es"
    using those_map_defined [of layer ?f] see by auto
  then show ?thesis by (simp add: seen_by_map_def)
qed

lemma next_fringe_returns:
  assumes "heights_ok mm" and "\<forall>j\<in>set J. parents_below mm j"
  shows "\<exists>r. next_fringe mm J bonds F = Some r"
proof -
  have "min_message mm F j \<noteq> None" if "j \<in> set J" for j
    using self_loop_returns [OF assms(1), of j "sender j" F] assms(2) that
    by (auto simp: min_message_def self_parents_def)
  then obtain ms where ms: "those (map (min_message mm F) J) = Some ms"
    using those_map_defined [of J "min_message mm F"] by blast
  let ?g = "\<lambda>j. map_option (Pair (sender j)) (seen_by_map mm (calculate_next_layer mm ms) F j)"
  have "?g j \<noteq> None" for j
    using seen_by_map_returns [OF assms(1), of "calculate_next_layer mm ms" F j] by auto
  then obtain es where "those (map ?g J) = Some es"
    using those_map_defined [of J ?g] by blast
  then show ?thesis
    using ms by (simp add: next_fringe_def calculate_next_fringe_support_map_def Let_def)
qed

section \<open>Properties\<close>

text \<open>
  C4: a newly finalized fringe has one message per justification sender, all of them reachable from
  the justifications, and strictly more than two thirds of the bonded stake belongs to senders whose
  justification supports it fully.
\<close>

theorem finalization_certified:
  assumes "calculate_finalization mm J bonds = Some (pf, Some nf)" and "bonds_ok bonds"
  shows "\<exists>F. set nf \<subseteq> view mm (set J) \<and> inj_on sender (set nf) \<and> sender ` set nf = sender ` set J
    \<and> 3 * stake_of bonds (supporters mm F (set nf) bonds (set J)) > 2 * sum_list (bm_values bonds)"
proof -
  obtain F where "fringe_certified mm J bonds F nf" using finalized_fringe_certified [OF assms] by blast
  then show ?thesis
    by (intro exI [of _ F]) (simp add: fringe_certified_def bonded_quorum_def is_super_majority_def)
qed

text \<open>
  C10: two fringes finalized under the same bonds, by any two nodes from any two message maps, are both
  fully supported by validators that hold more than a third of the stake.
\<close>

theorem finalized_fringes_share_supporters:
  assumes "calculate_finalization mm1 J1 bonds = Some (pf1, Some nf1)"
    and "calculate_finalization mm2 J2 bonds = Some (pf2, Some nf2)" and "bonds_ok bonds"
  shows "\<exists>F1 F2. let common = supporters mm1 F1 (set nf1) bonds (set J1)
                            \<inter> supporters mm2 F2 (set nf2) bonds (set J2)
         in common \<noteq> {} \<and> 3 * stake_of bonds common > sum_list (bm_values bonds)"
proof -
  obtain F1 where 1: "bonded_quorum bonds (supporters mm1 F1 (set nf1) bonds (set J1))"
    using finalized_fringe_certified [OF assms(1,3)] unfolding fringe_certified_def by blast
  obtain F2 where 2: "bonded_quorum bonds (supporters mm2 F2 (set nf2) bonds (set J2))"
    using finalized_fringe_certified [OF assms(2,3)] unfolding fringe_certified_def by blast
  show ?thesis
    using supermajority.quorum_meet [OF 1 2] quorum_overlap [OF 1 2] unfolding Let_def by blast
qed

text \<open>
  C27: one round of the fringe search always answers when heights decrease along parents: the walk
  along a sender's own chain ends at every message.
\<close>

theorem next_fringe_total:
  assumes "heights_ok mm" and "\<forall>j\<in>set J. parents_below mm j"
  shows "\<exists>r. next_fringe mm J bonds F = Some r"
  by (rule next_fringe_returns [OF assms])

section \<open>Witnesses\<close>

text \<open>
  Three bonded senders above a genesis message: three concurrent messages 10, 11, 12, and two layers
  that each see the whole layer below.
\<close>

definition ex_msg :: "nat \<Rightarrow> nat \<Rightarrow> int \<Rightarrow> nat list \<Rightarrow> nat list \<Rightarrow> (nat, nat) message" where
  "ex_msg i s q ps sn = Message i q s q [] ps [] sn"

definition ex_mm :: "(nat, nat) msg_map" where
  "ex_mm = map (\<lambda>m. (msg_id m, m))
    [ex_msg 10 0 1 [99] [10, 99], ex_msg 11 1 1 [99] [11, 99], ex_msg 12 2 1 [99] [12, 99],
     ex_msg 20 0 2 [10, 11, 12] [10, 11, 12, 20, 99], ex_msg 21 1 2 [10, 11, 12] [10, 11, 12, 21, 99],
     ex_msg 22 2 2 [10, 11, 12] [10, 11, 12, 22, 99],
     ex_msg 30 0 3 [20, 21, 22] [10, 11, 12, 20, 21, 22, 30, 99],
     ex_msg 31 1 3 [20, 21, 22] [10, 11, 12, 20, 21, 22, 31, 99],
     ex_msg 32 2 3 [20, 21, 22] [10, 11, 12, 20, 21, 22, 32, 99],
     ex_msg 99 99 0 [] [99]]"

definition ex_tips :: "(nat, nat) message btset" where
  "ex_tips = msgs_at ex_mm [30, 31, 32]"

definition ex_bonds :: "nat bonds" where "ex_bonds = [(0, 10), (1, 10), (2, 10)]"

lemma ex_finalization:
  "calculate_finalization ex_mm ex_tips ex_bonds = Some ([], Some (msgs_at ex_mm [10, 11, 12]))"
  by code_simp

lemma ex_bonds_ok: "bonds_ok ex_bonds"
  by code_simp

theorem finalization_certified_witness:
  "bonds_ok ex_bonds \<and>
   calculate_finalization ex_mm ex_tips ex_bonds = Some ([], Some (msgs_at ex_mm [10, 11, 12])) \<and>
   (\<exists>F. 3 * stake_of ex_bonds (supporters ex_mm F (set (msgs_at ex_mm [10, 11, 12])) ex_bonds
      (set ex_tips)) > 60)"
proof -
  have "sum_list (bm_values ex_bonds) = 30" by code_simp
  then show ?thesis
    using ex_bonds_ok ex_finalization finalization_certified [OF ex_finalization ex_bonds_ok] by auto
qed

theorem finalized_fringes_share_supporters_witness:
  "bonds_ok ex_bonds \<and>
   calculate_finalization ex_mm ex_tips ex_bonds = Some ([], Some (msgs_at ex_mm [10, 11, 12])) \<and>
   (\<exists>F1 F2. supporters ex_mm F1 (set (msgs_at ex_mm [10, 11, 12])) ex_bonds (set ex_tips)
     \<inter> supporters ex_mm F2 (set (msgs_at ex_mm [10, 11, 12])) ex_bonds (set ex_tips) \<noteq> {})"
  using ex_bonds_ok ex_finalization
    finalized_fringes_share_supporters [OF ex_finalization ex_finalization ex_bonds_ok]
  unfolding Let_def by blast

theorem next_fringe_total_witness:
  "heights_ok ex_mm \<and> list_all (parents_below ex_mm) ex_tips
   \<and> (\<exists>r. next_fringe ex_mm ex_tips ex_bonds [] = Some r)"
proof -
  have h: "heights_ok ex_mm" by code_simp
  have l: "list_all (parents_below ex_mm) ex_tips" by code_simp
  then have j: "\<forall>j\<in>set ex_tips. parents_below ex_mm j" by (simp add: list_all_iff)
  show ?thesis using h l next_fringe_total [OF h j] by blast
qed

end
