(* ===== verification/Message_State.thy ===== *)
theory Message_State
  imports Finalizer
begin

text \<open>
  The per-network message state (\<^verbatim>\<open>block-storage/src/dag/message_state.rs\<close>): the map of all messages
  and the latest message of each sender. The invariant ties the cached \<open>seen\<close> sets, the fringes and
  the heights of the messages to the parents they name.
\<close>

section \<open>Definitions\<close>

record ('m, 's) dag_message_state =
  latest_msgs :: "('s, ('m, 's) message) btmap"
  msg_map :: "('m, 's) msg_map"

datatype storage_error = EmptyLatestMessages

definition empty_state :: "('m, 's) dag_message_state" where
  "empty_state = \<lparr>latest_msgs = [], msg_map = []\<rparr>"

definition create_message ::
  "('m::linorder, 's::linorder) dag_message_state \<Rightarrow> 'm \<Rightarrow> block_height \<Rightarrow> 's \<Rightarrow> seq_num \<Rightarrow> 's bonds
   \<Rightarrow> ('m, 's) message btset \<Rightarrow> ('m, 's) message option" where
  "create_message st i h s q fin_bonds_map justifications = do {
     (parent_fringe, new_fringe_opt) \<leftarrow>
       calculate_finalization (msg_map st) justifications fin_bonds_map;
     let new_fringe = (case new_fringe_opt of None \<Rightarrow> parent_fringe | Some nf \<Rightarrow> nf);
     let new_seen = bs_insert i (bs_collect (concat (map seen justifications)));
     Some (Message i h s q fin_bonds_map (bs_collect (map msg_id justifications))
       (bs_collect (map msg_id new_fringe)) new_seen) }"

definition promote_latest ::
  "('m, 's::linorder) message \<Rightarrow> ('s, ('m, 's) message) btmap \<Rightarrow> ('s, ('m, 's) message) btmap" where
  "promote_latest msg latest =
     (if (case bm_get latest (sender msg) of None \<Rightarrow> True | Some cur \<Rightarrow> sender_seq msg > sender_seq cur)
      then bm_insert (sender msg) msg latest else latest)"

definition insert_msg ::
  "('m::linorder, 's::linorder) dag_message_state \<Rightarrow> ('m, 's) message \<Rightarrow> ('m, 's) dag_message_state" where
  "insert_msg st msg =
     (if bm_get (msg_map st) (msg_id msg) \<noteq> None then st
      else \<lparr>latest_msgs = promote_latest msg (latest_msgs st),
            msg_map = bm_insert (msg_id msg) msg (msg_map st)\<rparr>)"

definition insert_msg_without_latest ::
  "('m::linorder, 's::linorder) dag_message_state \<Rightarrow> ('m, 's) message \<Rightarrow> ('m, 's) dag_message_state" where
  "insert_msg_without_latest st msg =
     (if bm_get (msg_map st) (msg_id msg) \<noteq> None then st
      else st\<lparr>msg_map := bm_insert (msg_id msg) msg (msg_map st)\<rparr>)"

definition create_msg_and_update_sender ::
  "('m::linorder, 's::linorder) dag_message_state \<Rightarrow> 's \<Rightarrow> ('s \<Rightarrow> block_height \<Rightarrow> 'm)
   \<Rightarrow> (storage_error + ('m, 's) dag_message_state \<times> ('m, 's) message) option" where
  "create_msg_and_update_sender st creator gen_msg_id =
     (case last_max_by id (map height (bm_values (latest_msgs st))) of
        None \<Rightarrow> Some (Inl EmptyLatestMessages)
      | Some max_height \<Rightarrow> do {
          let new_height = block_height_add max_height nonneg_one;
          let new_seq_num = seq_num_add
            (case bm_get (latest_msgs st) creator of None \<Rightarrow> seq_num_zero | Some m \<Rightarrow> sender_seq m)
            nonneg_one;
          let justifications = bs_collect (bm_values (latest_msgs st));
          let bonds = bonds_map (hd (bm_values (latest_msgs st)));
          new_msg \<leftarrow> create_message st (gen_msg_id creator new_height) new_height creator new_seq_num
            bonds justifications;
          Some (Inr (insert_msg st new_msg, new_msg)) })"

definition state_latest_fringe ::
  "('m::linorder, 's::linorder) dag_message_state \<Rightarrow> ('m, 's) message btset" where
  "state_latest_fringe st = latest_fringe (msg_map st) (bs_collect (bm_values (latest_msgs st)))"

section \<open>The invariant\<close>

text \<open>
  A message is sound in a map when its parents are known, older and seen as far as it sees, it sees
  itself and the whole of its fringe, and everything it sees is known.
\<close>

definition msg_ok :: "('m, 's) msg_map \<Rightarrow> ('m, 's) message \<Rightarrow> bool" where
  "msg_ok mm m \<longleftrightarrow> msg_id m \<in> set (seen m) \<and> set (fringe m) \<subseteq> set (seen m)
     \<and> (\<forall>p\<in>set (parents m). \<exists>x. bm_get mm p = Some x \<and> 0 \<le> height x \<and> height x < height m
          \<and> set (seen x) \<subseteq> set (seen m))
     \<and> set (seen m) \<subseteq> insert (msg_id m) (fst ` set mm)"

definition state_ok :: "('m::linorder, 's::linorder) dag_message_state \<Rightarrow> bool" where
  "state_ok st \<longleftrightarrow> btmap_ok (msg_map st) \<and> btmap_ok (latest_msgs st)
     \<and> (\<forall>i m. bm_get (msg_map st) i = Some m \<longrightarrow>
          msg_id m = i \<and> 0 \<le> height m \<and> bonds_ok (bonds_map m) \<and> msg_ok (msg_map st) m)
     \<and> (\<forall>s m. bm_get (latest_msgs st) s = Some m \<longrightarrow> sender m = s \<and> bm_get (msg_map st) (msg_id m) = Some m)"

lemma state_ok_empty [simp]: "state_ok empty_state"
  by (simp add: state_ok_def empty_state_def)

lemma msg_ok_parent:
  assumes "msg_ok mm m" and "i \<in> set (parents m)" and "bm_get mm i = Some p"
  shows "0 \<le> height p \<and> height p < height m \<and> set (seen p) \<subseteq> set (seen m)"
proof -
  obtain x where "bm_get mm i = Some x" "0 \<le> height x" "height x < height m" "set (seen x) \<subseteq> set (seen m)"
    using assms(1,2) unfolding msg_ok_def by blast
  then show ?thesis using assms(3) by simp
qed

lemma msg_ok_insert:
  assumes "msg_ok mm m" and "bm_get mm i = None"
  shows "msg_ok (bm_insert i x mm) m"
proof -
  have "\<exists>y. bm_get (bm_insert i x mm) p = Some y \<and> 0 \<le> height y \<and> height y < height m
      \<and> set (seen y) \<subseteq> set (seen m)" if "p \<in> set (parents m)" for p
    using that assms by (auto simp: msg_ok_def)
  then show ?thesis using assms(1) by (auto simp: msg_ok_def)
qed

lemma promote_latest_get:
  assumes "bm_get (promote_latest msg latest) s = Some m"
  shows "(m = msg \<and> s = sender msg) \<or> bm_get latest s = Some m"
  using assms by (auto simp: promote_latest_def split: if_splits)

lemma btmap_ok_promote [simp]: "btmap_ok latest \<Longrightarrow> btmap_ok (promote_latest msg latest)"
  by (simp add: promote_latest_def)

lemma insert_msg_without_latest_ok:
  assumes "state_ok st" and "msg_ok (msg_map st) msg" and "0 \<le> height msg"
    and "bonds_ok (bonds_map msg)"
  shows "state_ok (insert_msg_without_latest st msg)"
  using assms by (auto simp: state_ok_def insert_msg_without_latest_def msg_ok_insert)
    (metis option.distinct(1))

lemma insert_msg_ok:
  assumes "state_ok st" and "msg_ok (msg_map st) msg" and "0 \<le> height msg"
    and "bonds_ok (bonds_map msg)"
  shows "state_ok (insert_msg st msg)"
proof (cases "bm_get (msg_map st) (msg_id msg)")
  case None
  then have m: "msg_map (insert_msg st msg) = bm_insert (msg_id msg) msg (msg_map st)"
    and l: "latest_msgs (insert_msg st msg) = promote_latest msg (latest_msgs st)"
    by (simp_all add: insert_msg_def)
  show ?thesis
    unfolding state_ok_def m l
  proof (intro conjI allI impI)
    fix i x assume "bm_get (bm_insert (msg_id msg) msg (msg_map st)) i = Some x"
    then have "x = msg \<and> i = msg_id msg \<or> bm_get (msg_map st) i = Some x" by (auto split: if_splits)
    then show "msg_id x = i" "0 \<le> height x" "bonds_ok (bonds_map x)" "msg_ok (bm_insert (msg_id msg) msg (msg_map st)) x"
      using assms None by (auto simp: state_ok_def msg_ok_insert)
  next
    fix s x assume "bm_get (promote_latest msg (latest_msgs st)) s = Some x"
    then have "x = msg \<and> s = sender msg \<or> bm_get (latest_msgs st) s = Some x"
      by (rule promote_latest_get)
    moreover have "sender x = s \<and> bm_get (msg_map st) (msg_id x) = Some x \<and> msg_id x \<noteq> msg_id msg"
      if "bm_get (latest_msgs st) s = Some x"
    proof -
      from that have "sender x = s" and x: "bm_get (msg_map st) (msg_id x) = Some x"
        using assms(1) by (auto simp: state_ok_def)
      then show ?thesis using None x by (cases "msg_id x = msg_id msg") auto
    qed
    ultimately have "x = msg \<and> s = sender msg \<or>
        sender x = s \<and> bm_get (msg_map st) (msg_id x) = Some x \<and> msg_id x \<noteq> msg_id msg" by blast
    then show "sender x = s" "bm_get (bm_insert (msg_id msg) msg (msg_map st)) (msg_id x) = Some x"
      by auto
  qed (use assms(1) in \<open>auto simp: state_ok_def\<close>)
qed (use assms(1) in \<open>simp add: insert_msg_def\<close>)

subsection \<open>Created messages\<close>

text \<open>Everything reachable from known justifications is among what the justifications have seen.\<close>

lemma view_seen:
  assumes ok: "state_ok st" and J: "\<forall>j\<in>set J. bm_get (msg_map st) (msg_id j) = Some j"
    and "m \<in> view (msg_map st) (set J)"
  shows "bm_get (msg_map st) (msg_id m) = Some m \<and> (\<exists>j\<in>set J. set (seen m) \<subseteq> set (seen j))"
  using assms(3)
proof induction
  case (view_step m p)
  then obtain j where j: "j \<in> set J" "set (seen m) \<subseteq> set (seen j)" by blast
  have okm: "msg_ok (msg_map st) m" using view_step.IH ok by (auto simp: state_ok_def)
  obtain i where i: "i \<in> set (parents m)" "bm_get (msg_map st) i = Some p"
    using view_step.hyps(2) by (auto simp: set_msgs_at)
  have sub: "set (seen p) \<subseteq> set (seen m)" using msg_ok_parent [OF okm i] by simp
  have "msg_id p = i" using ok i(2) by (auto simp: state_ok_def)
  then show ?case using i(2) j sub by (intro conjI bexI [of _ j]) auto
qed (use J in auto)

lemma calculate_finalization_seen:
  assumes ok: "state_ok st" and J: "\<forall>j\<in>set J. bm_get (msg_map st) (msg_id j) = Some j"
    and fin: "calculate_finalization (msg_map st) J bonds = Some (pf, r)" and "bonds_ok bonds"
    and m: "m \<in> set (case r of None \<Rightarrow> pf | Some nf \<Rightarrow> nf)"
  shows "\<exists>j\<in>set J. msg_id m \<in> set (seen j)"
proof (cases r)
  case (Some nf)
  obtain F where "fringe_certified (msg_map st) J bonds F nf"
    using finalized_fringe_certified [OF fin [unfolded Some] assms(4)] by blast
  then have "m \<in> view (msg_map st) (set J)" using m Some by (auto simp: fringe_certified_def)
  from view_seen [OF ok J this] obtain j where
    j: "bm_get (msg_map st) (msg_id m) = Some m" "j \<in> set J" "set (seen m) \<subseteq> set (seen j)" by blast
  from ok j(1) have "msg_ok (msg_map st) m" by (auto simp: state_ok_def)
  then have "msg_id m \<in> set (seen m)" by (simp add: msg_ok_def)
  then show ?thesis using j by blast
next
  case None
  have "pf = latest_fringe (msg_map st) J"
    using fin by (auto simp: calculate_finalization_def Let_def)
  then obtain j where j: "last_max_by (fringe_height (msg_map st)) J = Some j"
      "m \<in> set (msgs_at (msg_map st) (fringe j))"
    using m None by (auto simp: latest_fringe_def split: option.splits)
  have "j \<in> set J" using last_max_by_SomeD [OF j(1)] by simp
  moreover from j(2) have "msg_id m \<in> set (fringe j)"
    using ok by (auto simp: set_msgs_at state_ok_def)
  moreover from J \<open>j \<in> set J\<close> ok have "msg_ok (msg_map st) j" by (auto simp: state_ok_def)
  then have "set (fringe j) \<subseteq> set (seen j)" by (simp add: msg_ok_def)
  ultimately show ?thesis by blast
qed

lemma create_message_fields:
  assumes "create_message st i h s q bonds J = Some m"
  shows "msg_id m = i \<and> height m = h \<and> sender m = s \<and> sender_seq m = q \<and> bonds_map m = bonds
    \<and> set (parents m) = msg_id ` set J \<and> set (seen m) = insert i (\<Union> (set ` seen ` set J))"
  using assms by (auto simp: create_message_def split: Option.bind_splits)

lemma create_message_ok:
  assumes ok: "state_ok st" and J: "\<forall>j\<in>set J. bm_get (msg_map st) (msg_id j) = Some j"
    and "bonds_ok bonds" and h: "\<forall>j\<in>set J. height j < h"
    and c: "create_message st i h s q bonds J = Some m"
  shows "msg_ok (msg_map st) m"
proof -
  note f = create_message_fields [OF c]
  from c obtain pf r where r: "calculate_finalization (msg_map st) J bonds = Some (pf, r)"
      "set (fringe m) = msg_id ` set (case r of None \<Rightarrow> pf | Some nf \<Rightarrow> nf)"
    by (auto simp: create_message_def split: Option.bind_splits)
  have "set (fringe m) \<subseteq> set (seen m)"
  proof
    fix x assume "x \<in> set (fringe m)"
    then obtain y where y: "y \<in> set (case r of None \<Rightarrow> pf | Some nf \<Rightarrow> nf)" "x = msg_id y"
      using r(2) by auto
    obtain j where "j \<in> set J" "msg_id y \<in> set (seen j)"
      using calculate_finalization_seen [OF ok J r(1) assms(3) y(1)] by blast
    then show "x \<in> set (seen m)" using f y(2) by blast
  qed
  moreover have "\<exists>x. bm_get (msg_map st) p = Some x \<and> 0 \<le> height x \<and> height x < height m
      \<and> set (seen x) \<subseteq> set (seen m)" if "p \<in> set (parents m)" for p
  proof -
    from that f obtain j where j: "j \<in> set J" "p = msg_id j" by auto
    then have "bm_get (msg_map st) p = Some j" "0 \<le> height j"
      using J ok by (auto simp: state_ok_def)
    moreover have "set (seen j) \<subseteq> set (seen m)" using f j(1) by blast
    ultimately show ?thesis using h f j(1) by auto
  qed
  moreover have "set (seen m) \<subseteq> insert (msg_id m) (fst ` set (msg_map st))"
  proof
    fix x assume "x \<in> set (seen m)"
    then consider "x = i" | j where "j \<in> set J" "x \<in> set (seen j)" using f by blast
    then show "x \<in> insert (msg_id m) (fst ` set (msg_map st))"
    proof cases
      case 2
      then have j: "bm_get (msg_map st) (msg_id j) = Some j" using J by simp
      then have "msg_ok (msg_map st) j" using ok by (auto simp: state_ok_def)
      then have "set (seen j) \<subseteq> insert (msg_id j) (fst ` set (msg_map st))" by (simp add: msg_ok_def)
      moreover have "msg_id j \<in> fst ` set (msg_map st)" using map_of_SomeD [OF j] by force
      ultimately show ?thesis using 2 by auto
    qed (use f in simp)
  qed
  ultimately show ?thesis using f by (simp add: msg_ok_def)
qed

subsection \<open>Reachable states\<close>

text \<open>
  The states a node goes through: it inserts a block's message, whose fringe was computed from
  justifications it knows, as a valid block, as a failed one, or as one it proposes itself.
\<close>

definition known :: "('m, 's) dag_message_state \<Rightarrow> ('m, 's) message btset \<Rightarrow> bool" where
  "known st J = list_all (\<lambda>j. bm_get (msg_map st) (msg_id j) = Some j) J"

inductive dag_reachable :: "('m::linorder, 's::linorder) dag_message_state \<Rightarrow> bool" where
  reach_empty: "dag_reachable empty_state"
| reach_insert: "dag_reachable st \<Longrightarrow> known st J \<Longrightarrow> bonds_ok bonds \<Longrightarrow> \<forall>j\<in>set J. height j < h \<Longrightarrow>
    0 \<le> h \<Longrightarrow> create_message st i h s q bonds J = Some m \<Longrightarrow> dag_reachable (insert_msg st m)"
| reach_failed: "dag_reachable st \<Longrightarrow> known st J \<Longrightarrow> bonds_ok bonds \<Longrightarrow> \<forall>j\<in>set J. height j < h \<Longrightarrow>
    0 \<le> h \<Longrightarrow> create_message st i h s q bonds J = Some m \<Longrightarrow>
    dag_reachable (insert_msg_without_latest st m)"
| reach_propose: "dag_reachable st \<Longrightarrow> \<forall>m\<in>set (bm_values (latest_msgs st)). height m < i64_MAX \<Longrightarrow>
    create_msg_and_update_sender st creator gen = Some (Inr (st', m)) \<Longrightarrow> dag_reachable st'"

lemma bm_value_get:
  assumes "btmap_ok m" and "v \<in> set (bm_values m)" shows "\<exists>k. bm_get m k = Some v"
proof -
  from assms(2) obtain k where "(k, v) \<in> set m" by auto
  then have "bm_get m k = Some v" using assms(1) by (auto simp: btmap_ok_iff)
  then show ?thesis by blast
qed

lemma latest_known:
  assumes "state_ok st" and "m \<in> set (bm_values (latest_msgs st))"
  shows "bm_get (msg_map st) (msg_id m) = Some m"
  using assms bm_value_get [of "latest_msgs st" m] by (auto simp: state_ok_def)

lemma create_msg_and_update_sender_ok:
  assumes ok: "state_ok st" and lim: "\<forall>m\<in>set (bm_values (latest_msgs st)). height m < i64_MAX"
    and c: "create_msg_and_update_sender st creator gen = Some (Inr (st', m))"
  shows "state_ok st' \<and> st' = insert_msg st m \<and> sender m = creator
    \<and> (\<forall>x\<in>set (bm_values (latest_msgs st)). height x < height m \<and> set (seen x) \<subseteq> set (seen m))
    \<and> sender_seq m = seq_num_add
        (case bm_get (latest_msgs st) creator of None \<Rightarrow> 0 | Some x \<Rightarrow> sender_seq x) 1"
proof -
  from c obtain mh where mh: "last_max_by id (map height (bm_values (latest_msgs st))) = Some mh"
    by (auto simp: create_msg_and_update_sender_def split: option.splits)
  let ?h = "block_height_add mh nonneg_one"
  let ?J = "bs_collect (bm_values (latest_msgs st))"
  let ?b = "bonds_map (hd (bm_values (latest_msgs st)))"
  let ?q = "seq_num_add (case bm_get (latest_msgs st) creator of None \<Rightarrow> seq_num_zero
      | Some x \<Rightarrow> sender_seq x) nonneg_one"
  from c mh have cm: "create_message st (gen creator ?h) ?h creator ?q ?b ?J = Some m"
    and st': "st' = insert_msg st m"
    by (auto simp: create_msg_and_update_sender_def Let_def split: Option.bind_splits)
  have max: "mh \<in> height ` set (bm_values (latest_msgs st))"
      "\<forall>x\<in>set (bm_values (latest_msgs st)). height x \<le> mh"
    using last_max_by_SomeD [OF mh] by auto
  then have "mh < i64_MAX" using lim by auto
  moreover have "0 \<le> mh"
    using max(1) latest_known [OF ok] ok by (auto simp: state_ok_def)
  ultimately have h: "?h = mh + 1"
    by (simp add: block_height_add_def nonneg_one_def saturating_add_i64_def i64_MAX_def i64_MIN_def)
  have ne: "bm_values (latest_msgs st) \<noteq> []" using max(1) by auto
  then have "hd (bm_values (latest_msgs st)) \<in> set (bm_values (latest_msgs st))"
    by (rule hd_in_set)
  then have b: "bonds_ok ?b" using latest_known [OF ok] ok by (auto simp: state_ok_def)
  have J: "\<forall>j\<in>set ?J. bm_get (msg_map st) (msg_id j) = Some j" using latest_known [OF ok] by simp
  have lt: "\<forall>j\<in>set ?J. height j < ?h" using max(2) h by force
  have f: "msg_id m = gen creator ?h" "height m = ?h" "sender m = creator" "sender_seq m = ?q"
      "bonds_map m = ?b" "set (seen m) = insert (gen creator ?h) (\<Union> (set ` seen ` set ?J))"
    using create_message_fields [OF cm] by auto
  have "msg_ok (msg_map st) m" by (rule create_message_ok [OF ok J b lt cm])
  then have "state_ok st'" unfolding st' using insert_msg_ok [OF ok] f(2,5) h \<open>0 \<le> mh\<close> b by simp
  moreover have "height x < height m \<and> set (seen x) \<subseteq> set (seen m)"
    if "x \<in> set (bm_values (latest_msgs st))" for x
    using that lt f(2,6) by auto
  moreover have "sender_seq m = seq_num_add
      (case bm_get (latest_msgs st) creator of None \<Rightarrow> 0 | Some x \<Rightarrow> sender_seq x) 1"
    using f(4) unfolding nonneg_one_def seq_num_zero_def .
  ultimately show ?thesis using st' f(3) by blast
qed

lemma reachable_ok: "dag_reachable st \<Longrightarrow> state_ok st"
proof (induction rule: dag_reachable.induct)
  case (reach_insert st J bonds h i s q m)
  then have J: "\<forall>j\<in>set J. bm_get (msg_map st) (msg_id j) = Some j"
    by (simp add: known_def list_all_iff)
  show ?case
    using insert_msg_ok [OF reach_insert.IH create_message_ok [OF reach_insert.IH J]] reach_insert
      create_message_fields [OF reach_insert.hyps(6)] by simp
next
  case (reach_failed st J bonds h i s q m)
  then have J: "\<forall>j\<in>set J. bm_get (msg_map st) (msg_id j) = Some j"
    by (simp add: known_def list_all_iff)
  show ?case
    using insert_msg_without_latest_ok [OF reach_failed.IH create_message_ok [OF reach_failed.IH J]]
      reach_failed create_message_fields [OF reach_failed.hyps(6)] by simp
next
  case (reach_propose st creator gen st' m)
  then show ?case using create_msg_and_update_sender_ok [OF reach_propose.IH] by blast
qed simp

section \<open>Properties\<close>

text \<open>
  C11: in every state a node reaches, each message is stored under its own id, knows its parents and is
  higher than they are, has seen everything they have seen, itself, and its whole finalized fringe;
  and the latest message of every sender is one of the stored messages of that sender.
\<close>

theorem reachable_state_ok:
  assumes "dag_reachable st"
  shows "state_ok st \<and> heights_ok (msg_map st)"
proof -
  have ok: "state_ok st" by (rule reachable_ok [OF assms])
  have "parents_below (msg_map st) m" if m: "m \<in> set (bm_values (msg_map st))" for m
  proof -
    have okm: "msg_ok (msg_map st) m"
      using m bm_value_get [of "msg_map st" m] ok by (auto simp: state_ok_def)
    show ?thesis
      using msg_ok_parent [OF okm] by (auto simp: parents_below_def list_all_iff set_msgs_at)
  qed
  then show ?thesis using ok by (auto simp: heights_ok_def list_all_iff)
qed

text \<open>
  Inserting a message only adds to the map, is idempotent, and never moves a sender's latest
  message back: its sequence number only grows.
\<close>

theorem insert_msg_monotone:
  assumes "bm_get (latest_msgs st) s = Some cur"
  shows "bm_get (msg_map st) \<subseteq>\<^sub>m bm_get (msg_map (insert_msg st m))
    \<and> bm_get (msg_map (insert_msg st m)) (msg_id m) \<noteq> None
    \<and> insert_msg (insert_msg st m) m = insert_msg st m
    \<and> (\<exists>new. bm_get (latest_msgs (insert_msg st m)) s = Some new \<and> sender_seq cur \<le> sender_seq new)"
proof (intro conjI)
  show "bm_get (msg_map st) \<subseteq>\<^sub>m bm_get (msg_map (insert_msg st m))"
    by (auto simp: insert_msg_def map_le_def simp del: dom_bm_get)
  show "bm_get (msg_map (insert_msg st m)) (msg_id m) \<noteq> None"
    by (simp add: insert_msg_def)
  show "insert_msg (insert_msg st m) m = insert_msg st m"
    by (simp add: insert_msg_def)
  show "\<exists>new. bm_get (latest_msgs (insert_msg st m)) s = Some new \<and> sender_seq cur \<le> sender_seq new"
    using assms by (cases "s = sender m") (auto simp: insert_msg_def promote_latest_def)
qed


section \<open>Witnesses\<close>

text \<open>A genesis message and one message on top of it.\<close>

definition ex_genesis :: "(nat, nat) message" where
  "ex_genesis = Message 0 0 9 0 ex_bonds [] [] [0]"

definition ex_st0 :: "(nat, nat) dag_message_state" where
  "ex_st0 = insert_msg empty_state ex_genesis"

definition ex_id :: "nat \<Rightarrow> int \<Rightarrow> nat" where "ex_id s h = s + 10 * nat h"

definition ex_m1 :: "(nat, nat) message" where
  "ex_m1 = Message 19 1 9 1 ex_bonds [0] [] [0, 19]"

lemma ex_st0_reachable: "dag_reachable ex_st0"
proof -
  have "create_message empty_state 0 0 9 0 ex_bonds [] = Some ex_genesis" by code_simp
  then show ?thesis
    unfolding ex_st0_def
    using reach_insert [OF reach_empty _ ex_bonds_ok, of "[]" 0 0 9 0 ex_genesis]
    by (simp add: known_def)
qed

lemma ex_propose:
  "create_msg_and_update_sender ex_st0 9 ex_id = Some (Inr (insert_msg ex_st0 ex_m1, ex_m1))"
  by code_simp

theorem reachable_state_ok_witness: "dag_reachable ex_st0 \<and> state_ok ex_st0 \<and> heights_ok (msg_map ex_st0)"
  using ex_st0_reachable reachable_state_ok [OF ex_st0_reachable] by simp

theorem insert_msg_monotone_witness:
  "bm_get (latest_msgs ex_st0) 9 = Some ex_genesis
   \<and> insert_msg (insert_msg ex_st0 ex_m1) ex_m1 = insert_msg ex_st0 ex_m1"
proof -
  have l: "bm_get (latest_msgs ex_st0) 9 = Some ex_genesis" by code_simp
  show ?thesis using l insert_msg_monotone [OF l, of ex_m1] by simp
qed


end
