(* ===== verification/Blocks.thy ===== *)
theory Blocks
  imports Refined
begin

text \<open>
  The data a block carries: deploys, events, the block message and its metadata, and the finalized
  fringe data (\<^verbatim>\<open>models/src/casper/protocol/casper_message.rs\<close>, \<^verbatim>\<open>models/src/block_metadata.rs\<close>,
  \<^verbatim>\<open>models/src/fringe_data.rs\<close>, \<^verbatim>\<open>casper/src/block_status.rs\<close>, \<^verbatim>\<open>casper/src/proto_util.rs\<close>). Record fields
  carry a prefix per struct. The digest of a block's encoding and the digest of a fringe are
  parameters: both are the Blake2b-256 of third-party crates.
\<close>

type_synonym block_hash = hash32
type_synonym state_hash = hash32
type_synonym validator = bytes
type_synonym deploy_id = bytes

record deploy_data =
  dd_term :: string
  dd_timestamp :: int
  dd_phlo_price :: int
  dd_phlo_limit :: int
  dd_valid_after_block_number :: int
  dd_shard_id :: string

definition total_phlo_charge :: "deploy_data \<Rightarrow> int option" where
  "total_phlo_charge d =
     (let product = dd_phlo_limit d * dd_phlo_price d in if i64_range product then Some product else None)"

record signed_deploy =
  sd_data :: deploy_data
  sd_deployer :: bytes
  sd_sig :: deploy_id
  sd_sig_algorithm :: string

record produce_event =
  pe_channels_hash :: bytes
  pe_hash :: bytes
  pe_persistent :: bool
  pe_times_repeated :: int

record consume_event =
  ce_channels_hashes :: "bytes list"
  ce_hash :: bytes
  ce_persistent :: bool

datatype event =
    ProduceEv produce_event
  | ConsumeEv consume_event
  | CommEv consume_event "produce_event list" "int list"

record processed_deploy =
  pd_deploy :: signed_deploy
  pd_cost :: nat
  pd_deploy_log :: "event list"
  pd_is_failed :: bool
  pd_system_deploy_error :: "string option"

datatype system_deploy_data = Slash validator | CloseBlock | EmptyDeploy

datatype processed_system_deploy =
    SystemSucceeded "event list" system_deploy_data
  | SystemFailed "event list" string

record rholang_state =
  rs_deploys :: "processed_deploy list"
  rs_system_deploys :: "processed_system_deploy list"

record block_message =
  b_version :: int
  b_shard_id :: string
  b_block_hash :: block_hash
  b_block_number :: block_height
  b_sender :: validator
  b_seq_num :: seq_num
  b_pre_state_hash :: state_hash
  b_post_state_hash :: state_hash
  b_justifications :: "block_hash list"
  b_bonds :: "(validator, nonneg_i64) btmap"
  b_rejected_deploys :: "deploy_id btset"
  b_rejected_blocks :: "block_hash btset"
  b_rejected_senders :: "bytes btset"
  b_state :: rholang_state
  b_sig_algorithm :: string
  b_sig :: bytes

record block_metadata =
  md_block_hash :: block_hash
  md_block_num :: block_height
  md_sender :: validator
  md_seq_num :: seq_num
  md_justifications :: "block_hash btset"
  md_bonds_map :: "(validator, nonneg_i64) btmap"
  md_validated :: bool
  md_validation_failed :: bool
  md_fringe :: "block_hash btset"
  md_fringe_state_hash :: state_hash
  md_member_of_fringe :: "hash32 option"

record fringe_data =
  fd_fringe_hash :: hash32
  fd_fringe :: "block_hash btset"
  fd_fringe_diff :: "block_hash btset"
  fd_state_hash :: hash32
  fd_rejected_deploys :: "deploy_id btset"
  fd_rejected_blocks :: "block_hash btset"
  fd_rejected_senders :: "bytes btset"

definition from_block :: "block_message \<Rightarrow> block_metadata" where
  "from_block b = \<lparr>md_block_hash = b_block_hash b, md_block_num = b_block_number b,
     md_sender = b_sender b, md_seq_num = b_seq_num b,
     md_justifications = bs_collect (b_justifications b), md_bonds_map = b_bonds b,
     md_validated = False, md_validation_failed = False, md_fringe = [],
     md_fringe_state_hash = replicate HASH32_LENGTH 0, md_member_of_fringe = None\<rparr>"

datatype block_status =
    Valid | InvalidBlockNumber | InvalidRepeatDeploy | InvalidSequenceNumber | InvalidDeployShardId
  | JustificationRegression | NeglectedInvalidBlock | InvalidStateHash | InvalidBondsCache
  | InvalidRejectedDeploy | ContainsExpiredDeploy | ContainsFutureDeploy | ContainsLowCostDeploy

definition status_is_valid :: "block_status \<Rightarrow> bool" where
  "status_is_valid s \<longleftrightarrow> s = Valid"

definition max_block_number_metadata :: "block_metadata list \<Rightarrow> int" where
  "max_block_number_metadata blocks = fold (\<lambda>b acc. max acc (md_block_num b)) blocks (- 1)"

text \<open>\<open>digest\<close> is the Blake2b-256 of the block's encoding.\<close>

definition hash_block :: "(block_message \<Rightarrow> block_hash) \<Rightarrow> block_message \<Rightarrow> block_hash" where
  "hash_block digest block =
     digest (block\<lparr>b_block_hash := replicate HASH32_LENGTH 0, b_sig := []\<rparr>)"

definition unsigned_block_proto ::
  "(block_message \<Rightarrow> block_hash) \<Rightarrow> int \<Rightarrow> string \<Rightarrow> block_height \<Rightarrow> validator \<Rightarrow> seq_num
   \<Rightarrow> state_hash \<Rightarrow> state_hash \<Rightarrow> block_hash list \<Rightarrow> (validator, nonneg_i64) btmap \<Rightarrow> deploy_id btset
   \<Rightarrow> rholang_state \<Rightarrow> block_message" where
  "unsigned_block_proto digest version shard_id block_number sender seq_num pre_state post_state
     justifications bonds rejected_deploys state =
     (let block = \<lparr>b_version = version, b_shard_id = shard_id,
        b_block_hash = replicate HASH32_LENGTH 0, b_block_number = block_number, b_sender = sender,
        b_seq_num = seq_num, b_pre_state_hash = pre_state, b_post_state_hash = post_state,
        b_justifications = justifications, b_bonds = bonds, b_rejected_deploys = rejected_deploys,
        b_rejected_blocks = [], b_rejected_senders = [], b_state = state,
        b_sig_algorithm = ''secp256k1'', b_sig = []\<rparr>
      in block\<lparr>b_block_hash := hash_block digest block\<rparr>)"

lemma fold_max_ge: "a \<le> fold (\<lambda>b acc. max acc (f b)) bs (a::int)"
  by (induction bs arbitrary: a) (auto intro: order_trans [OF max.cobounded1])

lemma fold_max_mem: "b \<in> set bs \<Longrightarrow> f b \<le> fold (\<lambda>b acc. max acc (f b)) bs (a::int)"
  by (induction bs arbitrary: a) (auto intro: order_trans [OF max.cobounded2 fold_max_ge])

lemma fold_max_cases:
  "fold (\<lambda>b acc. max acc (f b)) bs (a::int) = a \<or> (\<exists>b\<in>set bs. fold (\<lambda>b acc. max acc (f b)) bs a = f b)"
proof (induction bs arbitrary: a)
  case (Cons b bs)
  from Cons [of "max a (f b)"] show ?case by (auto simp: max_def split: if_splits)
qed simp

end
