(* ===== verification/Dag_Store.thy ===== *)
theory Dag_Store
  imports Message_State Blocks
begin

text \<open>
  The block DAG storage of a node: the in-memory index of the block metadata
  (\<^verbatim>\<open>block-storage/src/dag/metadata_store.rs\<close>, \<^verbatim>\<open>casper/src/block_metadata_store.rs\<close>), the DAG
  representation (\<^verbatim>\<open>block-storage/src/dag/representation.rs\<close>) and the storage that inserts blocks and
  rebuilds itself on startup (\<^verbatim>\<open>casper/src/dag.rs\<close>). A typed key-value store is the map of its
  records; its codecs and I/O errors are not part of the model. The locks serialise the operations,
  so each one is a function from state to state.
\<close>

section \<open>The metadata index\<close>

record dag_state =
  dag_set :: "block_hash btset"
  child_map :: "(block_hash, block_hash btset) btmap"
  height_map :: "(block_height, block_hash btset) btmap"

definition dag_state_empty :: dag_state where
  "dag_state_empty = \<lparr>dag_set = [], child_map = [], height_map = []\<rparr>"

record block_info =
  bi_hash :: block_hash
  bi_parents :: "block_hash btset"
  bi_block_num :: block_height
  bi_validation_failed :: bool

definition block_metadata_to_info :: "block_metadata \<Rightarrow> block_info" where
  "block_metadata_to_info meta = \<lparr>bi_hash = md_block_hash meta, bi_parents = md_justifications meta,
     bi_block_num = md_block_num meta, bi_validation_failed = md_validation_failed meta\<rparr>"

definition add_block_to_dag_state :: "block_info \<Rightarrow> dag_state \<Rightarrow> dag_state" where
  "add_block_to_dag_state block state =
     \<lparr>dag_set = bs_insert (bi_hash block) (dag_set state),
      child_map = bm_entry (bi_hash block) [] id
        (fold (\<lambda>parent m. bm_entry parent [] (bs_insert (bi_hash block)) m) (bi_parents block)
          (child_map state)),
      height_map = (if bi_validation_failed block then height_map state
        else bm_entry (bi_block_num block) [] (bs_insert (bi_hash block)) (height_map state))\<rparr>"

datatype dag_error =
    HeightsNotInSequence
  | MissingMetadata block_hash
  | JustificationMissing
  | FringeBlockMissing
  | EquivocationDetected
  | DeployPoolFull
  | TopoSortFragmentParameter int int
  | NoFinalizedFringe

definition validate_dag_state :: "dag_state \<Rightarrow> dag_error + unit" where
  "validate_dag_state state =
     (let m = height_map state;
          (lo, hi) = (if m = [] then (block_height_zero, block_height_zero)
            else (hd (bm_keys m), block_height_add (last (bm_keys m)) nonneg_one))
      in if block_height_sub hi lo \<noteq> min (int (length m)) i64_MAX then Inl HeightsNotInSequence else Inr ())"

definition recreate_in_memory_state :: "(block_hash, block_info) btmap \<Rightarrow> dag_error + dag_state" where
  "recreate_in_memory_state blocks =
     (let state = fold add_block_to_dag_state (bm_values blocks) dag_state_empty
      in case validate_dag_state state of Inl e \<Rightarrow> Inl e | Inr _ \<Rightarrow> Inr state)"

section \<open>The metadata store\<close>

record block_metadata_store =
  bms_store :: "(block_hash, block_metadata) btmap"
  bms_dag_state :: dag_state

definition bms_create :: "(block_hash, block_metadata) btmap \<Rightarrow> dag_error + block_metadata_store" where
  "bms_create store =
     (case recreate_in_memory_state (map (\<lambda>(h, meta). (h, block_metadata_to_info meta)) store) of
        Inl e \<Rightarrow> Inl e
      | Inr st \<Rightarrow> Inr \<lparr>bms_store = store, bms_dag_state = st\<rparr>)"

text \<open>The index is written before it is validated, and the error leaves it written.\<close>

definition bms_add ::
  "block_metadata \<Rightarrow> block_metadata_store \<Rightarrow> block_metadata_store \<times> (dag_error + unit)" where
  "bms_add block s =
     (let s' = s\<lparr>bms_dag_state := add_block_to_dag_state (block_metadata_to_info block) (bms_dag_state s)\<rparr>
      in case validate_dag_state (bms_dag_state s') of
           Inl e \<Rightarrow> (s', Inl e)
         | Inr _ \<Rightarrow> (s'\<lparr>bms_store := bm_insert (md_block_hash block) block (bms_store s')\<rparr>, Inr ()))"

definition bms_get :: "block_hash \<Rightarrow> block_metadata_store \<Rightarrow> block_metadata option" where
  "bms_get hash s = bm_get (bms_store s) hash"

definition bms_get_unchecked :: "block_hash \<Rightarrow> block_metadata_store \<Rightarrow> dag_error + block_metadata" where
  "bms_get_unchecked hash s = (case bms_get hash s of None \<Rightarrow> Inl (MissingMetadata hash) | Some m \<Rightarrow> Inr m)"

definition bms_contains :: "block_hash \<Rightarrow> block_metadata_store \<Rightarrow> bool" where
  "bms_contains hash s \<longleftrightarrow> hash \<in> set (dag_set (bms_dag_state s))"

section \<open>The DAG representation\<close>

type_synonym block_msg = "(block_hash, validator) message"

record dag_representation =
  dr_dag :: dag_state
  dr_message_state :: "(block_hash, validator) dag_message_state"
  dr_fringe_states :: "(block_hash btset, fringe_data) btmap"

definition dr_latest_fringe :: "dag_representation \<Rightarrow> block_msg btset" where
  "dr_latest_fringe r = state_latest_fringe (dr_message_state r)"

definition finalized_blocks_set :: "dag_representation \<Rightarrow> block_hash btset" where
  "finalized_blocks_set r = bs_collect (concat (map seen (dr_latest_fringe r)))"

definition latest_block_number :: "dag_representation \<Rightarrow> int" where
  "latest_block_number r =
     (if height_map (dr_dag r) = [] then 0
      else block_height_add (last (bm_keys (height_map (dr_dag r)))) nonneg_one)"

definition last_finalized_block_hash :: "dag_representation \<Rightarrow> block_hash option" where
  "last_finalized_block_hash r =
     map_option snd (last_max_by id (map (\<lambda>m. (height m, msg_id m)) (dr_latest_fringe r)))"

definition last_finalized_block_unsafe :: "dag_representation \<Rightarrow> dag_error + block_hash" where
  "last_finalized_block_unsafe r =
     (case last_finalized_block_hash r of None \<Rightarrow> Inl NoFinalizedFringe | Some h \<Rightarrow> Inr h)"

definition dr_contains :: "dag_representation \<Rightarrow> block_hash \<Rightarrow> bool" where
  "dr_contains r h \<longleftrightarrow> h \<in> set (dag_set (dr_dag r))"

definition dr_children :: "dag_representation \<Rightarrow> block_hash \<Rightarrow> block_hash btset option" where
  "dr_children r h = bm_get (child_map (dr_dag r)) h"

definition is_finalized :: "dag_representation \<Rightarrow> block_hash \<Rightarrow> bool" where
  "is_finalized r h \<longleftrightarrow> h \<in> set (finalized_blocks_set r)"

definition topo_sort :: "dag_representation \<Rightarrow> int \<Rightarrow> int option \<Rightarrow> block_hash list list option" where
  "topo_sort r start_block_number maybe_end_block_number =
     (let max_number = latest_block_number r;
          start_number = max 0 start_block_number;
          end_number = (case maybe_end_block_number of None \<Rightarrow> max_number | Some e \<Rightarrow> min e max_number)
      in if start_number \<ge> 0 \<and> start_number \<le> end_number
         then Some (map snd (filter (\<lambda>(h, _). h \<ge> start_number \<and> h \<le> end_number) (height_map (dr_dag r))))
         else None)"

definition topo_sort_unsafe ::
  "dag_representation \<Rightarrow> int \<Rightarrow> int option \<Rightarrow> dag_error + block_hash list list" where
  "topo_sort_unsafe r start_block_number maybe_end_block_number =
     (case topo_sort r start_block_number maybe_end_block_number of
        None \<Rightarrow> Inl (TopoSortFragmentParameter start_block_number i64_MAX)
      | Some xs \<Rightarrow> Inr xs)"

text \<open>
  Lookup by a hexadecimal prefix. The odd case slices off the last byte, which panics when that byte
  is inside a character; the model is for ASCII text, which is all its caller passes on.
\<close>

definition dr_find :: "dag_representation \<Rightarrow> string \<Rightarrow> block_hash option" where
  "dr_find r truncated_hash =
     (if even (length truncated_hash)
      then Option.bind (base16_decode truncated_hash)
        (\<lambda>bytes. find (\<lambda>h. starts_with h bytes) (dag_set (dr_dag r)))
      else Option.bind (base16_decode (butlast truncated_hash))
        (\<lambda>bytes. find (\<lambda>h. take (length truncated_hash) (to_hex h) = truncated_hash)
          (filter (\<lambda>h. starts_with h bytes) (dag_set (dr_dag r)))))"

section \<open>The block DAG storage\<close>

definition MAX_POOLED_DEPLOYS :: nat where "MAX_POOLED_DEPLOYS = 10000"
definition DEPLOY_LIFESPAN :: int where "DEPLOY_LIFESPAN = 50"

fun parents_seen :: "block_hash list \<Rightarrow> (block_hash, validator) msg_map \<Rightarrow> block_hash btset \<Rightarrow> block_hash btset option"
where
  "parents_seen [] mm acc = Some acc"
| "parents_seen (p # ps) mm acc =
     (case bm_get mm p of None \<Rightarrow> None | Some m \<Rightarrow> parents_seen ps mm (bs_union acc (seen m)))"

definition message_from_block_metadata ::
  "block_metadata \<Rightarrow> (block_hash, validator) msg_map \<Rightarrow> block_msg option" where
  "message_from_block_metadata block mm =
     (case parents_seen (md_justifications block) mm [] of
        None \<Rightarrow> None
      | Some sn \<Rightarrow> Some (Message (md_block_hash block) (md_block_num block) (md_sender block)
          (md_seq_num block) (md_bonds_map block) (md_justifications block) (md_fringe block)
          (bs_insert (md_block_hash block) sn)))"

record dag_storage =
  ds_representation :: dag_representation
  ds_metadata :: block_metadata_store
  ds_fringe_data :: "(hash32, fringe_data) btmap"
  ds_deploy_index :: "(deploy_id, block_hash) btmap"
  ds_deploy_store :: "(deploy_id, signed_deploy) btmap"

subsection \<open>Startup\<close>

text \<open>
  The representation is rebuilt from the index in the order of the height map. \<open>fringe_hash_of\<close> is
  the digest of a fringe.
\<close>

fun load_messages ::
  "(block_hash btset \<Rightarrow> hash32) \<Rightarrow> block_metadata_store \<Rightarrow> (hash32, fringe_data) btmap \<Rightarrow> block_hash list
   \<Rightarrow> (block_hash, validator) dag_message_state \<Rightarrow> (block_hash btset, fringe_data) btmap
   \<Rightarrow> dag_error + (block_hash, validator) dag_message_state \<times> (block_hash btset, fringe_data) btmap"
where
  "load_messages fringe_hash_of ms fds [] st fs = Inr (st, fs)"
| "load_messages fringe_hash_of ms fds (hash # hashes) st fs =
     (if bm_get (msg_map st) hash \<noteq> None then load_messages fringe_hash_of ms fds hashes st fs
      else case bms_get_unchecked hash ms of
        Inl e \<Rightarrow> Inl e
      | Inr block \<Rightarrow>
          (case message_from_block_metadata block (msg_map st) of
             None \<Rightarrow> Inl JustificationMissing
           | Some msg \<Rightarrow>
               load_messages fringe_hash_of ms fds hashes (insert_msg st msg)
                 (if bm_get fs (fringe msg) \<noteq> None then fs
                  else (case bm_get fds (fringe_hash_of (fringe msg)) of
                      None \<Rightarrow> fs | Some fd \<Rightarrow> bm_insert (fringe msg) fd fs))))"

definition storage_create ::
  "(block_hash btset \<Rightarrow> hash32) \<Rightarrow> block_metadata_store \<Rightarrow> (hash32, fringe_data) btmap
   \<Rightarrow> (deploy_id, block_hash) btmap \<Rightarrow> (deploy_id, signed_deploy) btmap \<Rightarrow> dag_error + dag_storage" where
  "storage_create fringe_hash_of ms fds deploy_index deploy_store =
     (case load_messages fringe_hash_of ms fds
         (concat (bm_values (height_map (bms_dag_state ms)))) empty_state [] of
        Inl e \<Rightarrow> Inl e
      | Inr (st, fs) \<Rightarrow> Inr \<lparr>ds_representation = \<lparr>dr_dag = bms_dag_state ms, dr_message_state = st,
            dr_fringe_states = fs\<rparr>,
          ds_metadata = ms, ds_fringe_data = fds, ds_deploy_index = deploy_index,
          ds_deploy_store = deploy_store\<rparr>)"

subsection \<open>Inserting a block\<close>

definition expire_deploys :: "int \<Rightarrow> dag_storage \<Rightarrow> dag_storage" where
  "expire_deploys latest s = s\<lparr>ds_deploy_store :=
     filter (\<lambda>(_, d). \<not> wrap_i64 (latest - dd_valid_after_block_number (sd_data d)) > DEPLOY_LIFESPAN)
       (ds_deploy_store s)\<rparr>"

definition equivocating :: "block_metadata \<Rightarrow> dag_storage \<Rightarrow> bool" where
  "equivocating meta s =
     list_ex (\<lambda>m. sender m = md_sender meta \<and> sender_seq m = md_seq_num meta)
       (bm_values (msg_map (dr_message_state (ds_representation s))))"

definition index_deploys :: "block_message \<Rightarrow> dag_storage \<Rightarrow> dag_storage" where
  "index_deploys block s =
     (let sigs = map (sd_sig \<circ> pd_deploy) (rs_deploys (b_state block))
      in s\<lparr>ds_deploy_index := fold (\<lambda>h m. bm_insert h (b_block_hash block) m) sigs (ds_deploy_index s),
           ds_deploy_store := fold bm_remove sigs (ds_deploy_store s)\<rparr>)"

definition fringe_seen :: "block_hash list \<Rightarrow> (block_hash, validator) msg_map \<Rightarrow> dag_error + block_hash btset" where
  "fringe_seen fr mm =
     (case parents_seen fr mm [] of None \<Rightarrow> Inl FringeBlockMissing | Some sn \<Rightarrow> Inr sn)"

text \<open>The blocks the new fringe finalizes beyond the latest fringe of the justifications.\<close>

definition fringe_diff_of ::
  "block_metadata \<Rightarrow> (block_hash, validator) dag_message_state \<Rightarrow> dag_error + block_hash btset" where
  "fringe_diff_of meta st =
     (case those (map (bm_get (msg_map st)) (md_justifications meta)) of
        None \<Rightarrow> Inl JustificationMissing
      | Some js \<Rightarrow>
          (case fringe_seen (md_fringe meta) (msg_map st) of
             Inl e \<Rightarrow> Inl e
           | Inr sn \<Rightarrow> Inr (bs_diff sn
               (bs_collect (concat (map seen (latest_fringe (msg_map st) (bs_collect js))))))))"

fun mark_finalized ::
  "hash32 \<Rightarrow> block_hash list \<Rightarrow> block_metadata_store \<Rightarrow> block_metadata_store \<times> (dag_error + unit)"
where
  "mark_finalized fh [] ms = (ms, Inr ())"
| "mark_finalized fh (h # hs) ms =
     (case bms_get_unchecked h ms of
        Inl e \<Rightarrow> (ms, Inl e)
      | Inr meta \<Rightarrow>
          (case bms_add (meta\<lparr>md_member_of_fringe := Some fh\<rparr>) ms of
             (ms', Inl e) \<Rightarrow> (ms', Inl e)
           | (ms', Inr _) \<Rightarrow> mark_finalized fh hs ms'))"

text \<open>The block-index entries below the newly finalized fringe; the cache itself is elsewhere.\<close>

definition prunable :: "dag_representation \<Rightarrow> block_hash list" where
  "prunable r =
     (let mm = msg_map (dr_message_state r);
          lowest = lowest_fringe mm (bs_collect (bm_values (latest_msgs (dr_message_state r))))
      in map msg_id (prune_fringe mm (bs_collect (map msg_id lowest)) (child_map (dr_dag r))))"

definition record_message :: "block_metadata \<Rightarrow> fringe_data \<Rightarrow> dag_storage \<Rightarrow> dag_error + dag_storage" where
  "record_message meta fd s =
     (let r = ds_representation s; st = dr_message_state r
      in case message_from_block_metadata meta (msg_map st) of
           None \<Rightarrow> Inl JustificationMissing
         | Some msg \<Rightarrow> Inr (s\<lparr>ds_representation := \<lparr>dr_dag = bms_dag_state (ds_metadata s),
             dr_message_state = (if md_validation_failed meta then insert_msg_without_latest st msg
               else insert_msg st msg),
             dr_fringe_states = bm_insert (fringe msg) fd (dr_fringe_states r)\<rparr>\<rparr>))"

text \<open>Success carries the block-index entries to prune.\<close>

definition storage_insert ::
  "(block_hash btset \<Rightarrow> hash32) \<Rightarrow> block_metadata \<Rightarrow> block_message \<Rightarrow> dag_storage
   \<Rightarrow> dag_storage \<times> (dag_error + block_hash list)" where
  "storage_insert fringe_hash_of meta block s =
     (if bms_contains (md_block_hash meta) (ds_metadata s) then (s, Inr [])
      else if equivocating meta s then (s, Inl EquivocationDetected)
      else case bms_add meta (ds_metadata s) of
        (ms, Inl e) \<Rightarrow> (s\<lparr>ds_metadata := ms\<rparr>, Inl e)
      | (ms, Inr _) \<Rightarrow>
          let s = index_deploys block (s\<lparr>ds_metadata := ms\<rparr>);
              st = dr_message_state (ds_representation s);
              fh = fringe_hash_of (md_fringe meta)
          in case fringe_diff_of meta st of
               Inl e \<Rightarrow> (s, Inl e)
             | Inr diff \<Rightarrow>
                 let fd = \<lparr>fd_fringe_hash = fh, fd_fringe = md_fringe meta, fd_fringe_diff = diff,
                       fd_state_hash = md_fringe_state_hash meta,
                       fd_rejected_deploys = b_rejected_deploys block,
                       fd_rejected_blocks = b_rejected_blocks block,
                       fd_rejected_senders = b_rejected_senders block\<rparr>;
                     s = s\<lparr>ds_fringe_data := bm_insert fh fd (ds_fringe_data s)\<rparr>
                 in case mark_finalized fh diff (ds_metadata s) of
                      (ms, Inl e) \<Rightarrow> (s\<lparr>ds_metadata := ms\<rparr>, Inl e)
                    | (ms, Inr _) \<Rightarrow>
                        let s = s\<lparr>ds_metadata := ms\<rparr>
                        in case record_message meta fd s of
                             Inl e \<Rightarrow> (s, Inl e)
                           | Inr s' \<Rightarrow>
                               (expire_deploys (latest_block_number (ds_representation s')) s',
                                Inr (if diff = [] then [] else prunable (ds_representation s'))))"

definition lookup_by_deploy_id :: "deploy_id \<Rightarrow> dag_storage \<Rightarrow> block_hash option" where
  "lookup_by_deploy_id i s = bm_get (ds_deploy_index s) i"

definition add_deploy :: "signed_deploy \<Rightarrow> dag_storage \<Rightarrow> dag_storage \<times> (dag_error + unit)" where
  "add_deploy d s =
     (if length (ds_deploy_store s) \<ge> MAX_POOLED_DEPLOYS then (s, Inl DeployPoolFull)
      else (s\<lparr>ds_deploy_store := bm_insert (sd_sig d) d (ds_deploy_store s)\<rparr>, Inr ()))"

definition contains_deploy_in_pool :: "deploy_id \<Rightarrow> dag_storage \<Rightarrow> bool" where
  "contains_deploy_in_pool i s \<longleftrightarrow> bm_get (ds_deploy_store s) i \<noteq> None"

section \<open>What the index holds\<close>

text \<open>
  The index is a function of the set of blocks added to it: the hashes, the children of every block
  named, and the valid blocks of every height.
\<close>

definition child_spec :: "block_info set \<Rightarrow> block_hash \<Rightarrow> block_hash set option" where
  "child_spec I p = (if p \<in> bi_hash ` I \<or> (\<exists>b\<in>I. p \<in> set (bi_parents b))
     then Some (bi_hash ` {b \<in> I. p \<in> set (bi_parents b)}) else None)"

definition height_spec :: "block_info set \<Rightarrow> block_height \<Rightarrow> block_hash set option" where
  "height_spec I n = (if \<exists>b\<in>I. \<not> bi_validation_failed b \<and> bi_block_num b = n
     then Some (bi_hash ` {b \<in> I. \<not> bi_validation_failed b \<and> bi_block_num b = n}) else None)"

definition indexes :: "dag_state \<Rightarrow> block_info set \<Rightarrow> bool" where
  "indexes st I \<longleftrightarrow> btset_ok (dag_set st) \<and> bmset_ok (child_map st) \<and> bmset_ok (height_map st)
     \<and> set (dag_set st) = bi_hash ` I \<and> bmset_abs (child_map st) = child_spec I
     \<and> bmset_abs (height_map st) = height_spec I"

lemma height_spec_Some:
  "(\<exists>S. height_spec I n = Some S \<and> x \<in> S) \<longleftrightarrow>
   (\<exists>b\<in>I. \<not> bi_validation_failed b \<and> bi_block_num b = n \<and> bi_hash b = x)"
  by (auto simp: height_spec_def)

lemma indexes_unique: "indexes st I \<Longrightarrow> indexes st' I \<Longrightarrow> st = st'"
  by (rule dag_state.equality) (auto simp: indexes_def intro: btset_eqI bmset_eqI)

lemma indexes_empty: "indexes dag_state_empty {}"
  by (simp add: indexes_def dag_state_empty_def child_spec_def height_spec_def fun_eq_iff)

lemma fold_children:
  assumes "bmset_ok m"
  shows "bmset_ok (fold (\<lambda>p m. bm_entry p [] (bs_insert h) m) ps m)
    \<and> bmset_abs (fold (\<lambda>p m. bm_entry p [] (bs_insert h) m) ps m) =
      (\<lambda>p. if p \<in> set ps then Some (insert h (case bmset_abs m p of None \<Rightarrow> {} | Some S \<Rightarrow> S))
           else bmset_abs m p)"
  using assms
proof (induction ps arbitrary: m)
  case (Cons q ps)
  then have "bmset_ok (bm_entry q [] (bs_insert h) m)" by simp
  from Cons.IH [OF this] show ?case by (auto simp: fun_eq_iff)
qed auto

lemma indexes_add:
  assumes "indexes st I" shows "indexes (add_block_to_dag_state b st) (insert b I)"
proof -
  let ?h = "bi_hash b"
  let ?c = "fold (\<lambda>p m. bm_entry p [] (bs_insert ?h) m) (bi_parents b) (child_map st)"
  have ok: "bmset_ok (child_map st)" and ca: "bmset_abs (child_map st) = child_spec I"
    using assms by (simp_all add: indexes_def)
  have f: "bmset_ok ?c" "bmset_abs ?c = (\<lambda>p. if p \<in> set (bi_parents b)
      then Some (insert ?h (case child_spec I p of None \<Rightarrow> {} | Some S \<Rightarrow> S)) else child_spec I p)"
    using fold_children [OF ok, of ?h "bi_parents b"] unfolding ca by blast+
  have "sets_add ?h {} (bmset_abs ?c) = child_spec (insert b I)"
    unfolding f(2) by (rule ext) (auto simp: child_spec_def)
  moreover have "(if bi_validation_failed b then height_spec I
      else sets_add (bi_block_num b) {?h} (height_spec I)) = height_spec (insert b I)"
    by (rule ext) (auto simp: height_spec_def)
  ultimately show ?thesis
    using assms f(1) by (auto simp: indexes_def add_block_to_dag_state_def)
qed

lemma indexes_fold: "indexes st I \<Longrightarrow> indexes (fold add_block_to_dag_state bs st) (set bs \<union> I)"
proof (induction bs arbitrary: st I)
  case (Cons b bs)
  from Cons.IH [OF indexes_add [OF Cons.prems]] show ?case by simp
qed simp

section \<open>Contiguous heights\<close>

lemma sorted_bounds:
  fixes ks :: "int list"
  assumes "sorted_wrt (<) ks" "k \<in> set ks"
  shows "hd ks \<le> k \<and> k \<le> last ks"
proof -
  have s: "sorted ks" using assms(1) strict_sorted_iff by blast
  obtain i where i: "i < length ks" "k = ks ! i" using assms(2) by (auto simp: in_set_conv_nth)
  have "ks ! 0 \<le> ks ! i" "ks ! i \<le> ks ! (length ks - 1)"
    using s i(1) sorted_nth_mono [of ks] by auto
  moreover have "ks \<noteq> []" using i(1) by auto
  ultimately show ?thesis using i by (simp add: hd_conv_nth last_conv_nth)
qed

lemma sorted_consecutive:
  fixes ks :: "int list"
  assumes "sorted_wrt (<) ks" "ks \<noteq> []"
  shows "int (length ks) \<le> last ks + 1 - hd ks"
    "last ks + 1 - hd ks = int (length ks) \<longleftrightarrow> set ks = {hd ks..last ks}"
proof -
  have d: "distinct ks" using assms(1) strict_sorted_iff by blast
  have sub: "set ks \<subseteq> {hd ks..last ks}" using sorted_bounds [OF assms(1)] by auto
  have c: "card (set ks) = length ks" using d by (rule distinct_card)
  have n: "card {hd ks..last ks} = nat (last ks + 1 - hd ks)" by simp
  have le: "card (set ks) \<le> card {hd ks..last ks}" using sub by (intro card_mono) auto
  have "hd ks \<le> last ks" using sorted_bounds [OF assms(1) hd_in_set [OF assms(2)]] by simp
  then show "int (length ks) \<le> last ks + 1 - hd ks" using le c n by simp
  show "last ks + 1 - hd ks = int (length ks) \<longleftrightarrow> set ks = {hd ks..last ks}"
  proof
    assume "last ks + 1 - hd ks = int (length ks)"
    then have "card {hd ks..last ks} \<le> card (set ks)" using c n by simp
    then show "set ks = {hd ks..last ks}" using sub card_seteq by (metis finite_atLeastAtMost_int)
  next
    assume "set ks = {hd ks..last ks}"
    then have "length ks = nat (last ks + 1 - hd ks)" using c n by simp
    then show "last ks + 1 - hd ks = int (length ks)" using \<open>hd ks \<le> last ks\<close> by simp
  qed
qed

text \<open>Heights fit the metadata: non-negative and below the top of the range.\<close>

definition heights_in_range :: "dag_state \<Rightarrow> bool" where
  "heights_in_range st = list_all (\<lambda>n. 0 \<le> n \<and> n < i64_MAX) (bm_keys (height_map st))"

lemma validate_contiguous:
  assumes "btmap_ok (height_map st)" and "heights_in_range st"
  shows "validate_dag_state st = Inr () \<longleftrightarrow> (\<exists>lo hi. fst ` set (height_map st) = {lo..<hi})"
proof (cases "height_map st = []")
  case True
  then show ?thesis
    by (auto simp: validate_dag_state_def block_height_zero_def block_height_sub_def i64_MAX_def
        wrap_i64_def intro: exI [of _ 0])
next
  case False
  let ?ks = "bm_keys (height_map st)"
  have ne: "?ks \<noteq> []" using False by simp
  have sorted: "sorted_wrt (<) ?ks" using assms(1) by (simp add: btmap_ok_def)
  note sc = sorted_consecutive [OF sorted ne]
  have "hd ?ks \<in> set ?ks" "last ?ks \<in> set ?ks" using ne by (rule hd_in_set, rule last_in_set)
  then have r: "0 \<le> hd ?ks" "hd ?ks < i64_MAX" "0 \<le> last ?ks" "last ?ks < i64_MAX"
    using assms(2) by (auto simp: heights_in_range_def list_all_iff)
  then have "block_height_add (last ?ks) nonneg_one = last ?ks + 1"
    by (simp add: block_height_add_def nonneg_one_def saturating_add_i64_def i64_MAX_def i64_MIN_def)
  moreover have "block_height_sub (last ?ks + 1) (hd ?ks) = last ?ks + 1 - hd ?ks"
    using r by (simp add: block_height_sub_def wrap_i64_def i64_MAX_def)
  moreover have "int (length ?ks) \<le> i64_MAX" using sc(1) r by linarith
  ultimately have "validate_dag_state st = Inr () \<longleftrightarrow> last ?ks + 1 - hd ?ks = int (length ?ks)"
    using False by (simp add: validate_dag_state_def Let_def)
  also have "\<dots> \<longleftrightarrow> set ?ks = {hd ?ks..last ?ks}" by (rule sc(2))
  also have "\<dots> \<longleftrightarrow> (\<exists>lo hi. set ?ks = {lo..<hi})"
  proof
    assume "set ?ks = {hd ?ks..last ?ks}"
    then have "set ?ks = {hd ?ks..<last ?ks + 1}" by (simp add: atLeastLessThanPlusOne_atLeastAtMost_int)
    then show "\<exists>lo hi. set ?ks = {lo..<hi}" by blast
  next
    assume "\<exists>lo hi. set ?ks = {lo..<hi}"
    then obtain lo hi where lh: "set ?ks = {lo..<hi}" by blast
    have mm: "k \<in> set ?ks \<Longrightarrow> hd ?ks \<le> k \<and> k \<le> last ?ks" for k
      using sorted_bounds [OF sorted] by blast
    have "hd ?ks \<in> {lo..<hi}" "last ?ks \<in> {lo..<hi}"
      using hd_in_set [OF ne] last_in_set [OF ne] unfolding lh by auto
    moreover have "lo \<in> set ?ks" "hi - 1 \<in> set ?ks" using calculation unfolding lh by auto
    ultimately have "hd ?ks = lo" "last ?ks = hi - 1"
      using mm [of lo] mm [of "hi - 1"] by auto
    then show "set ?ks = {hd ?ks..last ?ks}" using lh by auto
  qed
  finally show ?thesis by simp
qed

section \<open>Restarting the metadata store\<close>

text \<open>
  The stores a node reaches: it adds metadata, and what it adds for a block it already holds differs
  only in what the index does not read (the fringe a block was finalized by).
\<close>

inductive bms_reachable :: "block_metadata_store \<Rightarrow> bool" where
  bms_empty: "bms_reachable \<lparr>bms_store = [], bms_dag_state = dag_state_empty\<rparr>"
| bms_step: "bms_reachable s \<Longrightarrow> bms_add meta s = (s', Inr ()) \<Longrightarrow>
    (\<And>old. bms_get (md_block_hash meta) s = Some old \<Longrightarrow>
       block_metadata_to_info old = block_metadata_to_info meta) \<Longrightarrow> bms_reachable s'"

definition infos :: "(block_hash, block_metadata) btmap \<Rightarrow> block_info set" where
  "infos store = block_metadata_to_info ` ran (bm_get store)"

definition bms_ok :: "block_metadata_store \<Rightarrow> bool" where
  "bms_ok s \<longleftrightarrow> btmap_ok (bms_store s) \<and> (\<forall>h m. bm_get (bms_store s) h = Some m \<longrightarrow> md_block_hash m = h)
     \<and> indexes (bms_dag_state s) (infos (bms_store s)) \<and> validate_dag_state (bms_dag_state s) = Inr ()"

lemma infos_insert:
  assumes "\<And>old. bm_get store (md_block_hash meta) = Some old \<Longrightarrow>
      block_metadata_to_info old = block_metadata_to_info meta"
  shows "infos (bm_insert (md_block_hash meta) meta store) = insert (block_metadata_to_info meta) (infos store)"
proof (cases "bm_get store (md_block_hash meta)")
  case None
  then show ?thesis by (simp add: infos_def ran_map_upd)
next
  case (Some old)
  then have eq: "block_metadata_to_info old = block_metadata_to_info meta" using assms by blast
  show ?thesis
  proof (intro equalityI subsetI)
    fix x assume "x \<in> infos (bm_insert (md_block_hash meta) meta store)"
    then show "x \<in> insert (block_metadata_to_info meta) (infos store)"
      by (auto simp: infos_def ran_def split: if_splits)
  next
    fix x assume "x \<in> insert (block_metadata_to_info meta) (infos store)"
    then consider "x = block_metadata_to_info meta"
      | h m where "bm_get store h = Some m" "x = block_metadata_to_info m"
      by (auto simp: infos_def ran_def)
    then show "x \<in> infos (bm_insert (md_block_hash meta) meta store)"
    proof cases
      case 2
      then show ?thesis using Some eq
        by (cases "h = md_block_hash meta") (auto simp: infos_def ran_def)
    qed (auto simp: infos_def ran_def)
  qed
qed

lemma bms_add_ok:
  assumes ok: "bms_ok s" and add: "bms_add meta s = (s', Inr ())"
    and same: "\<And>old. bms_get (md_block_hash meta) s = Some old \<Longrightarrow>
       block_metadata_to_info old = block_metadata_to_info meta"
  shows "bms_ok s' \<and> bms_store s' = bm_insert (md_block_hash meta) meta (bms_store s)"
proof -
  let ?d = "add_block_to_dag_state (block_metadata_to_info meta) (bms_dag_state s)"
  from add have v: "validate_dag_state ?d = Inr ()"
    and s': "s' = \<lparr>bms_store = bm_insert (md_block_hash meta) meta (bms_store s), bms_dag_state = ?d\<rparr>"
    by (auto simp: bms_add_def Let_def split: sum.splits)
  have "indexes ?d (insert (block_metadata_to_info meta) (infos (bms_store s)))"
    using ok by (intro indexes_add) (simp add: bms_ok_def)
  then show ?thesis
    using ok v s' infos_insert [of "bms_store s" meta] same by (auto simp: bms_ok_def bms_get_def)
qed

lemma bms_ok_empty: "bms_ok \<lparr>bms_store = [], bms_dag_state = dag_state_empty\<rparr>"
  by (simp add: bms_ok_def infos_def indexes_empty)
    (simp add: validate_dag_state_def dag_state_empty_def block_height_sub_def block_height_zero_def
      i64_MAX_def wrap_i64_def)

lemma bms_reachable_ok: "bms_reachable s \<Longrightarrow> bms_ok s"
proof (induction rule: bms_reachable.induct)
  case (bms_step s meta s')
  then show ?case using bms_add_ok by blast
qed (rule bms_ok_empty)

lemma bms_create_ok:
  assumes "bms_ok s" shows "bms_create (bms_store s) = Inr s"
proof -
  let ?is = "map (\<lambda>(h, meta). (h, block_metadata_to_info meta)) (bms_store s)"
  have d: "distinct (map fst (bms_store s))" using assms by (simp add: bms_ok_def btmap_ok_iff)
  have "set (bm_values ?is) = infos (bms_store s)"
    using d by (force simp: infos_def ran_distinct)
  then have "indexes (fold add_block_to_dag_state (bm_values ?is) dag_state_empty) (infos (bms_store s))"
    using indexes_fold [OF indexes_empty, of "bm_values ?is"] by simp
  then have "fold add_block_to_dag_state (bm_values ?is) dag_state_empty = bms_dag_state s"
    using assms indexes_unique by (auto simp: bms_ok_def)
  then show ?thesis
    using assms by (simp add: bms_create_def recreate_in_memory_state_def bms_ok_def Let_def)
qed

section \<open>Restarting the storage\<close>

lemma parents_seen_cong:
  "(\<And>p. p \<in> set ps \<Longrightarrow> bm_get mm p = bm_get mm' p) \<Longrightarrow> parents_seen ps mm acc = parents_seen ps mm' acc"
  by (induction ps arbitrary: acc) (auto split: option.splits)

lemma message_from_cong:
  "(\<And>p. p \<in> set (md_justifications meta) \<Longrightarrow> bm_get mm p = bm_get mm' p) \<Longrightarrow>
   message_from_block_metadata meta mm = message_from_block_metadata meta mm'"
  using parents_seen_cong [of "md_justifications meta" mm mm' "[]"]
  by (simp add: message_from_block_metadata_def)

lemma parents_seen_defined:
  "parents_seen ps mm acc = Some sn \<Longrightarrow> p \<in> set ps \<Longrightarrow> bm_get mm p \<noteq> None"
  by (induction ps arbitrary: acc) (auto split: option.splits)

lemma message_from_fields:
  assumes "message_from_block_metadata meta mm = Some m"
  shows "msg_id m = md_block_hash meta" "height m = md_block_num meta" "sender m = md_sender meta"
    "sender_seq m = md_seq_num meta" "fringe m = md_fringe meta"
    "p \<in> set (md_justifications meta) \<Longrightarrow> bm_get mm p \<noteq> None"
  using assms parents_seen_defined
  by (auto simp: message_from_block_metadata_def split: option.splits)

text \<open>What of the metadata is finalization's own; everything else is fixed at insertion.\<close>

definition same_block :: "block_metadata \<Rightarrow> block_metadata \<Rightarrow> bool" where
  "same_block a b \<longleftrightarrow> (\<exists>f. a = b\<lparr>md_member_of_fringe := f\<rparr>)"

lemma same_blockD:
  assumes "same_block a b"
  shows "block_metadata_to_info a = block_metadata_to_info b" "md_fringe a = md_fringe b"
    "md_block_hash a = md_block_hash b" "md_validation_failed a = md_validation_failed b"
    "md_justifications a = md_justifications b" "md_block_num a = md_block_num b"
    "message_from_block_metadata a mm = message_from_block_metadata b mm"
  using assms by (auto simp: same_block_def block_metadata_to_info_def message_from_block_metadata_def
      split: option.splits)

lemma same_block_mark [simp]: "same_block (a\<lparr>md_member_of_fringe := f\<rparr>) a"
  by (auto simp: same_block_def)

lemma same_block_refl [simp]: "same_block a a"
  unfolding same_block_def by (rule exI [of _ "md_member_of_fringe a"]) simp

lemma same_block_trans: "same_block a b \<Longrightarrow> same_block b c \<Longrightarrow> same_block a c"
  by (auto simp: same_block_def)

definition same_blocks :: "(block_hash, block_metadata) btmap \<Rightarrow> (block_hash, block_metadata) btmap \<Rightarrow> bool" where
  "same_blocks s t \<longleftrightarrow> (\<forall>h. rel_option same_block (bm_get s h) (bm_get t h))"

lemma same_blocks_trans:
  assumes "same_blocks r s" "same_blocks s t" shows "same_blocks r t"
  unfolding same_blocks_def
proof
  fix h
  from assms have "rel_option same_block (bm_get r h) (bm_get s h)" "rel_option same_block (bm_get s h) (bm_get t h)"
    by (simp_all add: same_blocks_def)
  then show "rel_option same_block (bm_get r h) (bm_get t h)"
    by (cases "bm_get r h"; cases "bm_get s h"; cases "bm_get t h") (auto intro: same_block_trans)
qed

lemma mark_finalized_ok:
  assumes "mark_finalized fh hs ms = (ms', Inr ())" and "bms_ok ms"
  shows "bms_ok ms' \<and> same_blocks (bms_store ms') (bms_store ms)"
  using assms
proof (induction hs arbitrary: ms)
  case Nil
  then show ?case by (auto simp: same_blocks_def intro: option.rel_refl)
next
  case (Cons h hs)
  from Cons.prems(1) obtain meta ms1 where m: "bms_get h ms = Some meta"
      "bms_add (meta\<lparr>md_member_of_fringe := Some fh\<rparr>) ms = (ms1, Inr ())"
      "mark_finalized fh hs ms1 = (ms', Inr ())"
    by (auto simp: bms_get_unchecked_def split: option.splits sum.splits prod.splits)
  have h: "md_block_hash meta = h" using m(1) Cons.prems(2) by (auto simp: bms_ok_def bms_get_def)
  have ok1: "bms_ok ms1 \<and> bms_store ms1 = bm_insert h (meta\<lparr>md_member_of_fringe := Some fh\<rparr>) (bms_store ms)"
    using bms_add_ok [OF Cons.prems(2) m(2)] m(1) h by (auto simp: block_metadata_to_info_def)
  then have "same_blocks (bms_store ms1) (bms_store ms)"
    using m(1) by (auto simp: same_blocks_def bms_get_def intro: option.rel_refl)
  moreover have "bms_ok ms' \<and> same_blocks (bms_store ms') (bms_store ms1)"
    using Cons.IH [OF m(3)] ok1 by blast
  ultimately show ?case using same_blocks_trans by blast
qed

text \<open>
  The latest messages are determined by the messages when no sender reuses a sequence number.
\<close>

definition latest_spec :: "(validator, block_msg) btmap \<Rightarrow> (block_hash \<Rightarrow> block_msg option) \<Rightarrow> bool" where
  "latest_spec L f \<longleftrightarrow> (\<forall>s m. bm_get L s = Some m \<longrightarrow> m \<in> ran f \<and> sender m = s)
     \<and> (\<forall>m'\<in>ran f. \<exists>m. bm_get L (sender m') = Some m \<and> sender_seq m' \<le> sender_seq m)"

definition unique_seq :: "(block_hash \<Rightarrow> block_msg option) \<Rightarrow> bool" where
  "unique_seq f \<longleftrightarrow> (\<forall>m\<in>ran f. \<forall>m'\<in>ran f. sender m = sender m' \<and> sender_seq m = sender_seq m' \<longrightarrow> m = m')"

lemma latest_spec_empty: "latest_spec [] Map.empty"
  by (simp add: latest_spec_def)

lemma latest_spec_promote:
  assumes "latest_spec L f" and "f h = None"
  shows "latest_spec (promote_latest m L) (f(h \<mapsto> m))"
  unfolding latest_spec_def ran_map_upd [of f h, OF assms(2)]
proof (intro conjI allI impI ballI)
  fix s x assume x: "bm_get (promote_latest m L) s = Some x"
  show "x \<in> insert m (ran f)" "sender x = s"
    using promote_latest_get [OF x] assms(1) by (auto simp: latest_spec_def)
next
  fix m' assume "m' \<in> insert m (ran f)"
  then consider "m' = m" | "m' \<in> ran f" by blast
  then show "\<exists>x. bm_get (promote_latest m L) (sender m') = Some x \<and> sender_seq m' \<le> sender_seq x"
  proof cases
    case 1
    then show ?thesis by (auto simp: promote_latest_def split: option.splits)
  next
    case 2
    then obtain x where "bm_get L (sender m') = Some x" "sender_seq m' \<le> sender_seq x"
      using assms(1) by (auto simp: latest_spec_def)
    then show ?thesis by (cases "sender m' = sender m") (auto simp: promote_latest_def)
  qed
qed

lemma latest_spec_le:
  assumes "latest_spec L f" "latest_spec L' f" "unique_seq f" "bm_get L s = Some m"
  shows "bm_get L' s = Some m"
proof -
  have m: "m \<in> ran f" "sender m = s" using assms(1,4) by (auto simp: latest_spec_def)
  then obtain m' where m': "bm_get L' s = Some m'" "sender_seq m \<le> sender_seq m'"
    using assms(2) by (auto simp: latest_spec_def)
  then have "m' \<in> ran f" "sender m' = s" using assms(2) by (auto simp: latest_spec_def)
  moreover from this have "sender_seq m' \<le> sender_seq m"
    using assms(1,4) by (fastforce simp: latest_spec_def)
  ultimately have "m = m'" using assms(3) m m'(2) by (auto simp: unique_seq_def)
  then show ?thesis using m'(1) by simp
qed

lemma latest_spec_unique:
  assumes "latest_spec L f" "latest_spec L' f" "unique_seq f" "btmap_ok L" "btmap_ok L'"
  shows "L = L'"
proof (rule btmap_eqI [OF assms(4,5)], rule ext)
  fix s
  show "bm_get L s = bm_get L' s"
    using latest_spec_le [OF assms(1-3), of s] latest_spec_le [OF assms(2,1,3), of s]
    by (cases "bm_get L s"; cases "bm_get L' s") auto
qed

text \<open>The invariant of a storage whose blocks are all valid.\<close>

definition storage_ok :: "(block_hash btset \<Rightarrow> hash32) \<Rightarrow> dag_storage \<Rightarrow> bool" where
  "storage_ok fh s \<longleftrightarrow>
     (let store = bms_store (ds_metadata s); r = ds_representation s; st = dr_message_state r;
          mm = msg_map st; blocks = ran (bm_get store)
      in bms_ok (ds_metadata s) \<and> dr_dag r = bms_dag_state (ds_metadata s)
       \<and> btmap_ok mm \<and> btmap_ok (latest_msgs st) \<and> btmap_ok (dr_fringe_states r)
       \<and> (\<forall>h. rel_option (\<lambda>meta m. message_from_block_metadata meta mm = Some m) (bm_get store h) (bm_get mm h))
       \<and> (\<forall>meta\<in>blocks. \<not> md_validation_failed meta \<and> (\<forall>p\<in>set (md_justifications meta).
            \<exists>pm. bm_get store p = Some pm \<and> md_block_num pm < md_block_num meta))
       \<and> latest_spec (latest_msgs st) (bm_get mm) \<and> unique_seq (bm_get mm)
       \<and> (\<forall>f. bm_get (dr_fringe_states r) f =
            (if f \<in> md_fringe ` blocks then bm_get (ds_fringe_data s) (fh f) else None))
       \<and> (\<forall>f\<in>md_fringe ` blocks. bm_get (ds_fringe_data s) (fh f) \<noteq> None))"

lemma storage_ok_parent:
  assumes "storage_ok fh s" and "bm_get (bms_store (ds_metadata s)) h = Some meta"
    and "p \<in> set (md_justifications meta)"
  shows "\<exists>pm. bm_get (bms_store (ds_metadata s)) p = Some pm \<and> md_block_num pm < md_block_num meta"
proof -
  have "meta \<in> ran (bm_get (bms_store (ds_metadata s)))" using assms(2) by (rule ranI)
  moreover have "\<forall>meta\<in>ran (bm_get (bms_store (ds_metadata s))). \<forall>p\<in>set (md_justifications meta).
      \<exists>pm. bm_get (bms_store (ds_metadata s)) p = Some pm \<and> md_block_num pm < md_block_num meta"
    using assms(1) by (simp add: storage_ok_def Let_def)
  ultimately show ?thesis using assms(3) by blast
qed

subsection \<open>The order of the height map\<close>

lemma sorted_concat_buckets:
  fixes num :: "'a \<Rightarrow> int"
  assumes "sorted_wrt (<) (map fst hm)" and "\<And>n v x. (n, v) \<in> set hm \<Longrightarrow> x \<in> set v \<Longrightarrow> num x = n"
  shows "sorted (map num (concat (map snd hm)))"
  using assms
proof (induction hm)
  case (Cons e hm)
  obtain n v where e: "e = (n, v)" by (cases e)
  have v: "map num v = replicate (length v) n"
    using Cons.prems(2) e by (intro replicate_eqI) auto
  have "n < m" if "(m, w) \<in> set hm" for m w
    using that Cons.prems(1) e by force
  then have "\<forall>x\<in>set (concat (map snd hm)). n \<le> num x"
    using Cons.prems(2) by fastforce
  moreover have "sorted (map num (concat (map snd hm)))"
    by (rule Cons.IH) (use Cons.prems in auto)
  ultimately show ?case using e v by (auto simp: sorted_append)
qed simp

lemma height_order:
  assumes ok: "storage_ok fh s"
  defines "store \<equiv> bms_store (ds_metadata s)"
  defines "hs \<equiv> concat (bm_values (height_map (bms_dag_state (ds_metadata s))))"
  shows "set hs = fst ` set store"
    and "hs = P @ h # R \<Longrightarrow> bm_get store h = Some meta \<Longrightarrow> p \<in> set (md_justifications meta) \<Longrightarrow> p \<in> set P"
proof -
  let ?hm = "height_map (bms_dag_state (ds_metadata s))"
  let ?num = "\<lambda>h. md_block_num (the (bm_get store h))"
  have hash: "bm_get store h = Some meta \<Longrightarrow> md_block_hash meta = h \<and> \<not> md_validation_failed meta" for h meta
    using ok by (auto simp: storage_ok_def bms_ok_def store_def Let_def ran_def)
  have hm: "bmset_ok ?hm" "bmset_abs ?hm = height_spec (infos store)"
    using ok by (auto simp: storage_ok_def bms_ok_def indexes_def store_def Let_def)
  have d: "distinct (map fst ?hm)" using hm(1) by (simp add: bmset_ok_def btmap_ok_iff)
  have bucket: "(\<exists>v. (n, v) \<in> set ?hm \<and> x \<in> set v) \<longleftrightarrow>
      (\<exists>meta. bm_get store x = Some meta \<and> md_block_num meta = n)" for n x
  proof -
    have "(\<exists>v. (n, v) \<in> set ?hm \<and> x \<in> set v) \<longleftrightarrow> (\<exists>S. bmset_abs ?hm n = Some S \<and> x \<in> S)"
      using d by (auto simp: bmset_abs_def)
    also have "\<dots> \<longleftrightarrow> (\<exists>b\<in>infos store. \<not> bi_validation_failed b \<and> bi_block_num b = n \<and> bi_hash b = x)"
      unfolding hm(2) height_spec_Some ..
    also have "\<dots> \<longleftrightarrow> (\<exists>h meta. bm_get store h = Some meta \<and> \<not> md_validation_failed meta
        \<and> md_block_num meta = n \<and> md_block_hash meta = x)"
      by (simp add: infos_def ran_def block_metadata_to_info_def) blast
    also have "\<dots> \<longleftrightarrow> (\<exists>meta. bm_get store x = Some meta \<and> md_block_num meta = n)"
      (is "?L \<longleftrightarrow> ?R")
    proof
      assume ?L
      then obtain h meta where m: "bm_get store h = Some meta" "md_block_num meta = n" "md_block_hash meta = x"
        by blast
      then show ?R using hash [OF m(1)] by simp
    next
      assume ?R
      then obtain meta where m: "bm_get store x = Some meta" "md_block_num meta = n" by blast
      then show ?L using hash [OF m(1)] by blast
    qed
    finally show ?thesis .
  qed
  have mem: "x \<in> set hs \<longleftrightarrow> (\<exists>n v. (n, v) \<in> set ?hm \<and> x \<in> set v)" for x
    by (force simp: hs_def)
  show set_hs: "set hs = fst ` set store"
  proof (rule set_eqI)
    fix x
    have "x \<in> set hs \<longleftrightarrow> bm_get store x \<noteq> None" unfolding mem bucket by auto
    then show "x \<in> set hs \<longleftrightarrow> x \<in> fst ` set store" by (simp add: map_of_eq_None_iff)
  qed
  have sorted: "sorted (map ?num hs)"
    unfolding hs_def
  proof (rule sorted_concat_buckets)
    show "sorted_wrt (<) (map fst ?hm)" using hm(1) by (simp add: bmset_ok_def btmap_ok_def)
    show "?num x = n" if "(n, v) \<in> set ?hm" "x \<in> set v" for n v x
      using bucket [of n x] that by auto
  qed
  show "p \<in> set P" if hs: "hs = P @ h # R" and h: "bm_get store h = Some meta"
    and p: "p \<in> set (md_justifications meta)"
  proof -
    obtain pm where pm: "bm_get store p = Some pm" "md_block_num pm < md_block_num meta"
      using storage_ok_parent [OF ok h [unfolded store_def] p] unfolding store_def by blast
    have "p \<in> set hs" unfolding set_hs using map_of_SomeD [OF pm(1)] by force
    moreover have "?num h \<le> ?num x" if "x \<in> set (h # R)" for x
      using sorted that unfolding hs by (auto simp: sorted_append)
    then have "p \<notin> set (h # R)" using pm h by force
    ultimately show ?thesis unfolding hs by simp
  qed
qed

definition loaded ::
  "(block_hash btset \<Rightarrow> hash32) \<Rightarrow> dag_storage \<Rightarrow> block_hash list \<Rightarrow> (block_hash, validator) dag_message_state
   \<Rightarrow> (block_hash btset, fringe_data) btmap \<Rightarrow> bool" where
  "loaded fh s P st fs \<longleftrightarrow>
     btmap_ok (msg_map st) \<and> btmap_ok (latest_msgs st) \<and> btmap_ok fs
     \<and> bm_get (msg_map st) = bm_get (msg_map (dr_message_state (ds_representation s))) |` set P
     \<and> latest_spec (latest_msgs st) (bm_get (msg_map st))
     \<and> bm_get fs = (\<lambda>f. if f \<in> md_fringe ` ran (bm_get (bms_store (ds_metadata s)) |` set P)
          then bm_get (ds_fringe_data s) (fh f) else None)"

lemma restrict_insert_present: "x \<in> P \<Longrightarrow> f |` insert x P = f |` P"
  by (simp add: insert_absorb)

lemma ran_restrict_insert:
  assumes "f x = Some y"
  shows "ran (f |` insert x P) = insert y (ran (f |` P))"
proof (intro equalityI subsetI)
  fix z assume "z \<in> ran (f |` insert x P)"
  then show "z \<in> insert y (ran (f |` P))" using assms by (auto simp: ran_def restrict_map_def split: if_splits)
next
  fix z assume "z \<in> insert y (ran (f |` P))"
  then consider "z = y" | a where "a \<in> P" "f a = Some z"
    by (auto simp: ran_def restrict_map_def split: if_splits)
  then show "z \<in> ran (f |` insert x P)"
  proof cases
    case 1
    then have "(f |` insert x P) x = Some z" using assms by simp
    then show ?thesis by (rule ranI)
  next
    case (2 a)
    then have "(f |` insert x P) a = Some z" by simp
    then show ?thesis by (rule ranI)
  qed
qed

lemma load_messages_step:
  assumes ok: "storage_ok fh s" and l: "loaded fh s P st fs"
    and h: "bm_get (bms_store (ds_metadata s)) h = Some meta" "h \<notin> set P"
    and par: "\<And>p. p \<in> set (md_justifications meta) \<Longrightarrow> p \<in> set P"
  defines "mm \<equiv> msg_map (dr_message_state (ds_representation s))"
  shows "\<exists>msg. message_from_block_metadata meta (msg_map st) = Some msg
    \<and> loaded fh s (P @ [h]) (insert_msg st msg)
        (if bm_get fs (fringe msg) \<noteq> None then fs
         else (case bm_get (ds_fringe_data s) (fh (fringe msg)) of
             None \<Rightarrow> fs | Some fd \<Rightarrow> bm_insert (fringe msg) fd fs))"
proof -
  from ok have "rel_option (\<lambda>meta m. message_from_block_metadata meta mm = Some m)
      (bm_get (bms_store (ds_metadata s)) h) (bm_get mm h)"
    by (simp add: storage_ok_def Let_def mm_def)
  then obtain msg where msg: "bm_get mm h = Some msg" "message_from_block_metadata meta mm = Some msg"
    using h(1) by (auto simp: option_rel_Some1)
  have hash: "md_block_hash meta = h"
    using ok h(1) by (auto simp: storage_ok_def Let_def bms_ok_def)
  have st: "bm_get (msg_map st) = bm_get mm |` set P" using l by (simp add: loaded_def mm_def)
  have m: "message_from_block_metadata meta (msg_map st) = Some msg"
    using message_from_cong [of meta "msg_map st" mm] par msg(2) st by simp
  have f: "msg_id msg = h" "fringe msg = md_fringe meta"
    using message_from_fields [OF msg(2)] hash by auto
  have fresh: "bm_get (msg_map st) h = None" using st h(2) by simp
  have ins: "msg_map (insert_msg st msg) = bm_insert h msg (msg_map st)"
      "latest_msgs (insert_msg st msg) = promote_latest msg (latest_msgs st)"
    using fresh f(1) by (simp_all add: insert_msg_def)
  have get: "bm_get (bm_insert h msg (msg_map st)) = bm_get mm |` set (P @ [h])"
    using st msg(1) by (auto simp: fun_eq_iff restrict_map_def)
  have lat: "latest_spec (promote_latest msg (latest_msgs st)) (bm_get (bm_insert h msg (msg_map st)))"
    unfolding bm_get_insert
    by (rule latest_spec_promote) (use l fresh in \<open>unfold loaded_def, blast+\<close>)
  let ?fs = "if bm_get fs (fringe msg) \<noteq> None then fs
         else (case bm_get (ds_fringe_data s) (fh (fringe msg)) of
             None \<Rightarrow> fs | Some fd \<Rightarrow> bm_insert (fringe msg) fd fs)"
  have fd: "bm_get (ds_fringe_data s) (fh (md_fringe meta)) \<noteq> None"
    using ok h(1) by (auto simp: storage_ok_def Let_def ran_def)
  have fs: "bm_get fs = (\<lambda>f. if f \<in> md_fringe ` ran (bm_get (bms_store (ds_metadata s)) |` set P)
      then bm_get (ds_fringe_data s) (fh f) else None)"
    using l by (simp add: loaded_def)
  have rn: "md_fringe ` ran (bm_get (bms_store (ds_metadata s)) |` set (P @ [h]))
      = insert (md_fringe meta) (md_fringe ` ran (bm_get (bms_store (ds_metadata s)) |` set P))"
    using ran_restrict_insert [of "bm_get (bms_store (ds_metadata s))", OF h(1), of "set P"] by simp
  have "bm_get ?fs = (\<lambda>f. if f \<in> md_fringe ` ran (bm_get (bms_store (ds_metadata s)) |` set (P @ [h]))
      then bm_get (ds_fringe_data s) (fh f) else None)"
    unfolding rn using fd f(2) by (auto simp: fs fun_eq_iff split: option.splits)
  moreover have "btmap_ok ?fs" using l by (auto simp: loaded_def split: option.splits)
  ultimately have "loaded fh s (P @ [h]) (insert_msg st msg) ?fs"
    using l get lat ins by (simp add: loaded_def mm_def)
  then show ?thesis using m by blast
qed

lemma load_messages_ok:
  assumes ok: "storage_ok fh s" and l: "loaded fh s P st fs"
    and hs: "concat (bm_values (height_map (bms_dag_state (ds_metadata s)))) = P @ R"
  shows "\<exists>st' fs'. load_messages fh (ds_metadata s) (ds_fringe_data s) R st fs = Inr (st', fs')
    \<and> loaded fh s (P @ R) st' fs'"
  using l hs
proof (induction R arbitrary: P st fs)
  case (Cons h R)
  have hs: "concat (bm_values (height_map (bms_dag_state (ds_metadata s)))) = P @ h # R"
    using Cons.prems(2) by simp
  have st: "bm_get (msg_map st) = bm_get (msg_map (dr_message_state (ds_representation s))) |` set P"
    using Cons.prems(1) unfolding loaded_def by blast
  have "h \<in> fst ` set (bms_store (ds_metadata s))"
    using height_order(1) [OF ok] unfolding hs by auto
  then obtain meta where meta: "bm_get (bms_store (ds_metadata s)) h = Some meta"
    by (metis dom_bm_get domD)
  have rel: "rel_option (\<lambda>meta m. message_from_block_metadata meta
      (msg_map (dr_message_state (ds_representation s))) = Some m)
      (bm_get (bms_store (ds_metadata s)) h) (bm_get (msg_map (dr_message_state (ds_representation s))) h)"
    using ok by (simp add: storage_ok_def Let_def)
  show ?case
  proof (cases "h \<in> set P")
    case True
    then have "bm_get (msg_map st) h \<noteq> None" using rel meta st by (auto simp: option_rel_Some1)
    moreover have "set (P @ [h]) = set P" using True by auto
    then have "loaded fh s (P @ [h]) st fs" using Cons.prems(1) unfolding loaded_def by metis
    ultimately show ?thesis using Cons.IH [of "P @ [h]" st fs] hs by simp
  next
    case False
    have par: "\<And>p. p \<in> set (md_justifications meta) \<Longrightarrow> p \<in> set P"
      using height_order(2) [OF ok hs meta] by blast
    obtain msg where msg: "message_from_block_metadata meta (msg_map st) = Some msg"
      "loaded fh s (P @ [h]) (insert_msg st msg)
        (if bm_get fs (fringe msg) \<noteq> None then fs
         else (case bm_get (ds_fringe_data s) (fh (fringe msg)) of
             None \<Rightarrow> fs | Some fd \<Rightarrow> bm_insert (fringe msg) fd fs))"
      using load_messages_step [OF ok Cons.prems(1) meta False par] by blast
    have "bm_get (msg_map st) h = None" using st False by simp
    then show ?thesis
      using Cons.IH [OF msg(2)] hs msg(1) meta by (simp add: bms_get_unchecked_def bms_get_def)
  qed
qed simp

lemma restrict_dom_subset: "dom f \<subseteq> A \<Longrightarrow> f |` A = f"
  by (rule ext) (metis domIff restrict_in restrict_out subsetD)

lemma storage_create_ok:
  assumes ok: "storage_ok fh s"
  shows "storage_create fh (ds_metadata s) (ds_fringe_data s) (ds_deploy_index s) (ds_deploy_store s) = Inr s"
proof -
  let ?hs = "concat (bm_values (height_map (bms_dag_state (ds_metadata s))))"
  let ?r = "ds_representation s"
  let ?st = "dr_message_state ?r"
  have "loaded fh s [] empty_state []"
    by (simp add: loaded_def empty_state_def latest_spec_empty fun_eq_iff)
  then obtain st fs where l: "load_messages fh (ds_metadata s) (ds_fringe_data s) ?hs empty_state [] = Inr (st, fs)"
      "loaded fh s ?hs st fs"
    using load_messages_ok [OF ok, of "[]" empty_state "[]" ?hs] by auto
  have set_hs: "set ?hs = fst ` set (bms_store (ds_metadata s))" by (rule height_order(1) [OF ok])
  have rel: "rel_option (\<lambda>meta m. message_from_block_metadata meta (msg_map ?st) = Some m)
      (bm_get (bms_store (ds_metadata s)) h) (bm_get (msg_map ?st) h)" for h
    using ok by (simp add: storage_ok_def Let_def)
  have sub: "dom (bm_get (msg_map ?st)) \<subseteq> set ?hs"
  proof
    fix h assume "h \<in> dom (bm_get (msg_map ?st))"
    then obtain m where m: "bm_get (msg_map ?st) h = Some m" by blast
    then have "bm_get (bms_store (ds_metadata s)) h \<noteq> None" using rel [of h] by (auto simp: option_rel_Some2)
    then show "h \<in> set ?hs" unfolding set_hs by (simp add: map_of_eq_None_iff)
  qed
  have "bm_get (msg_map st) = bm_get (msg_map ?st) |` set ?hs"
    using l(2) unfolding loaded_def by blast
  then have mm: "bm_get (msg_map st) = bm_get (msg_map ?st)"
    by (simp only: restrict_dom_subset [OF sub])
  have wf: "btmap_ok (msg_map st)" "btmap_ok (latest_msgs st)" "btmap_ok fs"
    using l(2) unfolding loaded_def by blast+
  have ok': "btmap_ok (msg_map ?st)" "btmap_ok (latest_msgs ?st)" "btmap_ok (dr_fringe_states ?r)"
      "latest_spec (latest_msgs ?st) (bm_get (msg_map ?st))" "unique_seq (bm_get (msg_map ?st))"
      "dr_dag ?r = bms_dag_state (ds_metadata s)"
    using ok unfolding storage_ok_def Let_def by blast+
  have 1: "msg_map st = msg_map ?st" by (rule btmap_eqI [OF wf(1) ok'(1) mm])
  have "latest_spec (latest_msgs st) (bm_get (msg_map st))" using l(2) unfolding loaded_def by blast
  then have "latest_spec (latest_msgs st) (bm_get (msg_map ?st))" by (simp only: mm)
  then have 2: "latest_msgs st = latest_msgs ?st"
    using latest_spec_unique [OF _ ok'(4,5) wf(2) ok'(2)] by blast
  have full: "bm_get (bms_store (ds_metadata s)) |` set ?hs = bm_get (bms_store (ds_metadata s))"
    unfolding set_hs by (rule restrict_dom_subset) simp
  have "bm_get fs = (\<lambda>f. if f \<in> md_fringe ` ran (bm_get (bms_store (ds_metadata s)) |` set ?hs)
      then bm_get (ds_fringe_data s) (fh f) else None)"
    using l(2) unfolding loaded_def by blast
  moreover have "bm_get (dr_fringe_states ?r) f = (if f \<in> md_fringe ` ran (bm_get (bms_store (ds_metadata s)))
      then bm_get (ds_fringe_data s) (fh f) else None)" for f
    using ok unfolding storage_ok_def Let_def by blast
  ultimately have "bm_get fs = bm_get (dr_fringe_states ?r)"
    unfolding full by (intro ext) simp
  then have 3: "fs = dr_fringe_states ?r" by (rule btmap_eqI [OF wf(3) ok'(3)])
  have "st = ?st" using 1 2 by (rule_tac dag_message_state.equality) auto
  moreover have "\<lparr>dr_dag = bms_dag_state (ds_metadata s), dr_message_state = ?st, dr_fringe_states = fs\<rparr> = ?r"
    using 3 ok'(6) by (intro dag_representation.equality) auto
  ultimately show ?thesis
    using l(1) by (simp add: storage_create_def)
qed

subsection \<open>Insertion keeps the invariant\<close>

lemma same_blocks_get:
  assumes "same_blocks s t" and "bm_get s h = Some a"
  shows "\<exists>b. bm_get t h = Some b \<and> same_block a b"
proof -
  have "rel_option same_block (bm_get s h) (bm_get t h)" using assms(1) by (simp add: same_blocks_def)
  then show ?thesis using assms(2) by (auto simp: option_rel_Some1)
qed

lemma same_blocks_get':
  assumes "same_blocks s t" and "bm_get t h = Some b"
  shows "\<exists>a. bm_get s h = Some a \<and> same_block a b"
proof -
  have "rel_option same_block (bm_get s h) (bm_get t h)" using assms(1) by (simp add: same_blocks_def)
  then show ?thesis using assms(2) by (auto simp: option_rel_Some2)
qed

lemma same_blocks_fringes:
  assumes "same_blocks s t" shows "md_fringe ` ran (bm_get s) = md_fringe ` ran (bm_get t)"
proof (intro equalityI subsetI)
  fix f assume "f \<in> md_fringe ` ran (bm_get s)"
  then obtain h a where a: "bm_get s h = Some a" "f = md_fringe a" by (auto simp: ran_def)
  from same_blocks_get [OF assms a(1)] obtain b where "bm_get t h = Some b" "same_block a b" by blast
  then show "f \<in> md_fringe ` ran (bm_get t)" using a(2) same_blockD(2) ranI by (metis imageI)
next
  fix f assume "f \<in> md_fringe ` ran (bm_get t)"
  then obtain h b where b: "bm_get t h = Some b" "f = md_fringe b" by (auto simp: ran_def)
  from same_blocks_get' [OF assms b(1)] obtain a where "bm_get s h = Some a" "same_block a b" by blast
  then show "f \<in> md_fringe ` ran (bm_get s)" using b(2) same_blockD(2) ranI by (metis imageI)
qed

lemma message_from_insert:
  assumes "message_from_block_metadata a mm = Some m" and "bm_get mm h = None"
  shows "message_from_block_metadata a (bm_insert h x mm) = Some m"
proof -
  have "bm_get (bm_insert h x mm) p = bm_get mm p" if "p \<in> set (md_justifications a)" for p
    using message_from_fields(6) [OF assms(1) that] assms(2) by auto
  then show ?thesis using message_from_cong [of a "bm_insert h x mm" mm] assms(1) by simp
qed

lemma unique_seq_insert:
  assumes "unique_seq f" and "f h = None"
    and "\<forall>m'\<in>ran f. \<not> (sender m' = sender m \<and> sender_seq m' = sender_seq m)"
  shows "unique_seq (f(h \<mapsto> m))"
  using assms(1,3) unfolding unique_seq_def ran_map_upd [of f h, OF assms(2)] by auto

text \<open>A block that may join the valid blocks: it builds on lower stored blocks, and its fringe does not
  share a digest with another fringe.\<close>

definition insertable :: "(block_hash btset \<Rightarrow> hash32) \<Rightarrow> block_metadata \<Rightarrow> dag_storage \<Rightarrow> bool" where
  "insertable fh meta s \<longleftrightarrow> \<not> md_validation_failed meta
     \<and> list_all (\<lambda>p. case bm_get (bms_store (ds_metadata s)) p of None \<Rightarrow> False
         | Some pm \<Rightarrow> md_block_num pm < md_block_num meta) (md_justifications meta)
     \<and> list_all (\<lambda>(_, m). fh (md_fringe m) = fh (md_fringe meta) \<longrightarrow> md_fringe m = md_fringe meta)
         (bms_store (ds_metadata s))"

lemma storage_ok_insert:
  assumes ok: "storage_ok fh s" and ins: "insertable fh meta s"
    and new: "bm_get (bms_store (ds_metadata s)) (md_block_hash meta) = None"
    and ne: "\<not> equivocating meta s"
    and ms2: "bms_ok (ds_metadata s')"
      "same_blocks (bms_store (ds_metadata s')) (bm_insert (md_block_hash meta) meta (bms_store (ds_metadata s)))"
    and msg: "message_from_block_metadata meta (msg_map (dr_message_state (ds_representation s))) = Some msg"
    and r': "ds_representation s' = \<lparr>dr_dag = bms_dag_state (ds_metadata s'),
        dr_message_state = insert_msg (dr_message_state (ds_representation s)) msg,
        dr_fringe_states = bm_insert (md_fringe meta) fd (dr_fringe_states (ds_representation s))\<rparr>"
    and fd': "ds_fringe_data s' = bm_insert (fh (md_fringe meta)) fd (ds_fringe_data s)"
  shows "storage_ok fh s'"
proof -
  let ?h = "md_block_hash meta"
  let ?store = "bms_store (ds_metadata s)" and ?store' = "bms_store (ds_metadata s')"
  let ?st = "dr_message_state (ds_representation s)"
  let ?mm = "msg_map ?st" and ?fs = "dr_fringe_states (ds_representation s)"
  have o: "btmap_ok ?mm" "btmap_ok (latest_msgs ?st)" "btmap_ok ?fs"
      "latest_spec (latest_msgs ?st) (bm_get ?mm)" "unique_seq (bm_get ?mm)"
    using ok unfolding storage_ok_def Let_def by blast+
  have rel: "rel_option (\<lambda>meta m. message_from_block_metadata meta ?mm = Some m) (bm_get ?store h) (bm_get ?mm h)" for h
    using ok unfolding storage_ok_def Let_def by blast
  have fresh: "bm_get ?mm ?h = None" using rel [of ?h] new by simp
  have id: "msg_id msg = ?h" "sender msg = md_sender meta" "sender_seq msg = md_seq_num meta"
    using message_from_fields [OF msg] by auto
  have st': "msg_map (insert_msg ?st msg) = bm_insert ?h msg ?mm"
      "latest_msgs (insert_msg ?st msg) = promote_latest msg (latest_msgs ?st)"
    using fresh id(1) by (simp_all add: insert_msg_def)
  let ?mm' = "bm_insert ?h msg ?mm"
  have rel': "rel_option (\<lambda>meta m. message_from_block_metadata meta ?mm' = Some m) (bm_get ?store' h) (bm_get ?mm' h)" for h
  proof (cases "h = ?h")
    case True
    then obtain a where "bm_get ?store' h = Some a" "same_block a meta"
      using same_blocks_get' [OF ms2(2), of h meta] by auto
    then show ?thesis
      using True message_from_insert [OF msg fresh, of msg] same_blockD(7) [of a meta ?mm'] by simp
  next
    case False
    have sb: "rel_option same_block (bm_get ?store' h) (bm_get ?store h)"
      using ms2(2) False unfolding same_blocks_def by (metis bm_get_insert fun_upd_other)
    show ?thesis
    proof (cases "bm_get ?store' h")
      case None
      then have "bm_get ?store h = None" using sb by simp
      then show ?thesis using None rel [of h] False by simp
    next
      case (Some a)
      then obtain b where b: "bm_get ?store h = Some b" "same_block a b" using sb by (auto simp: option_rel_Some1)
      then obtain m where m: "bm_get ?mm h = Some m" "message_from_block_metadata b ?mm = Some m"
        using rel [of h] by (auto simp: option_rel_Some1)
      have "message_from_block_metadata a ?mm' = Some m"
        using message_from_insert [OF m(2) fresh, of msg] same_blockD(7) [OF b(2), of ?mm'] by simp
      then show ?thesis using Some m(1) False by simp
    qed
  qed
  have blocks: "\<not> md_validation_failed a \<and> (\<forall>p\<in>set (md_justifications a).
      \<exists>pm. bm_get ?store' p = Some pm \<and> md_block_num pm < md_block_num a)" if "a \<in> ran (bm_get ?store')" for a
  proof -
    from that obtain h where "bm_get ?store' h = Some a" by (auto simp: ran_def)
    from same_blocks_get [OF ms2(2) this] obtain b where
      b: "bm_get (bm_insert ?h meta ?store) h = Some b" "same_block a b" by blast
    have stored: "\<exists>pm. bm_get ?store' p = Some pm \<and> md_block_num pm < n"
      if p: "bm_get ?store p = Some q" "md_block_num q < n" for p q n
    proof -
      have "p \<noteq> ?h" using p(1) new by auto
      then have "bm_get (bm_insert ?h meta ?store) p = Some q" using p(1) by simp
      from same_blocks_get' [OF ms2(2) this] show ?thesis using p(2) same_blockD(6) by metis
    qed
    have "b = meta \<or> bm_get ?store h = Some b" using b(1) by (cases "h = ?h") simp_all
    then have "\<not> md_validation_failed b \<and> (\<forall>p\<in>set (md_justifications b).
        \<exists>q. bm_get ?store p = Some q \<and> md_block_num q < md_block_num b)"
    proof (elim disjE)
      assume "b = meta"
      then show ?thesis using ins by (auto simp: insertable_def list_all_iff split: option.splits)
    next
      assume 2: "bm_get ?store h = Some b"
      have "\<not> md_validation_failed b" using ok ranI [of "bm_get ?store", OF 2]
        unfolding storage_ok_def Let_def by blast
      then show ?thesis using storage_ok_parent [OF ok 2] by blast
    qed
    then show ?thesis using stored same_blockD(4,5,6) [OF b(2)] by metis
  qed
  have fringes: "md_fringe ` ran (bm_get ?store') = insert (md_fringe meta) (md_fringe ` ran (bm_get ?store))"
    unfolding same_blocks_fringes [OF ms2(2)] bm_get_insert by (simp add: ran_map_upd new)
  have coll: "f = md_fringe meta" if "f \<in> md_fringe ` ran (bm_get ?store)" "fh f = fh (md_fringe meta)" for f
    using that ins by (force simp: insertable_def list_all_iff ran_def dest: map_of_SomeD)
  have fsok: "bm_get ?fs f = (if f \<in> md_fringe ` ran (bm_get ?store) then bm_get (ds_fringe_data s) (fh f) else None)" for f
    using ok unfolding storage_ok_def Let_def by blast
  have fdok: "bm_get (ds_fringe_data s) (fh f) \<noteq> None" if "f \<in> md_fringe ` ran (bm_get ?store)" for f
    using ok that unfolding storage_ok_def Let_def by blast
  have f1: "bm_get (bm_insert (md_fringe meta) fd ?fs) f = (if f \<in> md_fringe ` ran (bm_get ?store')
      then bm_get (ds_fringe_data s') (fh f) else None)" for f
    unfolding fringes fd' using fsok [of f] coll [of f] by (cases "f = md_fringe meta") auto
  have f2: "bm_get (ds_fringe_data s') (fh f) \<noteq> None" if "f \<in> md_fringe ` ran (bm_get ?store')" for f
    using that fdok unfolding fringes fd' by auto
  have "\<forall>m'\<in>ran (bm_get ?mm). \<not> (sender m' = sender msg \<and> sender_seq m' = sender_seq msg)"
  proof
    fix m' assume "m' \<in> ran (bm_get ?mm)"
    then obtain a where "bm_get ?mm a = Some m'" by (auto simp: ran_def)
    then have "m' \<in> set (bm_values ?mm)" using map_of_SomeD by force
    then show "\<not> (sender m' = sender msg \<and> sender_seq m' = sender_seq msg)"
      using ne id(2,3) unfolding equivocating_def list_ex_iff by auto
  qed
  then have "unique_seq (bm_get ?mm')"
    unfolding bm_get_insert by (intro unique_seq_insert o(5) fresh)
  moreover have "latest_spec (promote_latest msg (latest_msgs ?st)) (bm_get ?mm')"
    unfolding bm_get_insert by (rule latest_spec_promote) (use o(4) fresh in blast)+
  ultimately show ?thesis
    using ms2(1) rel' blocks f1 f2 o st' by (simp add: storage_ok_def Let_def r')
qed

lemma bms_contains_iff:
  assumes "bms_ok ms" shows "bms_contains h ms \<longleftrightarrow> bm_get (bms_store ms) h \<noteq> None"
proof -
  have "set (dag_set (bms_dag_state ms)) = bi_hash ` infos (bms_store ms)"
    using assms by (simp add: bms_ok_def indexes_def)
  also have "\<dots> = md_block_hash ` ran (bm_get (bms_store ms))"
    by (simp add: infos_def image_image block_metadata_to_info_def)
  finally have set: "set (dag_set (bms_dag_state ms)) = md_block_hash ` ran (bm_get (bms_store ms))" .
  have hash: "md_block_hash m = x" if "bm_get (bms_store ms) x = Some m" for x m
    using that assms by (simp add: bms_ok_def)
  show ?thesis
  proof
    assume "bms_contains h ms"
    then obtain m x where "bm_get (bms_store ms) x = Some m" "md_block_hash m = h"
      unfolding bms_contains_def set ran_def by blast
    then show "bm_get (bms_store ms) h \<noteq> None" using hash by auto
  next
    assume "bm_get (bms_store ms) h \<noteq> None"
    then obtain m where "bm_get (bms_store ms) h = Some m" by blast
    then show "bms_contains h ms" unfolding bms_contains_def set ran_def using hash by blast
  qed
qed

lemma storage_insert_Inr:
  assumes ins: "storage_insert fh meta block s = (s', Inr pr)"
    and new: "\<not> bms_contains (md_block_hash meta) (ds_metadata s)"
  shows "\<not> equivocating meta s \<and> (\<exists>ms1 ms2 diff fd msg.
      bms_add meta (ds_metadata s) = (ms1, Inr ())
    \<and> fringe_diff_of meta (dr_message_state (ds_representation s)) = Inr diff
    \<and> mark_finalized (fh (md_fringe meta)) diff ms1 = (ms2, Inr ())
    \<and> message_from_block_metadata meta (msg_map (dr_message_state (ds_representation s))) = Some msg
    \<and> ds_metadata s' = ms2
    \<and> ds_fringe_data s' = bm_insert (fh (md_fringe meta)) fd (ds_fringe_data s)
    \<and> ds_representation s' = \<lparr>dr_dag = bms_dag_state ms2,
        dr_message_state = (if md_validation_failed meta
          then insert_msg_without_latest (dr_message_state (ds_representation s)) msg
          else insert_msg (dr_message_state (ds_representation s)) msg),
        dr_fringe_states = bm_insert (md_fringe meta) fd (dr_fringe_states (ds_representation s))\<rparr>
    \<and> ds_deploy_index s' = ds_deploy_index (index_deploys block s)
    \<and> ds_deploy_store s' = ds_deploy_store
        (expire_deploys (latest_block_number (ds_representation s')) (index_deploys block s)))"
  using assms
  by (auto simp: storage_insert_def Let_def index_deploys_def record_message_def expire_deploys_def
      message_from_fields split: if_splits prod.splits sum.splits option.splits)

lemma storage_insert_ok:
  assumes ok: "storage_ok fh s" and ins: "insertable fh meta s"
    and si: "storage_insert fh meta block s = (s', Inr pr)"
  shows "storage_ok fh s'"
proof (cases "bms_contains (md_block_hash meta) (ds_metadata s)")
  case True
  then show ?thesis using si ok by (simp add: storage_insert_def)
next
  case False
  have bok: "bms_ok (ds_metadata s)" using ok by (simp add: storage_ok_def Let_def)
  have new: "bm_get (bms_store (ds_metadata s)) (md_block_hash meta) = None"
    using False bms_contains_iff [OF bok] by simp
  obtain ms1 ms2 diff fd msg where
    d: "bms_add meta (ds_metadata s) = (ms1, Inr ())"
      "mark_finalized (fh (md_fringe meta)) diff ms1 = (ms2, Inr ())"
      "message_from_block_metadata meta (msg_map (dr_message_state (ds_representation s))) = Some msg"
      "ds_metadata s' = ms2"
      "ds_fringe_data s' = bm_insert (fh (md_fringe meta)) fd (ds_fringe_data s)"
      "ds_representation s' = \<lparr>dr_dag = bms_dag_state ms2,
        dr_message_state = (if md_validation_failed meta
          then insert_msg_without_latest (dr_message_state (ds_representation s)) msg
          else insert_msg (dr_message_state (ds_representation s)) msg),
        dr_fringe_states = bm_insert (md_fringe meta) fd (dr_fringe_states (ds_representation s))\<rparr>"
      and ne: "\<not> equivocating meta s"
    using storage_insert_Inr [OF si False] by blast
  have "\<not> md_validation_failed meta" using ins by (simp add: insertable_def)
  have 1: "bms_ok ms1 \<and> bms_store ms1 = bm_insert (md_block_hash meta) meta (bms_store (ds_metadata s))"
    using bms_add_ok [OF bok d(1)] new by (simp add: bms_get_def)
  then have 2: "bms_ok ms2 \<and> same_blocks (bms_store ms2) (bms_store ms1)"
    using mark_finalized_ok [OF d(2)] by blast
  show ?thesis
    by (rule storage_ok_insert [OF ok ins new ne _ _ d(3) _ d(5)])
      (use 1 2 d(4,6) \<open>\<not> md_validation_failed meta\<close> in auto)
qed

definition storage_empty :: dag_storage where
  "storage_empty = \<lparr>ds_representation = \<lparr>dr_dag = dag_state_empty, dr_message_state = empty_state,
      dr_fringe_states = []\<rparr>,
    ds_metadata = \<lparr>bms_store = [], bms_dag_state = dag_state_empty\<rparr>,
    ds_fringe_data = [], ds_deploy_index = [], ds_deploy_store = []\<rparr>"

inductive storage_reachable :: "(block_hash btset \<Rightarrow> hash32) \<Rightarrow> dag_storage \<Rightarrow> bool"
  for fh where
  st_empty: "storage_reachable fh storage_empty"
| st_insert: "storage_reachable fh s \<Longrightarrow> insertable fh meta s \<Longrightarrow>
    storage_insert fh meta block s = (s', Inr pr) \<Longrightarrow> storage_reachable fh s'"
| st_deploy: "storage_reachable fh s \<Longrightarrow> add_deploy d s = (s', r) \<Longrightarrow> storage_reachable fh s'"

lemma storage_ok_cong:
  "ds_metadata s' = ds_metadata s \<Longrightarrow> ds_representation s' = ds_representation s \<Longrightarrow>
   ds_fringe_data s' = ds_fringe_data s \<Longrightarrow> storage_ok fh s' = storage_ok fh s"
  by (simp add: storage_ok_def)

lemma storage_reachable_ok: "storage_reachable fh s \<Longrightarrow> storage_ok fh s"
proof (induction rule: storage_reachable.induct)
  case st_empty
  then show ?case
    using bms_ok_empty
    by (simp add: storage_ok_def storage_empty_def empty_state_def latest_spec_empty unique_seq_def)
next
  case (st_insert s meta block s' pr)
  then show ?case using storage_insert_ok by blast
next
  case (st_deploy s d s' r)
  then have "ds_metadata s' = ds_metadata s" "ds_representation s' = ds_representation s"
      "ds_fringe_data s' = ds_fringe_data s"
    by (auto simp: add_deploy_def split: if_splits)
  then show ?case using st_deploy.IH storage_ok_cong by blast
qed

section \<open>Properties\<close>

text \<open>
  C5: a restart restores the storage. For every storage a node reaches by inserting valid blocks and
  pooling deploys, rebuilding the metadata index and the DAG representation from the persisted stores
  succeeds and yields exactly the state the node had in memory.
\<close>

theorem restart_restores_storage:
  assumes "storage_reachable fh s"
  shows "bms_create (bms_store (ds_metadata s)) = Inr (ds_metadata s) \<and>
    storage_create fh (ds_metadata s) (ds_fringe_data s) (ds_deploy_index s) (ds_deploy_store s) = Inr s"
proof -
  have ok: "storage_ok fh s" by (rule storage_reachable_ok [OF assms])
  then have "bms_ok (ds_metadata s)" by (simp add: storage_ok_def Let_def)
  then show ?thesis using bms_create_ok storage_create_ok [OF ok] by blast
qed

text \<open>
  C26: the index is accepted exactly when the heights of its valid blocks are an interval without holes.
\<close>

theorem validate_dag_state_contiguous:
  assumes "bmset_ok (height_map st)" and "heights_in_range st"
  shows "validate_dag_state st = Inr () \<longleftrightarrow> (\<exists>lo hi. fst ` set (height_map st) = {lo..<hi})"
  using validate_contiguous assms by (simp add: bmset_ok_btmap)


section \<open>Witnesses\<close>

definition ex_meta :: "block_hash \<Rightarrow> block_hash list \<Rightarrow> int \<Rightarrow> validator \<Rightarrow> int \<Rightarrow> block_metadata" where
  "ex_meta h ps n s q = \<lparr>md_block_hash = h, md_block_num = n, md_sender = s, md_seq_num = q,
     md_justifications = ps, md_bonds_map = [], md_validated = True, md_validation_failed = False,
     md_fringe = [], md_fringe_state_hash = [], md_member_of_fringe = None\<rparr>"

definition ex_signed :: "deploy_id \<Rightarrow> signed_deploy" where
  "ex_signed sig = \<lparr>sd_data = \<lparr>dd_term = ''Nil'', dd_timestamp = 0, dd_phlo_price = 1, dd_phlo_limit = 1,
     dd_valid_after_block_number = 0, dd_shard_id = ''root''\<rparr>, sd_deployer = [1], sd_sig = sig,
     sd_sig_algorithm = ''secp256k1''\<rparr>"

definition ex_block :: "block_hash \<Rightarrow> deploy_id list \<Rightarrow> block_message" where
  "ex_block h sigs = \<lparr>b_version = 1, b_shard_id = ''root'', b_block_hash = h, b_block_number = 0,
     b_sender = [9], b_seq_num = 0, b_pre_state_hash = [], b_post_state_hash = [], b_justifications = [],
     b_bonds = [], b_rejected_deploys = [], b_rejected_blocks = [], b_rejected_senders = [],
     b_state = \<lparr>rs_deploys = map (\<lambda>i. \<lparr>pd_deploy = ex_signed i, pd_cost = 0, pd_deploy_log = [],
       pd_is_failed = False, pd_system_deploy_error = None\<rparr>) sigs, rs_system_deploys = []\<rparr>,
     b_sig_algorithm = ''secp256k1'', b_sig = []\<rparr>"

definition ex_fh :: "block_hash btset \<Rightarrow> hash32" where "ex_fh f = concat f"

definition ex_s0 :: dag_storage where "ex_s0 = fst (add_deploy (ex_signed [7]) storage_empty)"

definition ex_s1 :: dag_storage where
  "ex_s1 = fst (storage_insert ex_fh (ex_meta [1] [] 0 [9] 0) (ex_block [1] [[7]]) ex_s0)"

lemma ex_s0_reachable: "storage_reachable ex_fh ex_s0"
  unfolding ex_s0_def by (rule st_deploy [OF st_empty, of "ex_signed [7]" _ "snd (add_deploy (ex_signed [7]) storage_empty)"]) simp

lemma ex_insertable: "insertable ex_fh (ex_meta [1] [] 0 [9] 0) ex_s0"
  by code_simp

lemma ex_insert: "storage_insert ex_fh (ex_meta [1] [] 0 [9] 0) (ex_block [1] [[7]]) ex_s0 = (ex_s1, Inr [])"
proof -
  have "snd (storage_insert ex_fh (ex_meta [1] [] 0 [9] 0) (ex_block [1] [[7]]) ex_s0) = Inr []" by code_simp
  then show ?thesis unfolding ex_s1_def by (simp add: prod_eq_iff)
qed

theorem restart_restores_storage_witness:
  "storage_reachable ex_fh ex_s1 \<and> bms_contains [1] (ds_metadata ex_s1)
   \<and> storage_create ex_fh (ds_metadata ex_s1) (ds_fringe_data ex_s1) (ds_deploy_index ex_s1)
      (ds_deploy_store ex_s1) = Inr ex_s1"
proof -
  have r: "storage_reachable ex_fh ex_s1"
    by (rule st_insert [OF ex_s0_reachable ex_insertable ex_insert])
  have "bms_contains [1] (ds_metadata ex_s1)" by code_simp
  then show ?thesis using r restart_restores_storage [OF r] by blast
qed

theorem validate_dag_state_contiguous_witness:
  "bmset_ok (height_map \<lparr>dag_set = [], child_map = [], height_map = [(3, [[1]]), (5, [[2]])]\<rparr>)
   \<and> \<not> (\<exists>lo hi. {3, 5 :: int} = {lo..<hi})"
proof -
  let ?st = "\<lparr>dag_set = [], child_map = [], height_map = [(3, [[1 :: byte]]), (5, [[2]])]\<rparr>"
  have o: "bmset_ok (height_map ?st)" by (auto simp: bmset_ok_def btmap_ok_def split: if_splits)
  have h: "heights_in_range ?st" by (simp add: heights_in_range_def i64_MAX_def)
  have "validate_dag_state ?st \<noteq> Inr ()" by code_simp
  then show ?thesis using o validate_dag_state_contiguous [OF o h] by simp
qed


subsection \<open>Findings\<close>



end
