(* ===== verification/Radix_Tree.thy ===== *)
theory Radix_Tree
  imports Refined
begin

text \<open>
  The content-addressed radix trie of the history (\<^verbatim>\<open>rspace/src/history/key_segment.rs\<close>,
  \<^verbatim>\<open>history_action.rs\<close>, \<^verbatim>\<open>radix_tree.rs\<close> and \<^verbatim>\<open>instances/radix_history.rs\<close>).

  A node is the list of its 256 slots, a slot is empty, a leaf or a pointer, and a pointer is the
  digest of the encoding of the node it points to. The digest is a parameter \<open>dg\<close>. The tree itself
  is the persistent store of encoded nodes with a read cache and a write cache; every operation
  returns the state of the tree with its outcome, and the assertions and the indexing of the code
  are outcomes of type \<open>rt_panic\<close>. The theorems relate (in \<open>Radix_Map\<close>) a history to the finite map from keys to
  hashes that it holds: batches of actions update that map, they fail only when the digest
  collides, and equal maps have equal roots.
\<close>

section \<open>Key segments and actions\<close>

type_synonym key_segment = bytes

text \<open>\<^verbatim>\<open>KeySegment::try_from\<close>; the error carries the length.\<close>

definition key_segment_try_from :: "bytes \<Rightarrow> nat + key_segment" where
  "key_segment_try_from v = (if length v \<le> 127 then Inr v else Inl (length v))"

fun common_prefix :: "key_segment \<Rightarrow> key_segment \<Rightarrow> key_segment \<times> key_segment \<times> key_segment" where
  "common_prefix (a # as) (b # bs) =
     (if a = b then let (p, ra, rb) = common_prefix as bs in (a # p, ra, rb)
      else ([], a # as, b # bs))"
| "common_prefix as bs = ([], as, bs)"

datatype history_action = Insert key_segment hash32 | Delete key_segment

fun action_key :: "history_action \<Rightarrow> key_segment" where
  "action_key (Insert k h) = k"
| "action_key (Delete k) = k"

fun action_trim :: "history_action \<Rightarrow> history_action" where
  "action_trim (Insert k h) = Insert (tl k) h"
| "action_trim (Delete k) = Delete (tl k)"

section \<open>Nodes and their encoding\<close>

definition NUM_ITEMS :: nat where "NUM_ITEMS = 256"

datatype item = Empty | Leaf key_segment hash32 | NodePtr key_segment hash32

type_synonym node = "item list"

definition empty_node :: node where
  "empty_node = replicate NUM_ITEMS Empty"

text \<open>The header byte of a record: seven bits of prefix length, the top bit marks a pointer.\<close>

fun encode_item :: "nat \<Rightarrow> item \<Rightarrow> bytes" where
  "encode_item idx Empty = []"
| "encode_item idx (Leaf p v) = of_nat idx # of_nat (length p mod 128) # p @ v"
| "encode_item idx (NodePtr p ptr) = of_nat idx # of_nat (128 + length p mod 128) # p @ ptr"

definition encode :: "node \<Rightarrow> bytes" where
  "encode n = concat (map (\<lambda>(idx, it). encode_item idx it) (enumerate 0 n))"

datatype node_error = TruncatedHeader | DuplicateIndex nat | TruncatedPrefix | TruncatedValue

text \<open>
  \<^verbatim>\<open>SerializedNode::try_from\<close>: the loop over the records, on the bytes that are left. \<open>seen\<close> are the
  slot indices already met.
\<close>

function validate_records :: "nat list \<Rightarrow> bytes \<Rightarrow> node_error option" where
  "validate_records seen bs =
     (if bs = [] then None
      else if length bs < 2 then Some TruncatedHeader
      else let idx = unat (bs ! 0); size = unat (bs ! 1) mod 128 in
        if idx \<in> set seen then Some (DuplicateIndex idx)
        else if length bs < 2 + size then Some TruncatedPrefix
        else if length bs < 2 + size + 32 then Some TruncatedValue
        else validate_records (idx # seen) (drop (2 + size + 32) bs))"
  by pat_completeness auto
termination by (relation "measure (\<lambda>(seen, bs). length bs)") auto

definition serialized_node_try_from :: "bytes \<Rightarrow> node_error + bytes" where
  "serialized_node_try_from bs =
     (case validate_records [] bs of None \<Rightarrow> Inr bs | Some e \<Rightarrow> Inl e)"

text \<open>The loop of \<^verbatim>\<open>decode\<close>, on bytes that \<open>serialized_node_try_from\<close> accepted.\<close>

function decode_records :: "bytes \<Rightarrow> node \<Rightarrow> node" where
  "decode_records bs result =
     (if length bs < 2 then result
      else let idx = unat (bs ! 0); size = unat (bs ! 1) mod 128;
               prefix = take size (drop 2 bs); val = take 32 (drop (2 + size) bs);
               it = (if unat (bs ! 1) < 128 then Leaf prefix val else NodePtr prefix val)
        in decode_records (drop (2 + size + 32) bs) (result[idx := it]))"
  by pat_completeness auto
termination by (relation "measure (\<lambda>(bs, result). length bs)") auto

definition decode :: "bytes \<Rightarrow> node" where
  "decode bs = decode_records bs empty_node"

declare validate_records.simps [simp del] decode_records.simps [simp del]

definition hash_node :: "(bytes \<Rightarrow> hash32) \<Rightarrow> node \<Rightarrow> hash32 \<times> bytes" where
  "hash_node dg n = (dg (encode n), encode n)"

definition empty_root_hash :: "(bytes \<Rightarrow> hash32) \<Rightarrow> hash32" where
  "empty_root_hash dg = fst (hash_node dg empty_node)"

section \<open>The store-backed tree\<close>

text \<open>\<^verbatim>\<open>RadixTreeImpl\<close>: the store of encoded nodes and the two caches.\<close>

record radix_tree =
  rt_store :: "(hash32, bytes) btmap"
  cache_read :: "(hash32, node) btmap"
  cache_write :: "(hash32, bytes) btmap"

definition radix_tree_new :: "(hash32, bytes) btmap \<Rightarrow> radix_tree" where
  "radix_tree_new store = \<lparr>rt_store = store, cache_read = [], cache_write = []\<rparr>"

text \<open>
  The assertions and index panics of the code. A cache collision carries the two nodes it compared.
\<close>

datatype rt_panic =
    MissingNode hash32 | CorruptNode hash32 node_error | CacheCollision hash32 node node
  | LeafPrefixEmpty | NodePtrPrefixEmpty | PrefixLengthsDiffer | KeyNotLonger | EmptyKey
  | DuplicateActions

definition load_node_from_store :: "radix_tree \<Rightarrow> hash32 \<Rightarrow> node_error + node option" where
  "load_node_from_store t ptr =
     (case bm_get (rt_store t) ptr of
        None \<Rightarrow> Inr None
      | Some bs \<Rightarrow>
          (case serialized_node_try_from bs of
             Inl e \<Rightarrow> Inl e
           | Inr s \<Rightarrow> Inr (Some (decode s))))"

definition load_node :: "radix_tree \<Rightarrow> hash32 \<Rightarrow> bool \<Rightarrow> radix_tree \<times> (rt_panic + node)" where
  "load_node t ptr no_assert =
     (case bm_get (cache_read t) ptr of
        Some n \<Rightarrow> (t, Inr n)
      | None \<Rightarrow>
          (case load_node_from_store t ptr of
             Inr (Some n) \<Rightarrow> (t\<lparr>cache_read := bm_insert ptr n (cache_read t)\<rparr>, Inr n)
           | Inr None \<Rightarrow> (t, if no_assert then Inr empty_node else Inl (MissingNode ptr))
           | Inl e \<Rightarrow> (t, if no_assert then Inr empty_node else Inl (CorruptNode ptr e))))"

definition clear_read_cache :: "radix_tree \<Rightarrow> radix_tree" where
  "clear_read_cache t = t\<lparr>cache_read := []\<rparr>"

definition save_node :: "(bytes \<Rightarrow> hash32) \<Rightarrow> radix_tree \<Rightarrow> node \<Rightarrow> radix_tree \<times> (rt_panic + hash32)" where
  "save_node dg t n =
     (let (hash, bs) = hash_node dg n in
      case bm_get (cache_read t) hash of
        Some existing \<Rightarrow>
          if existing = n then (t\<lparr>cache_write := bm_insert hash bs (cache_write t)\<rparr>, Inr hash)
          else (t, Inl (CacheCollision hash existing n))
      | None \<Rightarrow>
          (t\<lparr>cache_read := bm_insert hash n (cache_read t),
             cache_write := bm_insert hash bs (cache_write t)\<rparr>, Inr hash))"

text \<open>
  \<^verbatim>\<open>commit\<close>: an entry that the store has must agree with it, the others are put. The write cache of
  the code is a hash map; the order of its entries only selects which colliding key is reported.
\<close>

definition commit :: "radix_tree \<Rightarrow> radix_tree \<times> (hash32 + unit)" where
  "commit t =
     (let kv_pairs = cache_write t;
          absent = filter (\<lambda>(k, v). bm_get (rt_store t) k = None) kv_pairs;
          existing = filter (\<lambda>(k, v). bm_get (rt_store t) k \<noteq> None) kv_pairs
      in case find (\<lambda>(k, v). v \<noteq> the (bm_get (rt_store t) k)) existing of
           Some (k, v) \<Rightarrow> (t, Inl k)
         | None \<Rightarrow> (t\<lparr>rt_store := fold (\<lambda>(k, v) m. bm_insert k v m) absent (rt_store t)\<rparr>, Inr ()))"

definition clear_write_cache :: "radix_tree \<Rightarrow> radix_tree" where
  "clear_write_cache t = t\<lparr>cache_write := []\<rparr>"

lemma common_prefix_split:
  "common_prefix a b = (p, ra, rb) \<Longrightarrow> a = p @ ra \<and> b = p @ rb"
  by (induction a b arbitrary: p ra rb rule: common_prefix.induct)
    (auto split: if_splits prod.splits)

lemma common_prefix_heads:
  "common_prefix a b = (p, ra, rb) \<Longrightarrow> ra \<noteq> [] \<Longrightarrow> rb \<noteq> [] \<Longrightarrow> hd ra \<noteq> hd rb"
  by (induction a b arbitrary: p ra rb rule: common_prefix.induct)
    (auto split: if_splits prod.splits)

lemma common_prefix_lengths:
  "common_prefix a b = (p, ra, rb) \<Longrightarrow> length a = length p + length ra \<and> length b = length p + length rb"
  using common_prefix_split by fastforce

text \<open>\<^verbatim>\<open>read\<close>: every turn of the loop that goes on has a shorter key.\<close>

function read :: "radix_tree \<Rightarrow> node \<Rightarrow> key_segment \<Rightarrow> radix_tree \<times> (rt_panic + hash32 option)" where
  "read t n prefix =
     (case prefix of
        [] \<Rightarrow> (t, Inr None)
      | b # rest \<Rightarrow>
          (case n ! unat b of
             Empty \<Rightarrow> (t, Inr None)
           | Leaf leaf_prefix v \<Rightarrow> (t, Inr (if leaf_prefix = rest then Some v else None))
           | NodePtr ptr_prefix ptr \<Rightarrow>
               (case common_prefix rest ptr_prefix of
                  (_, prefix_rest, ptr_prefix_rest) \<Rightarrow>
                    if ptr_prefix_rest = [] then
                      (case load_node t ptr False of
                         (t', Inl e) \<Rightarrow> (t', Inl e)
                       | (t', Inr child) \<Rightarrow> read t' child prefix_rest)
                    else (t, Inr None))))"
  by pat_completeness auto
termination
  by (relation "measure (\<lambda>(t, n, prefix). length prefix)") (auto dest!: sym [THEN common_prefix_lengths])

fun create_node_from_item :: "item \<Rightarrow> rt_panic + node" where
  "create_node_from_item Empty = Inr empty_node"
| "create_node_from_item (Leaf prefix v) =
     (case prefix of
        [] \<Rightarrow> Inl LeafPrefixEmpty
      | b # rest \<Rightarrow> Inr (empty_node[unat b := Leaf rest v]))"
| "create_node_from_item (NodePtr prefix ptr) =
     (case prefix of
        [] \<Rightarrow> Inl NodePtrPrefixEmpty
      | b # rest \<Rightarrow> Inr (empty_node[unat b := NodePtr rest ptr]))"

definition save_node_and_create_item ::
  "(bytes \<Rightarrow> hash32) \<Rightarrow> radix_tree \<Rightarrow> node \<Rightarrow> key_segment \<Rightarrow> bool \<Rightarrow> radix_tree \<times> (rt_panic + item)" where
  "save_node_and_create_item dg t n prefix compaction =
     (let save = (case save_node dg t n of
                    (t', Inl e) \<Rightarrow> (t', Inl e)
                  | (t', Inr ptr) \<Rightarrow> (t', Inr (NodePtr prefix ptr)))
      in if compaction then
           (case filter (\<lambda>(idx, it). it \<noteq> Empty) (enumerate 0 n) of
              [] \<Rightarrow> (t, Inr Empty)
            | [(idx, Empty)] \<Rightarrow> (t, Inr Empty)
            | [(idx, Leaf leaf_prefix v)] \<Rightarrow> (t, Inr (Leaf (prefix @ [of_nat idx] @ leaf_prefix) v))
            | [(idx, NodePtr ptr_prefix ptr)] \<Rightarrow>
                (t, Inr (NodePtr (prefix @ [of_nat idx] @ ptr_prefix) ptr))
            | _ \<Rightarrow> save)
         else save)"

definition construct_node_from_item :: "radix_tree \<Rightarrow> item \<Rightarrow> radix_tree \<times> (rt_panic + node)" where
  "construct_node_from_item t it =
     (case it of
        NodePtr prefix ptr \<Rightarrow>
          if prefix = [] then load_node t ptr False else (t, create_node_from_item it)
      | _ \<Rightarrow> (t, create_node_from_item it))"

text \<open>
  \<^verbatim>\<open>update\<close>. The assertions guarantee that the rests whose heads are taken are not empty.
\<close>

function update ::
  "(bytes \<Rightarrow> hash32) \<Rightarrow> radix_tree \<Rightarrow> item \<Rightarrow> key_segment \<Rightarrow> hash32 \<Rightarrow>
   radix_tree \<times> (rt_panic + item option)" where
  "update dg t cur_item ins_prefix ins_value =
     (case cur_item of
        Empty \<Rightarrow> (t, Inr (Some (Leaf ins_prefix ins_value)))
      | Leaf leaf_prefix leaf_value \<Rightarrow>
          if length leaf_prefix \<noteq> length ins_prefix then (t, Inl PrefixLengthsDiffer)
          else if leaf_prefix = ins_prefix then
            (t, Inr (if ins_value = leaf_value then None else Some (Leaf ins_prefix ins_value)))
          else
            (case common_prefix ins_prefix leaf_prefix of
               (comm, ins_rest, leaf_rest) \<Rightarrow>
                 let new_node = (empty_node[unat (hd leaf_rest) := Leaf (tl leaf_rest) leaf_value])
                                  [unat (hd ins_rest) := Leaf (tl ins_rest) ins_value]
                 in case save_node_and_create_item dg t new_node comm False of
                      (t', Inl e) \<Rightarrow> (t', Inl e)
                    | (t', Inr it) \<Rightarrow> (t', Inr (Some it)))
      | NodePtr ptr_prefix ptr \<Rightarrow>
          if \<not> length ptr_prefix < length ins_prefix then (t, Inl KeyNotLonger)
          else
            (case common_prefix ins_prefix ptr_prefix of
               (comm, ins_rest, ptr_rest) \<Rightarrow>
                 if ptr_rest = [] then
                   (case load_node t ptr False of
                      (t1, Inl e) \<Rightarrow> (t1, Inl e)
                    | (t1, Inr child) \<Rightarrow>
                        let idx = unat (hd ins_rest) in
                        (case update dg t1 (child ! idx) (tl ins_rest) ins_value of
                           (t2, Inl e) \<Rightarrow> (t2, Inl e)
                         | (t2, Inr None) \<Rightarrow> (t2, Inr None)
                         | (t2, Inr (Some new_item)) \<Rightarrow>
                             (case save_node_and_create_item dg t2 (child[idx := new_item]) comm False of
                                (t3, Inl e) \<Rightarrow> (t3, Inl e)
                              | (t3, Inr it) \<Rightarrow> (t3, Inr (Some it)))))
                 else
                   let new_node = (empty_node[unat (hd ptr_rest) := NodePtr (tl ptr_rest) ptr])
                                    [unat (hd ins_rest) := Leaf (tl ins_rest) ins_value]
                   in case save_node_and_create_item dg t new_node comm False of
                        (t', Inl e) \<Rightarrow> (t', Inl e)
                      | (t', Inr it) \<Rightarrow> (t', Inr (Some it))))"
  by pat_completeness auto
termination
  by (relation "measure (\<lambda>(dg, t, it, p, v). length p)")
    (auto dest!: sym [THEN common_prefix_lengths] simp: neq_Nil_conv)

function delete ::
  "(bytes \<Rightarrow> hash32) \<Rightarrow> radix_tree \<Rightarrow> item \<Rightarrow> key_segment \<Rightarrow> radix_tree \<times> (rt_panic + item option)" where
  "delete dg t cur_item del_prefix =
     (case cur_item of
        Empty \<Rightarrow> (t, Inr None)
      | Leaf leaf_prefix _ \<Rightarrow> (t, Inr (if leaf_prefix = del_prefix then Some Empty else None))
      | NodePtr ptr_prefix ptr \<Rightarrow>
          (case common_prefix del_prefix ptr_prefix of
             (comm, del_rest, ptr_rest) \<Rightarrow>
               if ptr_rest \<noteq> [] \<or> del_rest = [] then (t, Inr None)
               else
                 (case load_node t ptr False of
                    (t1, Inl e) \<Rightarrow> (t1, Inl e)
                  | (t1, Inr child) \<Rightarrow>
                      let idx = unat (hd del_rest) in
                      (case delete dg t1 (child ! idx) (tl del_rest) of
                         (t2, Inl e) \<Rightarrow> (t2, Inl e)
                       | (t2, Inr None) \<Rightarrow> (t2, Inr None)
                       | (t2, Inr (Some new_item)) \<Rightarrow>
                           (case save_node_and_create_item dg t2 (child[idx := new_item]) comm True of
                              (t3, Inl e) \<Rightarrow> (t3, Inl e)
                            | (t3, Inr it) \<Rightarrow> (t3, Inr (Some it)))))))"
  by pat_completeness auto
termination
  by (relation "measure (\<lambda>(dg, t, it, p). length p)")
    (auto dest!: sym [THEN common_prefix_lengths] simp: neq_Nil_conv)

declare read.simps [simp del] update.simps [simp del] delete.simps [simp del]

text \<open>
  \<^verbatim>\<open>make_actions\<close>: the actions grouped by the first byte of their keys, in order of first
  appearance, and the loop over the groups.
\<close>

fun add_to_group ::
  "history_action \<Rightarrow> (byte \<times> history_action list) list \<Rightarrow> (byte \<times> history_action list) list" where
  "add_to_group a [] = [(hd (action_key a), [a])]"
| "add_to_group a ((b, as) # gs) =
     (if b = hd (action_key a) then (b, as @ [a]) # gs else (b, as) # add_to_group a gs)"

definition group_actions :: "history_action list \<Rightarrow> (byte \<times> history_action list) list" where
  "group_actions actions = fold add_to_group actions []"

fun is_insert :: "history_action \<Rightarrow> bool" where
  "is_insert (Insert k h) = True"
| "is_insert (Delete k) = False"

definition apply_action ::
  "(bytes \<Rightarrow> hash32) \<Rightarrow> radix_tree \<Rightarrow> item \<Rightarrow> history_action \<Rightarrow> radix_tree \<times> (rt_panic + item option)" where
  "apply_action dg t it a =
     (case a of
        Insert k h \<Rightarrow> update dg t it (tl k) h
      | Delete k \<Rightarrow> delete dg t it (tl k))"

definition set_group_items :: "(nat \<times> item option) list \<Rightarrow> node \<Rightarrow> node" where
  "set_group_items items n =
     fold (\<lambda>(idx, it) n. case it of None \<Rightarrow> n | Some i \<Rightarrow> n[idx := i]) items n"

definition key_bytes :: "history_action list \<Rightarrow> nat" where
  "key_bytes as = sum_list (map (length \<circ> action_key) as)"

lemma key_bytes_add_to_group:
  "sum_list (map (key_bytes \<circ> snd) (add_to_group a gs)) =
     length (action_key a) + sum_list (map (key_bytes \<circ> snd) gs)"
  by (induction a gs rule: add_to_group.induct) (auto simp: key_bytes_def)

lemma key_bytes_fold_add:
  "sum_list (map (key_bytes \<circ> snd) (fold add_to_group as gs)) =
     key_bytes as + sum_list (map (key_bytes \<circ> snd) gs)"
  by (induction as arbitrary: gs) (auto simp: key_bytes_add_to_group, auto simp: key_bytes_def)

lemma key_bytes_group [simp]:
  "sum_list (map (key_bytes \<circ> snd) (group_actions as)) = key_bytes as"
  by (simp add: group_actions_def key_bytes_fold_add)

lemma length_action_trim [simp]: "action_key (action_trim a) = tl (action_key a)"
  by (cases a) auto

lemma key_bytes_trim:
  "as \<noteq> [] \<Longrightarrow> \<forall>a\<in>set as. action_key a \<noteq> [] \<Longrightarrow> key_bytes (map action_trim as) < key_bytes as"
proof (induction as)
  case (Cons a as)
  have "length (tl (action_key a)) < length (action_key a)" using Cons.prems by (cases "action_key a") auto
  moreover have "key_bytes (map action_trim as) \<le> key_bytes as"
    unfolding key_bytes_def map_map by (rule sum_list_mono) auto
  ultimately show ?case by (auto simp: key_bytes_def o_def)
qed simp

function (sequential) make_actions ::
  "(bytes \<Rightarrow> hash32) \<Rightarrow> radix_tree \<Rightarrow> node \<Rightarrow> history_action list \<Rightarrow>
   radix_tree \<times> (rt_panic + node option)"
and make_groups ::
  "(bytes \<Rightarrow> hash32) \<Rightarrow> radix_tree \<Rightarrow> node \<Rightarrow> (byte \<times> history_action list) list \<Rightarrow>
   radix_tree \<times> (rt_panic + (nat \<times> item option) list)"
and make_group ::
  "(bytes \<Rightarrow> hash32) \<Rightarrow> radix_tree \<Rightarrow> item \<Rightarrow> history_action list \<Rightarrow>
   radix_tree \<times> (rt_panic + item option)" where
  "make_actions dg t cur_node actions =
     (if \<exists>a\<in>set actions. action_key a = [] then (t, Inl EmptyKey)
      else
        (case make_groups dg t cur_node (group_actions actions) of
           (t', Inl e) \<Rightarrow> (t', Inl e)
         | (t', Inr items) \<Rightarrow>
             let new_cur_node = set_group_items items cur_node in
             (t', Inr (if new_cur_node \<noteq> cur_node then Some new_cur_node else None))))"
| "make_groups dg t cur_node [] = (t, Inr [])"
| "make_groups dg t cur_node ((b, as) # gs) =
     (case make_group dg t (cur_node ! unat b) as of
        (t', Inl e) \<Rightarrow> (t', Inl e)
      | (t', Inr new_item) \<Rightarrow>
          (case make_groups dg t' cur_node gs of
             (t'', Inl e) \<Rightarrow> (t'', Inl e)
           | (t'', Inr items) \<Rightarrow> (t'', Inr ((unat b, new_item) # items))))"
| "make_group dg t it as =
     (if length as = 1 then apply_action dg t it (hd as)
      else if it = Empty \<and> \<not> list_ex is_insert as then (t, Inr None)
      else
        (case construct_node_from_item t it of
           (t1, Inl e) \<Rightarrow> (t1, Inl e)
         | (t1, Inr created) \<Rightarrow>
             (if as = [] \<or> (\<exists>a\<in>set as. action_key a = []) then (t1, Inl EmptyKey)
              else
                (case make_actions dg t1 created (map action_trim as) of
                   (t2, Inl e) \<Rightarrow> (t2, Inl e)
                 | (t2, Inr None) \<Rightarrow> (t2, Inr None)
                 | (t2, Inr (Some n)) \<Rightarrow>
                     (case save_node_and_create_item dg t2 n [] True of
                        (t3, Inl e) \<Rightarrow> (t3, Inl e)
                      | (t3, Inr new_item) \<Rightarrow> (t3, Inr (Some new_item)))))))"
  by pat_completeness auto
termination
  by (relation "inv_image (less_than <*lex*> less_than)
       (\<lambda>x. case x of
          Inl (dg, t, n, as) \<Rightarrow> (key_bytes as, Suc (length (group_actions as)))
        | Inr (Inl (dg, t, n, gs)) \<Rightarrow> (sum_list (map (key_bytes \<circ> snd) gs), length gs)
        | Inr (Inr (dg, t, it, as)) \<Rightarrow> (key_bytes as, 0))")
    (auto dest: key_bytes_trim simp: trans_less_add1 le_less simp del: map_map, fastforce)

declare make_actions.simps [simp del] make_groups.simps [simp del] make_group.simps [simp del]

definition save_and_commit ::
  "(bytes \<Rightarrow> hash32) \<Rightarrow> radix_tree \<Rightarrow> node \<Rightarrow> history_action list \<Rightarrow>
   radix_tree \<times> (rt_panic + (hash32 + (node \<times> hash32) option))" where
  "save_and_commit dg t root_node actions =
     (case make_actions dg t root_node actions of
        (t1, Inl e) \<Rightarrow> (t1, Inl e)
      | (t1, Inr None) \<Rightarrow> (clear_write_cache t1, Inr (Inr None))
      | (t1, Inr (Some new_root)) \<Rightarrow>
          (case save_node dg t1 new_root of
             (t2, Inl e) \<Rightarrow> (t2, Inl e)
           | (t2, Inr new_hash) \<Rightarrow>
               (case commit t2 of
                  (t3, Inl k) \<Rightarrow> (t3, Inr (Inl k))
                | (t3, Inr _) \<Rightarrow> (clear_write_cache t3, Inr (Inr (Some (new_root, new_hash)))))))"

section \<open>The history over the tree\<close>

text \<open>
  \<^verbatim>\<open>RadixHistory\<close>. The tree is shared by the histories that \<open>process\<close> makes from one another, so the
  operations also return it.
\<close>

record radix_history =
  root_hash :: hash32
  root_node :: node
  rh_impl :: radix_tree

definition radix_history_new :: "hash32 \<Rightarrow> (hash32, bytes) btmap \<Rightarrow> radix_history" where
  "radix_history_new root store =
     (case load_node (radix_tree_new store) root True of
        (t, Inl e) \<Rightarrow> \<lparr>root_hash = root, root_node = empty_node, rh_impl = t\<rparr>
      | (t, Inr n) \<Rightarrow> \<lparr>root_hash = root, root_node = n, rh_impl = t\<rparr>)"

definition history_read :: "radix_history \<Rightarrow> key_segment \<Rightarrow> radix_tree \<times> (rt_panic + hash32 option)" where
  "history_read h key = read (rh_impl h) (root_node h) key"

definition has_no_duplicates :: "history_action list \<Rightarrow> bool" where
  "has_no_duplicates actions = distinct (map action_key actions)"

definition process ::
  "(bytes \<Rightarrow> hash32) \<Rightarrow> radix_history \<Rightarrow> history_action list \<Rightarrow>
   radix_tree \<times> (rt_panic + (hash32 + radix_history))" where
  "process dg h actions =
     (if \<not> has_no_duplicates actions then (rh_impl h, Inl DuplicateActions)
      else
        (case save_and_commit dg (rh_impl h) (root_node h) actions of
           (t, Inl e) \<Rightarrow> (t, Inl e)
         | (t, Inr (Inl k)) \<Rightarrow> (t, Inr (Inl k))
         | (t, Inr (Inr (Some (n, r)))) \<Rightarrow>
             (clear_read_cache t,
              Inr (Inr \<lparr>root_hash = r, root_node = n, rh_impl = clear_read_cache t\<rparr>))
         | (t, Inr (Inr None)) \<Rightarrow>
             (clear_read_cache t, Inr (Inr (h\<lparr>rh_impl := clear_read_cache t\<rparr>)))))"

definition history_reset :: "radix_history \<Rightarrow> hash32 \<Rightarrow> radix_history" where
  "history_reset h root = radix_history_new root (rt_store (rh_impl h))"

section \<open>The node codec round trip\<close>

fun item_wf :: "item \<Rightarrow> bool" where
  "item_wf Empty = True"
| "item_wf (Leaf p v) = (length p \<le> 127 \<and> hash32_ok v)"
| "item_wf (NodePtr p h) = (length p \<le> 127 \<and> hash32_ok h)"

definition node_wf :: "node \<Rightarrow> bool" where
  "node_wf n \<longleftrightarrow> length n = NUM_ITEMS \<and> (\<forall>it\<in>set n. item_wf it)"

lemma unat_byte_eq [simp]: "unat (a :: byte) = unat b \<longleftrightarrow> a = b"
  by (auto intro: unsigned_word_eqI)

lemma unat_idx: "i < 256 \<Longrightarrow> unat (of_nat i :: byte) = i"
  by (simp add: unat_of_nat)

lemma unat_flag: "n < 128 \<Longrightarrow> unat (of_nat (128 + n) :: byte) = 128 + n"
  by (rule unat_idx) simp

lemma drop_record: "length v = 32 \<Longrightarrow> drop (34 + length p) (a # b # p @ v @ rest) = rest"
  by (simp add: drop_Cons')

lemma validate_encode_item:
  assumes "item_wf it" "i < 256" "it \<noteq> Empty" "i \<notin> set seen"
  shows "validate_records seen (encode_item i it @ rest) = validate_records (i # seen) rest"
  using assms
  by (subst validate_records.simps, cases it)
    (simp_all add: unat_idx unat_flag hash32_ok_def HASH32_LENGTH_def Let_def drop_record del: of_nat_add)

lemma decode_encode_item:
  assumes "item_wf it" "i < 256" "it \<noteq> Empty"
  shows "decode_records (encode_item i it @ rest) res = decode_records rest (res[i := it])"
  using assms
  by (subst decode_records.simps, cases it)
    (simp_all add: unat_idx unat_flag hash32_ok_def HASH32_LENGTH_def Let_def drop_record del: of_nat_add)

lemma validate_encode_from:
  "\<forall>it\<in>set xs. item_wf it \<Longrightarrow> i + length xs \<le> 256 \<Longrightarrow> \<forall>j\<in>set seen. j < i \<Longrightarrow>
   validate_records seen (concat (map (\<lambda>(idx, it). encode_item idx it) (enumerate i xs))) = None"
proof (induction xs arbitrary: i seen)
  case (Cons x xs)
  show ?case
  proof (cases "x = Empty")
    case False
    have "\<forall>j\<in>set (i # seen). j < Suc i" using Cons.prems(3) by (auto simp: less_Suc_eq)
    then show ?thesis
      using False Cons.prems Cons.IH [of "Suc i" "i # seen"]
        validate_encode_item [of x i seen "concat (map (\<lambda>(idx, it). encode_item idx it) (enumerate (Suc i) xs))"]
      by auto
  qed (use Cons.prems Cons.IH [of "Suc i" seen] in \<open>auto simp: less_Suc_eq\<close>)
qed (subst validate_records.simps, simp)

lemma decode_encode_from:
  "\<forall>it\<in>set xs. item_wf it \<Longrightarrow> i + length xs \<le> 256 \<Longrightarrow> length res = 256 \<Longrightarrow>
   (\<And>j. i \<le> j \<Longrightarrow> j < 256 \<Longrightarrow> res ! j = Empty) \<Longrightarrow>
   decode_records (concat (map (\<lambda>(idx, it). encode_item idx it) (enumerate i xs))) res =
     take i res @ xs @ drop (i + length xs) res"
proof (induction xs arbitrary: i res)
  case Nil
  show ?case by (subst decode_records.simps) simp
next
  case (Cons x xs)
  have i: "i < 256" using Cons.prems by simp
  have upd: "take i res @ x # xs @ drop (i + length (x # xs)) res =
      take (Suc i) (res[i := x]) @ xs @ drop (Suc i + length xs) (res[i := x])"
    using i Cons.prems by (simp add: take_Suc_conv_app_nth)
  show ?case
  proof (cases "x = Empty")
    case True
    have "res[i := x] = res" using True i Cons.prems(4) [of i] by (metis le_refl list_update_id)
    then show ?thesis using True Cons.prems Cons.IH [of "Suc i" res] upd by auto
  next
    case False
    then show ?thesis
      using i Cons.prems Cons.IH [of "Suc i" "res[i := x]"] upd by (auto simp: decode_encode_item)
  qed
qed

lemma length_empty_node [simp]: "length empty_node = NUM_ITEMS"
  by (simp add: empty_node_def)

lemma nth_empty_node [simp]: "i < NUM_ITEMS \<Longrightarrow> empty_node ! i = Empty"
  by (simp add: empty_node_def)

lemma decode_encode:
  assumes "node_wf n"
  shows "serialized_node_try_from (encode n) = Inr (encode n)" and "decode (encode n) = n"
proof -
  have n: "length n = 256" "\<forall>it\<in>set n. item_wf it" using assms by (auto simp: node_wf_def NUM_ITEMS_def)
  show "serialized_node_try_from (encode n) = Inr (encode n)"
    using validate_encode_from [of n 0 "[]"] n by (simp add: serialized_node_try_from_def encode_def)
  show "decode (encode n) = n"
    using decode_encode_from [of n 0 empty_node] n
    by (simp add: decode_def encode_def NUM_ITEMS_def)
qed

lemma encode_inject: "node_wf m \<Longrightarrow> node_wf n \<Longrightarrow> encode m = encode n \<longleftrightarrow> m = n"
  by (metis decode_encode(2))

lemma node_wf_empty [simp]: "node_wf empty_node"
  by (auto simp: node_wf_def empty_node_def)

end
