(* ===== verification/Radix_Map.thy ===== *)
theory Radix_Map
  imports Radix_Tree
begin

text \<open>
  The radix trie against its specification. A history holds a finite map from keys to hashes. The
  first sections say what an item and a node hold under a resolution of pointers and what states of
  the tree resolve pointers consistently; then every operation is shown to update that map, and to
  fail only when the digest collides.
\<close>

section \<open>The map an item holds\<close>

text \<open>
  An item is read through a function \<open>ld\<close> that resolves pointers to nodes. \<open>item_lookup\<close> is the map
  it holds. \<open>item_ok ld L\<close> says that its keys have length \<open>L\<close>, that every pointer resolves, and that a
  node behind a pointer has at least two items.
\<close>

fun strip_prefix :: "'a list \<Rightarrow> 'a list \<Rightarrow> 'a list option" where
  "strip_prefix [] k = Some k"
| "strip_prefix (p # ps) [] = None"
| "strip_prefix (p # ps) (k # ks) = (if p = k then strip_prefix ps ks else None)"

lemma strip_prefix_Some [simp]: "strip_prefix p k = Some r \<longleftrightarrow> k = p @ r"
  by (induction p k rule: strip_prefix.induct) auto

lemma strip_prefix_append [simp]: "strip_prefix p (p @ r) = Some r"
  by simp

lemma strip_prefix_self [simp]: "strip_prefix p p = Some []"
  by simp

lemma strip_prefix_None: "strip_prefix p k = None \<longleftrightarrow> (\<forall>r. k \<noteq> p @ r)"
  by (metis not_None_eq strip_prefix_Some)

lemma strip_prefix_append_left: "strip_prefix (p @ q) k = Option.bind (strip_prefix p k) (strip_prefix q)"
  by (induction p k rule: strip_prefix.induct) auto

function item_lookup :: "(hash32 \<rightharpoonup> node) \<Rightarrow> item \<Rightarrow> key_segment \<Rightarrow> hash32 option" where
  "item_lookup ld it k =
     (case it of
        Empty \<Rightarrow> None
      | Leaf p v \<Rightarrow> if p = k then Some v else None
      | NodePtr p h \<Rightarrow>
          (case strip_prefix p k of
             Some (b # rest) \<Rightarrow>
               (case ld h of None \<Rightarrow> None | Some n \<Rightarrow> item_lookup ld (n ! unat b) rest)
           | _ \<Rightarrow> None))"
  by pat_completeness auto
termination by (relation "measure (\<lambda>(ld, it, k). length k)") auto

declare item_lookup.simps [simp del]

definition node_lookup :: "(hash32 \<rightharpoonup> node) \<Rightarrow> node \<Rightarrow> key_segment \<Rightarrow> hash32 option" where
  "node_lookup ld n k = (case k of [] \<Rightarrow> None | b # rest \<Rightarrow> item_lookup ld (n ! unat b) rest)"

lemma item_lookup_simps [simp]:
  "item_lookup ld Empty k = None"
  "item_lookup ld (Leaf p v) k = (if p = k then Some v else None)"
  "item_lookup ld (NodePtr p h) k =
     (case strip_prefix p k of
        None \<Rightarrow> None
      | Some r \<Rightarrow> (case ld h of None \<Rightarrow> None | Some n \<Rightarrow> node_lookup ld n r))"
  by (subst item_lookup.simps, simp add: node_lookup_def split: option.split list.split)+

lemma node_lookup_Nil [simp]: "node_lookup ld n [] = None"
  by (simp add: node_lookup_def)

lemma node_lookup_Cons [simp]: "node_lookup ld n (b # r) = item_lookup ld (n ! unat b) r"
  by (simp add: node_lookup_def)

definition full_slots :: "node \<Rightarrow> nat set" where
  "full_slots n = {i. i < NUM_ITEMS \<and> n ! i \<noteq> Empty}"

function item_ok :: "(hash32 \<rightharpoonup> node) \<Rightarrow> nat \<Rightarrow> item \<Rightarrow> bool" where
  "item_ok ld L it =
     (case it of
        Empty \<Rightarrow> True
      | Leaf p v \<Rightarrow> length p = L \<and> hash32_ok v
      | NodePtr p h \<Rightarrow>
          length p < L \<and> hash32_ok h \<and>
          (case ld h of
             None \<Rightarrow> False
           | Some n \<Rightarrow>
               length n = NUM_ITEMS \<and>
               (\<exists>i j. i \<noteq> j \<and> i \<in> full_slots n \<and> j \<in> full_slots n) \<and>
               (\<forall>it'\<in>set n. length p < L \<longrightarrow> item_ok ld (L - Suc (length p)) it')))"
  by pat_completeness auto
termination by (relation "measure (\<lambda>(ld, L, it). L)") auto

declare item_ok.simps [simp del]

definition node_ok :: "(hash32 \<rightharpoonup> node) \<Rightarrow> nat \<Rightarrow> node \<Rightarrow> bool" where
  "node_ok ld L n \<longleftrightarrow> length n = NUM_ITEMS \<and> (\<forall>it\<in>set n. item_ok ld L it)"

definition branching :: "node \<Rightarrow> bool" where
  "branching n \<longleftrightarrow> (\<exists>i j. i \<noteq> j \<and> i \<in> full_slots n \<and> j \<in> full_slots n)"

lemma item_ok_simps [simp]:
  "item_ok ld L Empty"
  "item_ok ld L (Leaf p v) \<longleftrightarrow> length p = L \<and> hash32_ok v"
  by (subst item_ok.simps, simp)+

lemma item_ok_NodePtr:
  "item_ok ld L (NodePtr p h) \<longleftrightarrow>
     length p < L \<and> hash32_ok h \<and>
     (\<exists>n. ld h = Some n \<and> branching n \<and> node_ok ld (L - Suc (length p)) n)"
  by (subst item_ok.simps) (auto simp: node_ok_def branching_def split: option.splits)

lemma unat_slot [simp]: "unat (b :: byte) < NUM_ITEMS"
proof -
  have "unat b < 2 ^ LENGTH(8)" by (rule unsigned_less)
  then show ?thesis by (simp add: NUM_ITEMS_def)
qed

lemma node_ok_nth: "node_ok ld L n \<Longrightarrow> i < NUM_ITEMS \<Longrightarrow> item_ok ld L (n ! i)"
  by (simp add: node_ok_def)

lemma node_ok_empty [simp]: "node_ok ld L empty_node"
  by (auto simp: node_ok_def empty_node_def)

lemma node_ok_update: "node_ok ld L n \<Longrightarrow> item_ok ld L it \<Longrightarrow> node_ok ld L (n[i := it])"
  by (auto simp: node_ok_def dest!: set_update_subset_insert [THEN subsetD])

lemma item_ok_mono: "item_ok ld L it \<Longrightarrow> ld \<subseteq>\<^sub>m ld' \<Longrightarrow> item_ok ld' L it"
proof (induction ld L it rule: item_ok.induct)
  case (1 ld L it)
  show ?case
  proof (cases it)
    case (NodePtr p h)
    then obtain n where n: "length p < L" "hash32_ok h" "ld h = Some n" "branching n"
        "node_ok ld (L - Suc (length p)) n"
      using "1.prems" by (auto simp: item_ok_NodePtr)
    have "ld' h = Some n" by (rule map_le_Some [OF "1.prems"(2) n(3)])
    moreover have "node_ok ld' (L - Suc (length p)) n"
      using n "1.IH" [OF NodePtr n(3) _ n(1)] "1.prems"(2) by (auto simp: node_ok_def)
    ultimately show ?thesis using NodePtr n by (auto simp: item_ok_NodePtr)
  qed (use "1.prems" in simp_all)
qed

lemma node_ok_mono: "node_ok ld L n \<Longrightarrow> ld \<subseteq>\<^sub>m ld' \<Longrightarrow> node_ok ld' L n"
  by (auto simp: node_ok_def intro: item_ok_mono)

lemma item_lookup_mono: "item_ok ld L it \<Longrightarrow> ld \<subseteq>\<^sub>m ld' \<Longrightarrow> item_lookup ld' it k = item_lookup ld it k"
proof (induction ld L it arbitrary: k rule: item_ok.induct)
  case (1 ld L it)
  show ?case
  proof (cases it)
    case (NodePtr p h)
    then obtain n where n: "length p < L" "ld h = Some n" "node_ok ld (L - Suc (length p)) n"
      using "1.prems" by (auto simp: item_ok_NodePtr)
    have "ld' h = Some n" by (rule map_le_Some [OF "1.prems"(2) n(2)])
    moreover have "node_lookup ld' n r = node_lookup ld n r" for r
      using "1.IH" [OF NodePtr n(2) _ n(1) _ "1.prems"(2)] n(3)
      by (cases r) (auto simp: node_ok_def)
    ultimately show ?thesis using NodePtr n by (auto split: option.split)
  qed simp_all
qed

lemma node_lookup_mono: "node_ok ld L n \<Longrightarrow> ld \<subseteq>\<^sub>m ld' \<Longrightarrow> node_lookup ld' n k = node_lookup ld n k"
  by (cases k) (auto intro!: item_lookup_mono node_ok_nth)

lemma item_lookup_length: "item_ok ld L it \<Longrightarrow> item_lookup ld it k = Some v \<Longrightarrow> length k = L"
proof (induction ld L it arbitrary: k rule: item_ok.induct)
  case (1 ld L it)
  show ?case
  proof (cases it)
    case (NodePtr p h)
    then obtain n where n: "length p < L" "ld h = Some n" "node_ok ld (L - Suc (length p)) n"
      using "1.prems" by (auto simp: item_ok_NodePtr)
    obtain b r where k: "k = p @ b # r" "item_lookup ld (n ! unat b) r = Some v"
      using "1.prems"(2) NodePtr n(2)
      by (auto simp: node_lookup_def split: option.splits list.splits)
    have "length r = L - Suc (length p)"
      using "1.IH" [OF NodePtr n(2) _ n(1) _ k(2)] n(3) by (auto simp: node_ok_def)
    then show ?thesis using k n(1) by simp
  qed (use "1.prems" in \<open>auto split: if_splits\<close>)
qed

lemma item_ok_wf: "item_ok ld L it \<Longrightarrow> L \<le> 127 \<Longrightarrow> item_wf it"
  by (cases it) (auto simp: item_ok_NodePtr)

lemma node_ok_wf: "node_ok ld L n \<Longrightarrow> L \<le> 127 \<Longrightarrow> node_wf n"
  by (auto simp: node_ok_def node_wf_def intro: item_ok_wf)

text \<open>A non-empty item holds at least one key.\<close>

lemma item_ok_nonempty: "item_ok ld L it \<Longrightarrow> it \<noteq> Empty \<Longrightarrow> \<exists>k v. item_lookup ld it k = Some v"
proof (induction ld L it rule: item_ok.induct)
  case (1 ld L it)
  show ?case
  proof (cases it)
    case (NodePtr p h)
    then obtain n i where n: "length p < L" "ld h = Some n" "node_ok ld (L - Suc (length p)) n"
        "i < NUM_ITEMS" "n ! i \<noteq> Empty"
      using "1.prems" by (auto simp: item_ok_NodePtr branching_def full_slots_def)
    have "n ! i \<in> set n" using n by (simp add: node_ok_def)
    then obtain k v where kv: "item_lookup ld (n ! i) k = Some v"
      using "1.IH" [OF NodePtr n(2) _ n(1) node_ok_nth [OF n(3,4)] n(5)] by blast
    have "unat (of_nat i :: byte) = i" using n(4) by (intro unat_idx) (simp add: NUM_ITEMS_def)
    then have "item_lookup ld it (p @ of_nat i # k) = Some v"
      using NodePtr n kv by simp
    then show ?thesis by blast
  qed (use "1.prems" in auto)
qed

section \<open>The state of the tree\<close>

text \<open>
  What a pointer resolves to: the read cache first, then the store. \<open>addressed\<close> says that the cache
  and the store are keyed by the digest of what they hold. Between two states of one operation,
  \<open>tree_ext\<close> holds: the store is unchanged and the read cache only grows. A \<open>clash\<close> is a cached node
  whose digest is also the digest of other bytes in the store.
\<close>

definition store_load :: "radix_tree \<Rightarrow> hash32 \<rightharpoonup> node" where
  "store_load t h = (case load_node_from_store t h of Inr (Some n) \<Rightarrow> Some n | _ \<Rightarrow> None)"

definition tree_load :: "radix_tree \<Rightarrow> hash32 \<rightharpoonup> node" where
  "tree_load t h = (case bm_get (cache_read t) h of Some n \<Rightarrow> Some n | None \<Rightarrow> store_load t h)"

definition digest_ok :: "(bytes \<Rightarrow> hash32) \<Rightarrow> bool" where
  "digest_ok dg \<longleftrightarrow> (\<forall>bs. hash32_ok (dg bs))"

definition addressed :: "(bytes \<Rightarrow> hash32) \<Rightarrow> radix_tree \<Rightarrow> bool" where
  "addressed dg t \<longleftrightarrow>
     (\<forall>h n. bm_get (cache_read t) h = Some n \<longrightarrow> node_wf n \<and> dg (encode n) = h) \<and>
     (\<forall>h bs. bm_get (rt_store t) h = Some bs \<longrightarrow> (\<exists>n. node_wf n \<and> bs = encode n \<and> dg bs = h))"

definition tracked :: "radix_tree \<Rightarrow> bool" where
  "tracked t \<longleftrightarrow>
     btmap_ok (cache_write t) \<and>
     (\<forall>h n. bm_get (cache_read t) h = Some n \<longrightarrow>
        store_load t h = Some n \<or> bm_get (cache_write t) h = Some (encode n)) \<and>
     (\<forall>h bs. bm_get (cache_write t) h = Some bs \<longrightarrow>
        (\<exists>n. bm_get (cache_read t) h = Some n \<and> bs = encode n))"

definition tree_ext :: "radix_tree \<Rightarrow> radix_tree \<Rightarrow> bool" where
  "tree_ext t t' \<longleftrightarrow>
     rt_store t' = rt_store t \<and> bm_get (cache_read t) \<subseteq>\<^sub>m bm_get (cache_read t') \<and>
     (tracked t \<longrightarrow> tracked t')"

definition below :: "radix_tree \<Rightarrow> (hash32 \<rightharpoonup> node) \<Rightarrow> bool" where
  "below t ld \<longleftrightarrow> bm_get (cache_read t) \<subseteq>\<^sub>m ld \<and> store_load t \<subseteq>\<^sub>m ld"

definition clash :: "(bytes \<Rightarrow> hash32) \<Rightarrow> radix_tree \<Rightarrow> bool" where
  "clash dg t \<longleftrightarrow>
     (\<exists>h n bs. bm_get (cache_read t) h = Some n \<and> bm_get (rt_store t) h = Some bs \<and>
        dg (encode n) = h \<and> dg bs = h \<and> bs \<noteq> encode n)"

definition real_collision :: "(bytes \<Rightarrow> hash32) \<Rightarrow> rt_panic \<Rightarrow> bool" where
  "real_collision dg e \<longleftrightarrow>
     (\<exists>h m n. e = CacheCollision h m n \<and> encode m \<noteq> encode n \<and> dg (encode m) = h \<and> dg (encode n) = h)"

lemma store_load_cong: "rt_store t' = rt_store t \<Longrightarrow> store_load t' = store_load t"
  by (simp add: store_load_def load_node_from_store_def fun_eq_iff)

lemma tree_ext_refl [simp, intro]: "tree_ext t t"
  by (simp add: tree_ext_def)

lemma tree_ext_trans [trans]: "tree_ext t t' \<Longrightarrow> tree_ext t' t'' \<Longrightarrow> tree_ext t t''"
  by (auto simp: tree_ext_def intro: map_le_trans)

lemma tree_ext_cached:
  "tree_ext t t' \<Longrightarrow> bm_get (cache_read t) h = Some n \<Longrightarrow> bm_get (cache_read t') h = Some n"
  unfolding tree_ext_def by (blast dest: map_le_Some)

lemma clash_ext: "clash dg t \<Longrightarrow> tree_ext t t' \<Longrightarrow> clash dg t'"
proof -
  assume "clash dg t" and e: "tree_ext t t'"
  then obtain h n bs where c: "bm_get (cache_read t) h = Some n" "bm_get (rt_store t) h = Some bs"
      "dg (encode n) = h" "dg bs = h" "bs \<noteq> encode n"
    by (auto simp: clash_def)
  have "bm_get (rt_store t') h = Some bs" using e c(2) by (simp add: tree_ext_def)
  then show ?thesis unfolding clash_def using tree_ext_cached [OF e c(1)] c(3-5) by blast
qed

lemma below_ext: "below t' ld \<Longrightarrow> tree_ext t t' \<Longrightarrow> below t ld"
  using store_load_cong [of t t'] map_le_trans [of "bm_get (cache_read t)" "bm_get (cache_read t')" ld]
  by (simp add: below_def tree_ext_def)

lemma below_load: "below t ld \<Longrightarrow> tree_load t \<subseteq>\<^sub>m ld"
proof (rule map_le_SomeI)
  fix h n assume b: "below t ld" and n: "tree_load t h = Some n"
  then have "bm_get (cache_read t) h = Some n \<or> store_load t h = Some n"
    by (auto simp: tree_load_def split: option.splits)
  then show "ld h = Some n"
    using b map_le_Some [of "bm_get (cache_read t)" ld h n] map_le_Some [of "store_load t" ld h n]
    by (auto simp: below_def)
qed

lemma below_Some: "below t ld \<Longrightarrow> tree_load t h = Some n \<Longrightarrow> ld h = Some n"
  by (rule map_le_Some [OF below_load])

lemma addressed_cache:
  "addressed dg t \<Longrightarrow> bm_get (cache_read t) h = Some n \<Longrightarrow> node_wf n \<and> dg (encode n) = h"
  by (simp add: addressed_def)

lemma addressed_store:
  assumes "addressed dg t" and "bm_get (rt_store t) h = Some bs"
  obtains n where "node_wf n" "bs = encode n" "dg bs = h"
  using assms unfolding addressed_def by blast

lemma addressed_store_load:
  assumes "addressed dg t"
  shows "store_load t h = Some n \<longleftrightarrow> bm_get (rt_store t) h = Some (encode n) \<and> node_wf n"
proof (cases "bm_get (rt_store t) h")
  case None
  then show ?thesis by (simp add: store_load_def load_node_from_store_def)
next
  case (Some bs)
  then obtain m where "node_wf m" "bs = encode m" using addressed_store [OF assms] by blast
  then show ?thesis
    using Some by (auto simp: store_load_def load_node_from_store_def decode_encode encode_inject)
qed

lemma below_tree_load:
  assumes "addressed dg t" and "\<not> clash dg t"
  shows "below t (tree_load t)"
proof -
  have "tree_load t h = Some n" if n: "store_load t h = Some n" for h n
  proof (cases "bm_get (cache_read t) h")
    case (Some m)
    have s: "bm_get (rt_store t) h = Some (encode n)" "node_wf n"
      using n addressed_store_load [OF assms(1)] by auto
    have m: "node_wf m" "dg (encode m) = h" using addressed_cache [OF assms(1) Some] by auto
    have "dg (encode n) = h" using addressed_store [OF assms(1) s(1)] by blast
    then have "encode n = encode m" using Some s m assms(2) unfolding clash_def by blast
    then show ?thesis using Some s m by (simp add: tree_load_def encode_inject)
  qed (use n in \<open>simp add: tree_load_def\<close>)
  then show ?thesis
    unfolding below_def by (auto intro!: map_le_SomeI simp: tree_load_def)
qed

text \<open>
  \<open>good_step\<close>: a step that extends the tree and either meets a clash or leaves the tree addressed and
  establishes \<open>P\<close> under every resolution of pointers that agrees with the tree.
\<close>

definition good_step ::
  "(bytes \<Rightarrow> hash32) \<Rightarrow> radix_tree \<Rightarrow> radix_tree \<Rightarrow> ((hash32 \<rightharpoonup> node) \<Rightarrow> bool) \<Rightarrow> bool" where
  "good_step dg t t' P \<longleftrightarrow>
     tree_ext t t' \<and> (clash dg t' \<or> (addressed dg t' \<and> (\<forall>ld. below t' ld \<longrightarrow> P ld)))"

lemma good_step_ext: "good_step dg t t' P \<Longrightarrow> tree_ext t t'"
  by (simp add: good_step_def)

lemma good_step_refl: "addressed dg t \<Longrightarrow> (\<And>ld. below t ld \<Longrightarrow> P ld) \<Longrightarrow> good_step dg t t P"
  by (simp add: good_step_def)

lemma good_step_bind:
  assumes "good_step dg t t1 P" and "tree_ext t1 t'"
    and "addressed dg t1 \<Longrightarrow> \<not> clash dg t1 \<Longrightarrow> P (tree_load t1) \<Longrightarrow> good_step dg t1 t' Q"
    and "\<And>ld. below t' ld \<Longrightarrow> P ld \<Longrightarrow> Q ld \<Longrightarrow> R ld"
  shows "good_step dg t t' R"
proof (cases "clash dg t1")
  case True
  then show ?thesis
    using assms(1,2) clash_ext good_step_ext tree_ext_trans unfolding good_step_def by blast
next
  case False
  have t1: "tree_ext t t1" "addressed dg t1" "\<And>ld. below t1 ld \<Longrightarrow> P ld"
    using assms(1) False by (auto simp: good_step_def)
  have Q: "good_step dg t1 t' Q"
    using assms(3) [OF t1(2) False t1(3) [OF below_tree_load [OF t1(2) False]]] .
  have "R ld" if "below t' ld" "Q ld" for ld
    using assms(4) [OF that(1) t1(3) [OF below_ext [OF that(1) assms(2)]] that(2)] .
  then show ?thesis using Q tree_ext_trans [OF t1(1)] unfolding good_step_def by blast
qed

lemma good_step_mono: "good_step dg t t' P \<Longrightarrow> (\<And>ld. below t' ld \<Longrightarrow> P ld \<Longrightarrow> Q ld) \<Longrightarrow> good_step dg t t' Q"
  unfolding good_step_def by blast

subsection \<open>Loading and saving\<close>

lemma load_node_ext: "load_node t h b = (t', r) \<Longrightarrow> tree_ext t t'"
proof (cases "bm_get (cache_read t) h")
  case None
  assume l: "load_node t h b = (t', r)"
  have "t' = t \<or> (\<exists>n. store_load t h = Some n \<and> t' = t\<lparr>cache_read := bm_insert h n (cache_read t)\<rparr>)"
    using l None by (auto simp: load_node_def store_load_def split: option.splits sum.splits if_splits)
  moreover have "tree_ext t (t\<lparr>cache_read := bm_insert h n (cache_read t)\<rparr>)"
    if n: "store_load t h = Some n" for n
  proof -
    let ?t = "t\<lparr>cache_read := bm_insert h n (cache_read t)\<rparr>"
    have sl: "store_load ?t = store_load t" by (rule store_load_cong) simp
    have "bm_get (cache_read t) \<subseteq>\<^sub>m bm_get (cache_read ?t)"
      using None by (auto intro!: map_le_SomeI)
    moreover have "tracked ?t" if tr: "tracked t"
    proof -
      have "bm_get (cache_write t) h = None"
      proof (rule ccontr)
        assume "bm_get (cache_write t) h \<noteq> None"
        then obtain bs where "bm_get (cache_write t) h = Some bs" by blast
        then show False using tr None unfolding tracked_def by fastforce
      qed
      then show ?thesis using tr n None unfolding tracked_def sl by (auto split: if_splits)
    qed
    ultimately show ?thesis by (simp add: tree_ext_def)
  qed
  ultimately show ?thesis by auto
qed (auto simp: load_node_def)

lemma load_node_some:
  assumes "tree_load t h = Some n"
  obtains t' where "load_node t h b = (t', Inr n)" "tree_load t' = tree_load t"
    "\<And>dg. addressed dg t \<Longrightarrow> addressed dg t'" "\<And>dg. addressed dg t \<Longrightarrow> \<not> clash dg t \<Longrightarrow> \<not> clash dg t'"
proof (cases "bm_get (cache_read t) h")
  case (Some m)
  then show ?thesis using that assms by (auto simp: load_node_def tree_load_def)
next
  case None
  let ?t = "t\<lparr>cache_read := bm_insert h n (cache_read t)\<rparr>"
  have s: "store_load t h = Some n" using None assms by (simp add: tree_load_def)
  then have l: "load_node t h b = (?t, Inr n)"
    using None by (auto simp: load_node_def store_load_def split: sum.splits option.splits)
  have sl: "store_load ?t = store_load t" by (rule store_load_cong) simp
  have tl: "tree_load ?t = tree_load t"
  proof
    fix x show "tree_load ?t x = tree_load t x"
      using s None by (cases "x = h") (simp_all add: tree_load_def sl split: option.split)
  qed
  have a: "node_wf n \<and> bm_get (rt_store t) h = Some (encode n) \<and> dg (encode n) = h"
    if "addressed dg t" for dg
    using s addressed_store_load [OF that] addressed_store [OF that] by blast
  have "addressed dg ?t" if "addressed dg t" for dg
    using a [OF that] that unfolding addressed_def by auto
  moreover have "\<not> clash dg ?t" if "addressed dg t" "\<not> clash dg t" for dg
    using a [OF that(1)] that(2) by (auto simp: clash_def split: if_splits)
  ultimately show ?thesis using that [OF l tl] by blast
qed

lemma save_node_ext: "save_node dg t n = (t', r) \<Longrightarrow> tree_ext t t'"
proof (cases "bm_get (cache_read t) (dg (encode n))")
  case None
  assume s: "save_node dg t n = (t', r)"
  let ?h = "dg (encode n)"
  have t': "t' = t\<lparr>cache_read := bm_insert ?h n (cache_read t),
      cache_write := bm_insert ?h (encode n) (cache_write t)\<rparr>"
    using s None by (simp add: save_node_def hash_node_def)
  have sl: "store_load t' = store_load t" by (rule store_load_cong) (simp add: t')
  have "tracked t \<Longrightarrow> tracked t'" unfolding tracked_def sl by (auto simp: t')
  then show ?thesis using None by (auto simp: tree_ext_def t' intro!: map_le_SomeI)
next
  case (Some m)
  assume s: "save_node dg t n = (t', r)"
  let ?h = "dg (encode n)"
  have t': "t' = t \<or> (m = n \<and> t' = t\<lparr>cache_write := bm_insert ?h (encode n) (cache_write t)\<rparr>)"
    using s Some by (auto simp: save_node_def hash_node_def split: if_splits)
  have sl: "store_load t' = store_load t" using t' by (intro store_load_cong) auto
  have "tracked t'" if tr: "tracked t"
  proof (cases "t' = t")
    case False
    then have u: "cache_read t' = cache_read t" "m = n"
        "cache_write t' = bm_insert ?h (encode n) (cache_write t)" using t' by auto
    show ?thesis
      unfolding tracked_def sl
    proof (intro conjI allI impI)
      fix h k assume "bm_get (cache_read t') h = Some k"
      then show "store_load t h = Some k \<or> bm_get (cache_write t') h = Some (encode k)"
        using tr Some u unfolding tracked_def by (cases "h = ?h") auto
    next
      fix h bs assume "bm_get (cache_write t') h = Some bs"
      then show "\<exists>k. bm_get (cache_read t') h = Some k \<and> bs = encode k"
        using tr Some u unfolding tracked_def by (cases "h = ?h") auto
    qed (use tr u in \<open>simp add: tracked_def\<close>)
  qed (use tr in simp)
  moreover have "rt_store t' = rt_store t" "cache_read t' = cache_read t" using t' by auto
  ultimately show ?thesis by (simp add: tree_ext_def)
qed

lemma save_node_spec:
  assumes "addressed dg t" and "node_wf n" and "save_node dg t n = (t', r)"
  shows "addressed dg t'"
    and "case r of Inl e \<Rightarrow> real_collision dg e
         | Inr h \<Rightarrow> h = dg (encode n) \<and> bm_get (cache_read t') h = Some n"
proof -
  let ?h = "dg (encode n)"
  have t': "rt_store t' = rt_store t"
    "cache_read t' = cache_read t \<or> cache_read t' = bm_insert ?h n (cache_read t)"
    using assms(3) by (auto simp: save_node_def hash_node_def split: option.splits if_splits)
  have "node_wf m \<and> dg (encode m) = h" if "bm_get (cache_read t') h = Some m" for h m
    using that t'(2) assms(2) addressed_cache [OF assms(1), of h m] by (cases "h = ?h") auto
  then show "addressed dg t'" using assms(1) by (simp add: addressed_def t'(1))
  show "case r of Inl e \<Rightarrow> real_collision dg e
         | Inr h \<Rightarrow> h = dg (encode n) \<and> bm_get (cache_read t') h = Some n"
  proof (cases "bm_get (cache_read t) ?h")
    case (Some m)
    then have "node_wf m" "dg (encode m) = ?h" using addressed_cache [OF assms(1) Some] by auto
    then show ?thesis
      using Some assms(2,3)
      by (auto simp: save_node_def hash_node_def real_collision_def encode_inject split: if_splits)
  qed (use assms(3) in \<open>auto simp: save_node_def hash_node_def\<close>)
qed

lemma save_item_ext: "save_node_and_create_item dg t n p c = (t', r) \<Longrightarrow> tree_ext t t'"
  by (auto simp: save_node_and_create_item_def Let_def dest: save_node_ext
      split: if_splits prod.splits sum.splits list.splits item.splits)

lemma construct_ext: "construct_node_from_item t it = (t', r) \<Longrightarrow> tree_ext t t'"
  by (auto simp: construct_node_from_item_def dest: load_node_ext split: item.splits if_splits)

lemma update_ext: "update dg t it p v = (t', r) \<Longrightarrow> tree_ext t t'"
proof (induction dg t it p v arbitrary: t' r rule: update.induct)
  case (1 dg t it p v)
  show ?case
  proof (cases it)
    case (NodePtr pp h)
    obtain comm ir pr where cp: "common_prefix p pp = (comm, ir, pr)" by (metis prod_cases3)
    show ?thesis
    proof (cases "length pp < length p \<and> pr = []")
      case True
      obtain t1 r1 where l: "load_node t h False = (t1, r1)" by fastforce
      note e1 = load_node_ext [OF l]
      show ?thesis
      proof (cases r1)
        case (Inr child)
        obtain t2 r2 where u: "update dg t1 (child ! unat (hd ir)) (tl ir) v = (t2, r2)" by fastforce
        have e2: "tree_ext t1 t2" using "1.IH" NodePtr True cp l Inr u by simp
        show ?thesis
          using "1.prems" NodePtr True cp l Inr u tree_ext_trans [OF e1 e2]
          by (subst (asm) update.simps)
            (auto split: sum.splits option.splits prod.splits dest!: save_item_ext intro: tree_ext_trans)
      qed (use "1.prems" NodePtr True cp l e1 in \<open>subst (asm) update.simps, auto\<close>)
    next
      case False
      then show ?thesis
        using "1.prems" NodePtr cp
        by (subst (asm) update.simps) (auto split: if_splits sum.splits prod.splits dest!: save_item_ext)
    qed
  next
    case (Leaf lp lv)
    then show ?thesis
      using "1.prems"
      by (subst (asm) update.simps) (auto split: if_splits sum.splits prod.splits dest!: save_item_ext)
  qed (use "1.prems" in \<open>subst (asm) update.simps, simp\<close>)
qed

lemma delete_ext: "delete dg t it p = (t', r) \<Longrightarrow> tree_ext t t'"
proof (induction dg t it p arbitrary: t' r rule: delete.induct)
  case (1 dg t it p)
  show ?case
  proof (cases it)
    case (NodePtr pp h)
    obtain comm dr pr where cp: "common_prefix p pp = (comm, dr, pr)" by (metis prod_cases3)
    show ?thesis
    proof (cases "pr \<noteq> [] \<or> dr = []")
      case False
      obtain t1 r1 where l: "load_node t h False = (t1, r1)" by fastforce
      note e1 = load_node_ext [OF l]
      show ?thesis
      proof (cases r1)
        case (Inr child)
        obtain t2 r2 where u: "delete dg t1 (child ! unat (hd dr)) (tl dr) = (t2, r2)" by fastforce
        have e2: "tree_ext t1 t2" using "1.IH" NodePtr False cp l Inr u by simp
        show ?thesis
          using "1.prems" NodePtr False cp l Inr u tree_ext_trans [OF e1 e2]
          by (subst (asm) delete.simps)
            (auto split: sum.splits option.splits prod.splits dest!: save_item_ext intro: tree_ext_trans)
      qed (use "1.prems" NodePtr False cp l e1 in \<open>subst (asm) delete.simps, auto\<close>)
    qed (use "1.prems" NodePtr cp in \<open>subst (asm) delete.simps, auto\<close>)
  qed (use "1.prems" in \<open>subst (asm) delete.simps, auto split: if_splits\<close>)+
qed

lemma apply_action_ext: "apply_action dg t it a = (t', r) \<Longrightarrow> tree_ext t t'"
  by (auto simp: apply_action_def split: history_action.splits dest: update_ext delete_ext)

subsection \<open>Creating the item of a node\<close>

definition nonempty_slots :: "node \<Rightarrow> (nat \<times> item) list" where
  "nonempty_slots n = filter (\<lambda>(idx, it). it \<noteq> Empty) (enumerate 0 n)"

lemma set_nonempty_slots:
  "length n = NUM_ITEMS \<Longrightarrow> set (nonempty_slots n) = (\<lambda>i. (i, n ! i)) ` full_slots n"
  by (auto simp: nonempty_slots_def full_slots_def in_set_enumerate_eq)

lemma distinct_nonempty_slots: "distinct (map fst (nonempty_slots n))"
  unfolding nonempty_slots_def
  by (rule distinct_map_filter) simp

lemma nonempty_slots_two:
  assumes "length n = NUM_ITEMS" and "nonempty_slots n = a # b # xs"
  shows "branching n"
proof -
  have "fst a \<noteq> fst b" using distinct_nonempty_slots [of n] assms(2) by auto
  moreover have "{a, b} \<subseteq> (\<lambda>i. (i, n ! i)) ` full_slots n"
    using set_nonempty_slots [OF assms(1)] assms(2) by auto
  ultimately show ?thesis unfolding branching_def by force
qed

lemma node_lookup_update:
  assumes "length n = NUM_ITEMS"
  shows "node_lookup ld (n[unat b := it]) k =
     (case k of [] \<Rightarrow> None | c # r \<Rightarrow> if c = b then item_lookup ld it r else node_lookup ld n k)"
  using assms by (cases k) (auto simp: nth_list_update)

lemma node_lookup_empty [simp]: "node_lookup ld empty_node k = None"
  by (cases k) auto

text \<open>The item stands for the keys of the node behind the prefix.\<close>

definition behind :: "key_segment \<Rightarrow> (key_segment \<Rightarrow> hash32 option) \<Rightarrow> key_segment \<Rightarrow> hash32 option" where
  "behind p f k = (case strip_prefix p k of None \<Rightarrow> None | Some r \<Rightarrow> f r)"

lemma item_lookup_NodePtr: "ld h = Some n \<Longrightarrow> item_lookup ld (NodePtr p h) = behind p (node_lookup ld n)"
  by (auto simp: behind_def fun_eq_iff split: option.split)

lemma behind_append [simp]: "behind p f (p @ k) = f k"
  by (simp add: behind_def)

lemma behind_self [simp]: "behind p f p = f []"
  by (simp add: behind_def)

lemma behind_None: "(\<And>r. k \<noteq> p @ r) \<Longrightarrow> behind p f k = None"
  by (simp add: behind_def strip_prefix_None [THEN iffD2])

lemma behind_cases:
  obtains r where "k = p @ r" | "\<And>f. behind p f k = None" "\<And>r. k \<noteq> p @ r"
  by (cases "strip_prefix p k") (auto simp: behind_def strip_prefix_None)

lemma single_slot_lookup:
  assumes n: "length n = NUM_ITEMS" and s: "nonempty_slots n = [(i, it)]"
  shows "node_lookup ld n = behind [of_nat i] (item_lookup ld it)" and "it \<in> set n" and "it \<noteq> Empty"
proof -
  have f: "(\<lambda>i. (i, n ! i)) ` full_slots n = {(i, it)}" using set_nonempty_slots [OF n] s by simp
  then have "(i, it) \<in> (\<lambda>i. (i, n ! i)) ` full_slots n" by simp
  then have i: "i \<in> full_slots n" "n ! i = it" by auto
  have other: "n ! j = Empty" if "j < NUM_ITEMS" "j \<noteq> i" for j
  proof (rule ccontr)
    assume "n ! j \<noteq> Empty"
    then have "(j, n ! j) \<in> {(i, it)}" using f that by (auto simp: full_slots_def)
    then show False using that by simp
  qed
  have u: "unat (of_nat i :: byte) = i"
    using i by (intro unat_idx) (auto simp: full_slots_def NUM_ITEMS_def)
  show "node_lookup ld n = behind [of_nat i] (item_lookup ld it)"
  proof
    fix k show "node_lookup ld n k = behind [of_nat i] (item_lookup ld it) k"
    proof (cases k)
      case (Cons c r)
      show ?thesis
      proof (cases "c = of_nat i")
        case False
        then have "unat c \<noteq> i" using u by (metis unat_byte_eq)
        then show ?thesis using Cons False other [of "unat c"] by (auto simp: behind_def)
      qed (use Cons u i in \<open>auto simp: behind_def\<close>)
    qed (simp add: behind_def)
  qed
  show "it \<in> set n" using i n by (auto simp: full_slots_def)
  show "it \<noteq> Empty" using i by (auto simp: full_slots_def)
qed

lemma behind_behind: "behind p (behind q f) = behind (p @ q) f"
  by (auto simp: behind_def fun_eq_iff strip_prefix_append_left split: option.split bind_split)

lemma item_lookup_Leaf_behind: "item_lookup ld (Leaf (p @ q) v) = behind p (item_lookup ld (Leaf q v))"
proof
  fix k show "item_lookup ld (Leaf (p @ q) v) k = behind p (item_lookup ld (Leaf q v)) k"
    by (rule behind_cases [of k p]) auto
qed

lemma item_lookup_NodePtr_behind:
  "item_lookup ld (NodePtr (p @ q) h) = behind p (item_lookup ld (NodePtr q h))"
  by (auto simp: behind_def fun_eq_iff strip_prefix_append_left split: option.split bind_split)

lemma save_item_spec:
  assumes dg: "digest_ok dg" and a: "addressed dg t" and nc: "\<not> clash dg t"
    and n: "node_ok (tree_load t) L n" and L: "length p + Suc L \<le> 127"
    and b: "c \<or> branching n"
    and s: "save_node_and_create_item dg t n p c = (t', r)"
  shows "good_step dg t t' (\<lambda>ld. case r of Inl e \<Rightarrow> real_collision dg e
     | Inr it \<Rightarrow> item_ok ld (length p + Suc L) it \<and> item_lookup ld it = behind p (node_lookup ld n) \<and>
         (\<not> c \<longrightarrow> it \<noteq> Empty))"
    (is "good_step dg t t' ?P")
proof -
  have len: "length n = NUM_ITEMS" using n by (simp add: node_ok_def)
  have wf: "node_wf n" using node_ok_wf [OF n] L by simp
  have save: "good_step dg t t' ?P"
    if br: "branching n"
      and sv: "(t', r) = (case save_node dg t n of (t', Inl e) \<Rightarrow> (t', Inl e) | (t', Inr ptr) \<Rightarrow> (t', Inr (NodePtr p ptr)))"
  proof -
    obtain r1 where r1: "save_node dg t n = (t', r1)"
      using sv by (auto split: prod.splits sum.splits)
    have e: "tree_ext t t'" by (rule save_node_ext [OF r1])
    note sp = save_node_spec [OF a wf r1]
    have "?P ld" if bl: "below t' ld" for ld
    proof (cases r1)
      case (Inl e)
      then show ?thesis using sv r1 sp(2) by simp
    next
      case (Inr h)
      have h: "h = dg (encode n)" "ld h = Some n"
        using sp(2) Inr map_le_Some [of "bm_get (cache_read t')" ld h n] bl by (auto simp: below_def)
      have "node_ok ld L n"
        by (rule node_ok_mono [OF n below_load [OF below_ext [OF bl e]]])
      then show ?thesis
        using sv r1 Inr h br dg by (simp add: item_ok_NodePtr item_lookup_NodePtr digest_ok_def del: item_lookup_simps)
    qed
    then show ?thesis using e sp(1) by (simp add: good_step_def)
  qed
  show ?thesis
  proof (cases "c \<and> length (nonempty_slots n) < 2")
    case False
    then have br: "branching n"
      using b nonempty_slots_two [OF len] by (cases "nonempty_slots n" rule: list.exhaust [case_names Nil Cons]) (auto simp: neq_Nil_conv not_less numeral_2_eq_2 Suc_le_length_iff)
    have "(t', r) = (case save_node dg t n of (t', Inl e) \<Rightarrow> (t', Inl e) | (t', Inr ptr) \<Rightarrow> (t', Inr (NodePtr p ptr)))"
      using s False unfolding save_node_and_create_item_def nonempty_slots_def [symmetric]
      by (auto simp: Let_def split: list.splits item.splits if_splits)
    then show ?thesis by (rule save [OF br])
  next
    case True
    have "nonempty_slots n = [] \<or> (\<exists>i it. nonempty_slots n = [(i, it)])"
      using True by (cases "nonempty_slots n") auto
    then show ?thesis
    proof
      assume e: "nonempty_slots n = []"
      then have "t' = t" "r = Inr Empty"
        using s True unfolding save_node_and_create_item_def nonempty_slots_def [symmetric] by auto
      moreover have "full_slots n = {}" using set_nonempty_slots [OF len] e by simp
      then have "node_lookup ld n k = None" for ld k
        by (cases k) (auto simp: full_slots_def)
      then have "behind p (node_lookup ld n) = (\<lambda>k. None)" for ld
        by (auto simp: behind_def fun_eq_iff split: option.split)
      ultimately show ?thesis using True a by (auto intro!: good_step_refl simp: fun_eq_iff)
    next
      assume "\<exists>i it. nonempty_slots n = [(i, it)]"
      then obtain i it where e: "nonempty_slots n = [(i, it)]" by blast
      note sl = single_slot_lookup [OF len e]
      have it: "item_ok (tree_load t) L it" using n sl(2) by (simp add: node_ok_def)
      have t: "t' = t" using s True e sl(3)
        unfolding save_node_and_create_item_def nonempty_slots_def [symmetric]
        by (cases it) auto
      have "?P ld" if bl: "below t ld" for ld
      proof -
        have ok: "item_ok ld L it" by (rule item_ok_mono [OF it below_load [OF bl]])
        have eq: "behind p (node_lookup ld n) = behind (p @ [of_nat i]) (item_lookup ld it)"
          by (simp add: sl(1) behind_behind)
        show ?thesis
        proof (cases it)
          case (Leaf q v)
          then have "r = Inr (Leaf ((p @ [of_nat i]) @ q) v)"
            using s True e unfolding save_node_and_create_item_def nonempty_slots_def [symmetric] by auto
          then show ?thesis
            using ok Leaf True unfolding eq by (simp add: item_lookup_Leaf_behind del: append_assoc)
        next
          case (NodePtr q h)
          then have "r = Inr (NodePtr ((p @ [of_nat i]) @ q) h)"
            using s True e unfolding save_node_and_create_item_def nonempty_slots_def [symmetric] by auto
          then show ?thesis
            using ok NodePtr True unfolding eq
            by (auto simp: item_lookup_NodePtr_behind item_ok_NodePtr simp del: append_assoc item_lookup_simps)
        qed (use sl(3) in simp)
      qed
      then show ?thesis unfolding t by (intro good_step_refl a)
    qed
  qed
qed

subsection \<open>Insertion and deletion of one key\<close>

text \<open>Two leaves, or a leaf and a pointer, under the common prefix of their keys.\<close>

lemma two_slot_node:
  assumes "a \<noteq> b" and "item_ok ld L x" and "item_ok ld L y" and "x \<noteq> Empty" and "y \<noteq> Empty"
  defines "n \<equiv> (empty_node[unat (a :: byte) := x])[unat b := y]"
  shows "node_ok ld L n" and "branching n"
    and "node_lookup ld' n k = (case k of [] \<Rightarrow> None
      | c # r \<Rightarrow> if c = b then item_lookup ld' y r else if c = a then item_lookup ld' x r else None)"
proof -
  show "node_ok ld L n" unfolding n_def by (intro node_ok_update assms) simp
  have "unat a \<noteq> unat b" using assms(1) by simp
  then have "unat a \<in> full_slots n" "unat b \<in> full_slots n"
    using assms by (auto simp: n_def full_slots_def)
  then show "branching n" using \<open>unat a \<noteq> unat b\<close> unfolding branching_def by blast
  show "node_lookup ld' n k = (case k of [] \<Rightarrow> None
      | c # r \<Rightarrow> if c = b then item_lookup ld' y r else if c = a then item_lookup ld' x r else None)"
    unfolding n_def by (cases k) (auto simp: nth_list_update)
qed

lemma branching_update: "branching n \<Longrightarrow> length n = NUM_ITEMS \<Longrightarrow> it \<noteq> Empty \<Longrightarrow> branching (n[i := it])"
proof -
  assume "branching n" and n: "length n = NUM_ITEMS" "it \<noteq> Empty"
  then obtain j k where "j \<noteq> k" "j \<in> full_slots n" "k \<in> full_slots n" by (auto simp: branching_def)
  moreover have "full_slots n \<subseteq> full_slots (n[i := it])"
    using n by (auto simp: full_slots_def) (metis nth_list_update_eq nth_list_update_neq)
  ultimately show ?thesis unfolding branching_def by blast
qed

text \<open>
  The result of setting the key \<open>p\<close> of an item to \<open>w\<close>: \<^const>\<open>Some\<close> hash for an insertion, \<^const>\<open>None\<close> for a
  deletion. No new item means that the item holds \<open>w\<close> already.
\<close>

definition item_result ::
  "(bytes \<Rightarrow> hash32) \<Rightarrow> nat \<Rightarrow> item \<Rightarrow> key_segment \<Rightarrow> hash32 option \<Rightarrow> rt_panic + item option \<Rightarrow>
   (hash32 \<rightharpoonup> node) \<Rightarrow> bool" where
  "item_result dg L it p w r ld =
     (case r of
        Inl e \<Rightarrow> real_collision dg e
      | Inr None \<Rightarrow> item_lookup ld it p = w
      | Inr (Some it') \<Rightarrow>
          (w \<noteq> None \<longrightarrow> it' \<noteq> Empty) \<and> item_ok ld L it' \<and> item_lookup ld it' = (item_lookup ld it)(p := w))"

lemma save_branch:
  assumes "digest_ok dg" and "addressed dg t" and "\<not> clash dg t"
    and n: "node_ok (tree_load t) L' n" "w \<noteq> None \<Longrightarrow> branching n"
    and L: "L = length comm + Suc L'" "L \<le> 127"
    and s: "(case save_node_and_create_item dg t n comm (w = None) of
        (t', Inl e) \<Rightarrow> (t', Inl e) | (t', Inr it) \<Rightarrow> (t', Inr (Some it))) = (t', r)"
    and eq: "\<And>ld. below t' ld \<Longrightarrow> behind comm (node_lookup ld n) = (item_lookup ld it)(p := w)"
  shows "good_step dg t t' (item_result dg L it p w r)"
proof -
  obtain r1 where s1: "save_node_and_create_item dg t n comm (w = None) = (t', r1)"
    and r: "r = (case r1 of Inl e \<Rightarrow> Inl e | Inr it \<Rightarrow> Inr (Some it))"
    using s by (auto split: prod.splits sum.splits)
  have b: "w = None \<or> branching n" using n(2) by blast
  show ?thesis
    by (rule good_step_mono [OF save_item_spec [OF assms(1-3) n(1) _ b s1]])
      (use L r eq in \<open>auto simp: item_result_def split: sum.splits\<close>)
qed

text \<open>Splitting a leaf, and splitting a pointer.\<close>

lemma split_leaf_spec:
  assumes a: "digest_ok dg" "addressed dg t" "\<not> clash dg t"
    and cp: "common_prefix p lp = (comm, i # ir, l # lr)"
    and L: "length p = L" "length lp = L" "L \<le> 127" and v: "hash32_ok v" "hash32_ok lv"
    and s: "(case save_node_and_create_item dg t
          ((empty_node[unat l := Leaf lr lv])[unat i := Leaf ir v]) comm False of
          (t', Inl e) \<Rightarrow> (t', Inl e) | (t', Inr it) \<Rightarrow> (t', Inr (Some it))) = (t', r)"
  shows "good_step dg t t' (item_result dg L (Leaf lp lv) p (Some v) r)"
proof -
  note sp = common_prefix_split [OF cp]
  have il: "l \<noteq> i" using common_prefix_heads [OF cp] by auto
  have lens: "length lr = length ir" "L = length comm + Suc (length ir)" using sp L by auto
  note two = two_slot_node [OF il, of "tree_load t" "length ir" "Leaf lr lv" "Leaf ir v"]
  show ?thesis
  proof (rule save_branch [OF a _ _ lens(2) L(3), where w = "Some v"])
    show "node_ok (tree_load t) (length ir) ((empty_node[unat l := Leaf lr lv])[unat i := Leaf ir v])"
      and "branching ((empty_node[unat l := Leaf lr lv])[unat i := Leaf ir v])"
      using two lens v by auto
    fix ld
    have "behind comm (node_lookup ld ((empty_node[unat l := Leaf lr lv])[unat i := Leaf ir v])) k =
        ((item_lookup ld (Leaf lp lv))(p \<mapsto> v)) k" for k
      by (rule behind_cases [of k comm])
        (use il sp in \<open>auto simp: nth_list_update node_lookup_def split: list.split\<close>)
    then show "behind comm (node_lookup ld ((empty_node[unat l := Leaf lr lv])[unat i := Leaf ir v])) =
        (item_lookup ld (Leaf lp lv))(p \<mapsto> v)" by blast
  qed (use s in simp)
qed

lemma split_ptr_spec:
  assumes a: "digest_ok dg" "addressed dg t" "\<not> clash dg t"
    and ok: "item_ok (tree_load t) L (NodePtr pp h)"
    and cp: "common_prefix p pp = (comm, i # ir, c # pr)"
    and L: "length p = L" "L \<le> 127" and v: "hash32_ok v"
    and s: "(case save_node_and_create_item dg t
          ((empty_node[unat c := NodePtr pr h])[unat i := Leaf ir v]) comm False of
          (t', Inl e) \<Rightarrow> (t', Inl e) | (t', Inr it) \<Rightarrow> (t', Inr (Some it))) = (t', r)"
  shows "good_step dg t t' (item_result dg L (NodePtr pp h) p (Some v) r)"
proof -
  note sp = common_prefix_split [OF cp]
  have ci: "c \<noteq> i" using common_prefix_heads [OF cp] by auto
  have len: "L = length comm + Suc (length ir)" using sp L by auto
  have pp: "pp = comm @ [c] @ pr" using sp by simp
  have po: "item_ok (tree_load t) (length ir) (NodePtr pr h)"
    using ok len by (auto simp: item_ok_NodePtr pp)
  note two = two_slot_node [OF ci po, of "Leaf ir v"]
  show ?thesis
  proof (rule save_branch [OF a _ _ len L(2), where w = "Some v"])
    show "node_ok (tree_load t) (length ir) ((empty_node[unat c := NodePtr pr h])[unat i := Leaf ir v])"
      and "branching ((empty_node[unat c := NodePtr pr h])[unat i := Leaf ir v])"
      using two v by auto
    fix ld
    have "behind comm (node_lookup ld ((empty_node[unat c := NodePtr pr h])[unat i := Leaf ir v])) k =
        ((item_lookup ld (NodePtr pp h))(p \<mapsto> v)) k" for k
    proof (rule behind_cases [of k comm])
      fix k' assume k: "k = comm @ k'"
      show ?thesis
        using ci sp by (cases k') (auto simp: k nth_list_update strip_prefix_append_left)
    next
      assume "\<And>f. behind comm f k = None" and k: "\<And>r. k \<noteq> comm @ r"
      moreover have "strip_prefix comm k = None" using k by (simp add: strip_prefix_None)
      ultimately show ?thesis using k sp by (auto simp: strip_prefix_append_left)
    qed
    then show "behind comm (node_lookup ld ((empty_node[unat c := NodePtr pr h])[unat i := Leaf ir v])) =
        (item_lookup ld (NodePtr pp h))(p \<mapsto> v)" by blast
  qed (use s in simp)
qed

text \<open>Descending into the child behind a pointer, for insertion and deletion alike.\<close>

lemma descend_save:
  assumes a: "digest_ok dg" "addressed dg t" "\<not> clash dg t"
    and ld0: "tree_load t h = Some child" "branching child"
    and ch: "node_ok (tree_load t) L' child" and L: "L = length pp + Suc L'" "L \<le> 127"
    and ni: "item_result dg L' (child ! unat i) ir w (Inr (Some ni)) (tree_load t)"
    and ni': "\<And>ld. below t ld \<Longrightarrow> item_lookup ld ni = (item_lookup ld (child ! unat i))(ir := w)"
    and s: "(case save_node_and_create_item dg t (child[unat i := ni]) pp (w = None) of
          (t', Inl e) \<Rightarrow> (t', Inl e) | (t', Inr it) \<Rightarrow> (t', Inr (Some it))) = (t', r)"
  shows "good_step dg t t' (item_result dg L (NodePtr pp h) (pp @ i # ir) w r)"
proof (rule save_branch [OF a _ _ L s])
  have len: "length child = NUM_ITEMS" using ch by (simp add: node_ok_def)
  have nio: "w \<noteq> None \<Longrightarrow> ni \<noteq> Empty" "item_ok (tree_load t) L' ni"
    using ni by (auto simp: item_result_def)
  show "node_ok (tree_load t) L' (child[unat i := ni])" by (rule node_ok_update [OF ch nio(2)])
  show "w \<noteq> None \<Longrightarrow> branching (child[unat i := ni])"
    by (rule branching_update [OF ld0(2) len nio(1)])
  fix ld assume bl: "below t' ld"
  have e: "tree_ext t t'" using s by (auto split: sum.splits prod.splits dest: save_item_ext)
  have bt: "below t ld" by (rule below_ext [OF bl e])
  have lh: "ld h = Some child" by (rule below_Some [OF bt ld0(1)])
  have "behind pp (node_lookup ld (child[unat i := ni])) k =
      ((item_lookup ld (NodePtr pp h))(pp @ i # ir := w)) k" for k
    by (rule behind_cases [of k pp])
      (use ni' [OF bt] lh len in \<open>auto simp: node_lookup_update behind_def split: list.split option.split\<close>)
  then show "behind pp (node_lookup ld (child[unat i := ni])) =
      (item_lookup ld (NodePtr pp h))(pp @ i # ir := w)" by blast
qed

lemma descend_spec:
  assumes a: "digest_ok dg" "addressed dg t" "\<not> clash dg t"
    and ok: "item_ok (tree_load t) L (NodePtr pp h)" and L: "length (pp @ i # ir) = L" "L \<le> 127"
    and child: "tree_load t h = Some child"
    and g: "good_step dg t t2 (item_result dg (length ir) (child ! unat i) ir w r2)"
    and res: "(case r2 of Inl e \<Rightarrow> (t2, Inl e) | Inr None \<Rightarrow> (t2, Inr None)
          | Inr (Some ni) \<Rightarrow>
              (case save_node_and_create_item dg t2 (child[unat i := ni]) pp (w = None) of
                 (t3, Inl e) \<Rightarrow> (t3, Inl e) | (t3, Inr it) \<Rightarrow> (t3, Inr (Some it)))) = (t', r)"
  shows "good_step dg t t' (item_result dg L (NodePtr pp h) (pp @ i # ir) w r)"
proof (cases "\<exists>ni. r2 = Inr (Some ni)")
  case False
  have e: "tree_ext t t2" by (rule good_step_ext [OF g])
  have t': "t' = t2" "r = r2" using False res by (auto split: sum.splits option.splits)
  show ?thesis
    unfolding t'
  proof (rule good_step_mono [OF g])
    fix ld assume bl: "below t2 ld" and ir: "item_result dg (length ir) (child ! unat i) ir w r2 ld"
    have "ld h = Some child" by (rule below_Some [OF below_ext [OF bl e] child])
    then show "item_result dg L (NodePtr pp h) (pp @ i # ir) w r2 ld"
      using False ir by (auto simp: item_result_def split: sum.splits option.splits)
  qed
next
  case True
  then obtain ni where ni: "r2 = Inr (Some ni)" by blast
  have s: "(case save_node_and_create_item dg t2 (child[unat i := ni]) pp (w = None) of
        (t3, Inl e) \<Rightarrow> (t3, Inl e) | (t3, Inr it) \<Rightarrow> (t3, Inr (Some it))) = (t', r)"
    using res ni by simp
  have e: "tree_ext t2 t'" using s by (auto split: sum.splits prod.splits dest: save_item_ext)
  show ?thesis
  proof (rule good_step_bind [OF g e, where Q = "item_result dg L (NodePtr pp h) (pp @ i # ir) w r"])
    assume a2: "addressed dg t2" "\<not> clash dg t2"
      and ir: "item_result dg (length ir) (child ! unat i) ir w r2 (tree_load t2)"
    have b2: "below t (tree_load t2)"
      by (rule below_ext [OF below_tree_load [OF a2] good_step_ext [OF g]])
    have ch: "branching child" "node_ok (tree_load t2) (length ir) child"
      using ok child L node_ok_mono [OF _ below_load [OF b2]] by (auto simp: item_ok_NodePtr)
    have "item_lookup ld ni = (item_lookup ld (child ! unat i))(ir := w)" if "below t2 ld" for ld
      using g a2 that ni by (auto simp: good_step_def item_result_def)
    then show "good_step dg t2 t' (item_result dg L (NodePtr pp h) (pp @ i # ir) w r)"
      using L ir ni s by (intro descend_save [OF a(1) a2 below_Some [OF b2 child] ch(1,2)]) auto
  qed
qed

lemma load_child:
  assumes "addressed dg t" "\<not> clash dg t" and "item_ok (tree_load t) L (NodePtr pp h)"
  obtains t1 child where "load_node t h False = (t1, Inr child)" "tree_ext t t1" "addressed dg t1"
    "\<not> clash dg t1" "tree_load t1 = tree_load t" "tree_load t1 h = Some child"
    "\<And>i. item_ok (tree_load t1) (L - Suc (length pp)) (child ! unat (i :: byte))"
proof -
  obtain child where ch: "tree_load t h = Some child" "node_ok (tree_load t) (L - Suc (length pp)) child"
    using assms(3) by (auto simp: item_ok_NodePtr)
  obtain t1 where t1: "load_node t h False = (t1, Inr child)" "tree_load t1 = tree_load t"
      "addressed dg t1" "\<not> clash dg t1"
    using load_node_some [OF ch(1), where b = False] assms(1,2) by metis
  show thesis
    by (rule that [OF t1(1) load_node_ext [OF t1(1)] t1(3,4,2)])
      (use ch t1(2) node_ok_nth [OF ch(2) unat_slot] in auto)
qed

lemma good_step_after:
  "tree_ext t t1 \<Longrightarrow> good_step dg t1 t' P \<Longrightarrow> good_step dg t t' P"
  unfolding good_step_def using tree_ext_trans by blast

lemma update_spec:
  assumes "digest_ok dg"
  shows "addressed dg t \<Longrightarrow> \<not> clash dg t \<Longrightarrow> item_ok (tree_load t) L it \<Longrightarrow> length p = L \<Longrightarrow> L \<le> 127 \<Longrightarrow>
    hash32_ok v \<Longrightarrow> update dg t it p v = (t', r) \<Longrightarrow> good_step dg t t' (item_result dg L it p (Some v) r)"
  using assms
proof (induction dg t it p v arbitrary: L t' r rule: update.induct)
  case (1 dg t it p v)
  note prems = "1.prems"
  show ?case
  proof (cases it)
    case Empty
    then have "t' = t" "r = Inr (Some (Leaf p v))" using prems(7) by (auto simp: update.simps)
    then show ?thesis using prems Empty by (auto intro!: good_step_refl simp: item_result_def fun_eq_iff)
  next
    case (Leaf lp lv)
    have ll: "length lp = L" "hash32_ok lv" using prems(3) Leaf by auto
    show ?thesis
    proof (cases "lp = p")
      case True
      then have "t' = t" "r = Inr (if v = lv then None else Some (Leaf p v))"
        using prems(7) Leaf by (auto simp: update.simps)
      then show ?thesis
        using prems Leaf True by (auto intro!: good_step_refl simp: item_result_def fun_eq_iff)
    next
      case False
      obtain comm ir lr where cp: "common_prefix p lp = (comm, ir, lr)" by (metis prod_cases3)
      have "ir \<noteq> []" "lr \<noteq> []" using common_prefix_split [OF cp] False ll prems(4) by auto
      then obtain i ir' l lr' where ne: "ir = i # ir'" "lr = l # lr'" by (auto simp: neq_Nil_conv)
      show ?thesis
        unfolding Leaf
        by (rule split_leaf_spec [OF prems(8,1,2) cp [unfolded ne]])
          (use prems Leaf False ll cp ne in \<open>simp_all add: update.simps Let_def\<close>)
    qed
  next
    case (NodePtr pp h)
    obtain comm ir pr where cp: "common_prefix p pp = (comm, ir, pr)" by (metis prod_cases3)
    note sp = common_prefix_split [OF cp]
    have ok: "item_ok (tree_load t) L (NodePtr pp h)" using prems(3) NodePtr by simp
    then have lt: "length pp < length p" using prems(4) by (simp add: item_ok_NodePtr)
    then have "ir \<noteq> []" using sp by auto
    then obtain i ir' where ne: "ir = i # ir'" by (auto simp: neq_Nil_conv)
    show ?thesis
    proof (cases "pr = []")
      case True
      have p: "p = pp @ i # ir'" "comm = pp" using sp True ne by auto
      obtain t1 child where l: "load_node t h False = (t1, Inr child)" "tree_ext t t1"
          and a1: "addressed dg t1" "\<not> clash dg t1" and tl: "tree_load t1 = tree_load t"
          and ch: "tree_load t1 h = Some child"
            "\<And>i. item_ok (tree_load t1) (L - Suc (length pp)) (child ! unat (i :: byte))"
        by (rule load_child [OF prems(1,2) ok]) blast
      obtain t2 r2 where u: "update dg t1 (child ! unat i) ir' v = (t2, r2)" by fastforce
      have Lr: "L - Suc (length pp) = length ir'" using p prems(4) by simp
      have g: "good_step dg t1 t2 (item_result dg (length ir') (child ! unat i) ir' (Some v) r2)"
        using "1.IH" [OF NodePtr _ cp [symmetric] refl True l(1) [symmetric] refl refl, of "length ir'" t2 r2]
          lt ne a1 u ch(2) [of i, unfolded Lr] prems(4-6,8) p by simp
      have "(case r2 of Inl e \<Rightarrow> (t2, Inl e) | Inr None \<Rightarrow> (t2, Inr None)
          | Inr (Some ni) \<Rightarrow> (case save_node_and_create_item dg t2 (child[unat i := ni]) pp (Some v = None) of
                (t3, Inl e) \<Rightarrow> (t3, Inl e) | (t3, Inr it) \<Rightarrow> (t3, Inr (Some it)))) = (t', r)"
        using prems(7) NodePtr lt cp True l(1) u ne p(2)
        by (subst (asm) update.simps) (auto simp: Let_def split: sum.splits option.splits)
      then show ?thesis
        using good_step_after [OF l(2) descend_spec [OF prems(8) a1 _ _ prems(5) ch(1) g]]
          ok prems(4) tl NodePtr p(1) by simp
    next
      case False
      then obtain c pr' where pr: "pr = c # pr'" by (auto simp: neq_Nil_conv)
      show ?thesis
        unfolding NodePtr
        by (rule split_ptr_spec [OF prems(8,1,2) ok cp [unfolded ne pr] prems(4-6)])
          (use prems(7) NodePtr lt cp ne pr in \<open>simp add: update.simps Let_def\<close>)
    qed
  qed
qed

lemma delete_spec:
  assumes "digest_ok dg"
  shows "addressed dg t \<Longrightarrow> \<not> clash dg t \<Longrightarrow> item_ok (tree_load t) L it \<Longrightarrow> length p = L \<Longrightarrow> L \<le> 127 \<Longrightarrow>
    delete dg t it p = (t', r) \<Longrightarrow> good_step dg t t' (item_result dg L it p None r)"
  using assms
proof (induction dg t it p arbitrary: L t' r rule: delete.induct)
  case (1 dg t it p)
  note prems = "1.prems"
  show ?case
  proof (cases it)
    case Empty
    then have "t' = t" "r = Inr None" using prems(6) by (auto simp: delete.simps)
    then show ?thesis using prems Empty by (auto intro!: good_step_refl simp: item_result_def)
  next
    case (Leaf lp lv)
    then have "t' = t" "r = Inr (if lp = p then Some Empty else None)"
      using prems(6) by (auto simp: delete.simps)
    then show ?thesis
      using prems Leaf by (auto intro!: good_step_refl simp: item_result_def fun_eq_iff)
  next
    case (NodePtr pp h)
    obtain comm dr pr where cp: "common_prefix p pp = (comm, dr, pr)" by (metis prod_cases3)
    note sp = common_prefix_split [OF cp]
    have ok: "item_ok (tree_load t) L (NodePtr pp h)" using prems(3) NodePtr by simp
    show ?thesis
    proof (cases "pr \<noteq> [] \<or> dr = []")
      case True
      then have t': "t' = t" "r = Inr None" using prems(6) NodePtr cp by (auto simp: delete.simps)
      have "length pp < length p" using ok prems(4) by (simp add: item_ok_NodePtr)
      then have "dr \<noteq> []" using sp by auto
      then have "hd dr \<noteq> hd pr" "pr \<noteq> []" using True common_prefix_heads [OF cp] by auto
      then have "strip_prefix pp p = None"
        using sp \<open>dr \<noteq> []\<close> by (auto simp: strip_prefix_None)
      then show ?thesis using prems NodePtr t' by (auto intro!: good_step_refl simp: item_result_def)
    next
      case False
      then obtain i dr' where ne: "dr = i # dr'" "pr = []" by (cases dr) auto
      have p: "p = pp @ i # dr'" "comm = pp" using sp ne by auto
      obtain t1 child where l: "load_node t h False = (t1, Inr child)" "tree_ext t t1"
          and a1: "addressed dg t1" "\<not> clash dg t1" and tl: "tree_load t1 = tree_load t"
          and ch: "tree_load t1 h = Some child"
            "\<And>i. item_ok (tree_load t1) (L - Suc (length pp)) (child ! unat (i :: byte))"
        by (rule load_child [OF prems(1,2) ok]) blast
      obtain t2 r2 where u: "delete dg t1 (child ! unat i) dr' = (t2, r2)" by fastforce
      have Lr: "L - Suc (length pp) = length dr'" using p prems(4) by simp
      have g: "good_step dg t1 t2 (item_result dg (length dr') (child ! unat i) dr' None r2)"
        using "1.IH" [OF NodePtr cp [symmetric] refl False l(1) [symmetric] refl refl, of "length dr'" t2 r2]
          ne a1 u ch(2) [of i, unfolded Lr] prems(4,5,7) p by simp
      have "(case r2 of Inl e \<Rightarrow> (t2, Inl e) | Inr None \<Rightarrow> (t2, Inr None)
          | Inr (Some ni) \<Rightarrow> (case save_node_and_create_item dg t2 (child[unat i := ni]) pp ((None :: hash32 option) = None) of
                (t3, Inl e) \<Rightarrow> (t3, Inl e) | (t3, Inr it) \<Rightarrow> (t3, Inr (Some it)))) = (t', r)"
        using prems(6) NodePtr cp l(1) u ne p(2)
        by (subst (asm) delete.simps) (auto simp: Let_def split: sum.splits option.splits)
      then show ?thesis
        using good_step_after [OF l(2) descend_spec [OF prems(7) a1 _ _ prems(5) ch(1) g]]
          ok prems(4) tl NodePtr p(1) by simp
    qed
  qed
qed

section \<open>Batches of actions\<close>

text \<open>What a batch of actions does to a map.\<close>

fun action_value :: "history_action \<Rightarrow> hash32 option" where
  "action_value (Insert k h) = Some h"
| "action_value (Delete k) = None"

definition apply_actions ::
  "history_action list \<Rightarrow> (key_segment \<rightharpoonup> hash32) \<Rightarrow> (key_segment \<rightharpoonup> hash32)" where
  "apply_actions as m = fold (\<lambda>a m. m(action_key a := action_value a)) as m"

definition actions_ok :: "nat \<Rightarrow> history_action list \<Rightarrow> bool" where
  "actions_ok L as \<longleftrightarrow>
     (\<forall>a\<in>set as. length (action_key a) = L \<and> (\<forall>h. action_value a = Some h \<longrightarrow> hash32_ok h)) \<and>
     distinct (map action_key as)"

lemma apply_actions_Nil [simp]: "apply_actions [] m = m"
  by (simp add: apply_actions_def)

lemma apply_actions_other: "k \<notin> action_key ` set as \<Longrightarrow> apply_actions as m k = m k"
  unfolding apply_actions_def by (induction as arbitrary: m) auto

lemma apply_actions_mem:
  "distinct (map action_key as) \<Longrightarrow> a \<in> set as \<Longrightarrow> apply_actions as m (action_key a) = action_value a"
proof (induction as arbitrary: m)
  case (Cons x as)
  show ?case
  proof (cases "a = x")
    case True
    then have "apply_actions as (m(action_key x := action_value x)) (action_key a) = action_value x"
      using Cons.prems by (subst apply_actions_other) auto
    then show ?thesis using True by (simp add: apply_actions_def)
  qed (use Cons in \<open>auto simp: apply_actions_def\<close>)
qed simp

lemma action_value_trim [simp]: "action_value (action_trim a) = action_value a"
  by (cases a) auto

text \<open>The groups of a batch: one for each first byte, holding the actions with that byte in order.\<close>

lemma map_of_add_to_group:
  "map_of (add_to_group a gs) =
     (map_of gs)(hd (action_key a) \<mapsto> (case map_of gs (hd (action_key a)) of None \<Rightarrow> [] | Some g \<Rightarrow> g) @ [a])"
  by (induction a gs rule: add_to_group.induct) (auto simp: fun_eq_iff)

lemma fst_add_to_group:
  "fst ` set (add_to_group a gs) = insert (hd (action_key a)) (fst ` set gs)"
  by (induction a gs rule: add_to_group.induct) auto

lemma distinct_add_to_group: "distinct (map fst gs) \<Longrightarrow> distinct (map fst (add_to_group a gs))"
  by (induction a gs rule: add_to_group.induct) (auto simp: fst_add_to_group)

lemma group_actions_snoc: "group_actions (as @ [a]) = add_to_group a (group_actions as)"
  by (simp add: group_actions_def)

lemma distinct_group_actions: "distinct (map fst (group_actions as))"
  by (induction as rule: rev_induct) (auto simp: group_actions_snoc distinct_add_to_group, simp add: group_actions_def)

lemma map_of_group_actions:
  "map_of (group_actions as) b =
     (case filter (\<lambda>a. hd (action_key a) = b) as of [] \<Rightarrow> None | g \<Rightarrow> Some g)"
  by (induction as rule: rev_induct)
    (auto simp: group_actions_snoc map_of_add_to_group split: list.splits, simp add: group_actions_def)

lemma group_actions_mem:
  assumes "(b, g) \<in> set (group_actions as)"
  shows "g = filter (\<lambda>a. hd (action_key a) = b) as" and "g \<noteq> []"
proof -
  have "map_of (group_actions as) b = Some g"
    using assms distinct_group_actions by (simp add: map_of_eq_Some_iff)
  then show "g = filter (\<lambda>a. hd (action_key a) = b) as" and "g \<noteq> []"
    by (auto simp: map_of_group_actions split: list.splits)
qed

subsection \<open>The steps of a batch\<close>

lemma make_ext:
  "make_actions dg t n as = (t', r) \<Longrightarrow> tree_ext t t'"
  "make_groups dg t n gs = (t', r') \<Longrightarrow> tree_ext t t'"
  "make_group dg t it as = (t', r'') \<Longrightarrow> tree_ext t t'"
proof (induction dg t n as and dg t n gs and dg t it as arbitrary: t' r and t' r' and t' r''
    rule: make_actions_make_groups_make_group.induct)
  case (1 dg t n as)
  then show ?case
    by (subst (asm) make_actions.simps) (auto simp: Let_def split: if_splits prod.splits sum.splits)
next
  case (2 dg t n)
  then show ?case by (simp add: make_groups.simps)
next
  case (3 dg t n b as gs)
  then show ?case
    by (subst (asm) make_groups.simps) (auto split: prod.splits sum.splits intro: tree_ext_trans)
next
  case (4 dg t it as)
  show ?case
  proof (cases "length as = 1 \<or> (it = Empty \<and> \<not> list_ex is_insert as)")
    case True
    then show ?thesis
      using "4.prems" by (subst (asm) make_group.simps) (auto split: if_splits dest: apply_action_ext)
  next
    case False
    obtain t1 r1 where c: "construct_node_from_item t it = (t1, r1)" by fastforce
    note e1 = construct_ext [OF c]
    show ?thesis
    proof (cases "\<exists>created. r1 = Inr created \<and> as \<noteq> [] \<and> (\<forall>a\<in>set as. action_key a \<noteq> [])")
      case True
      then obtain created where cr: "r1 = Inr created" "as \<noteq> []" "\<forall>a\<in>set as. action_key a \<noteq> []" by blast
      obtain t2 r2 where m: "make_actions dg t1 created (map action_trim as) = (t2, r2)" by fastforce
      have "tree_ext t1 t2" using "4.IH" False c cr m by auto
      then have e2: "tree_ext t t2" by (rule tree_ext_trans [OF e1])
      show ?thesis
        using "4.prems" False c cr m e2
        by (subst (asm) make_group.simps)
          (auto split: if_splits sum.splits option.splits prod.splits
            dest!: save_item_ext intro: tree_ext_trans)
    next
      case no: False
      then show ?thesis
        using "4.prems" False c e1 by (subst (asm) make_group.simps) (auto split: if_splits sum.splits)
    qed
  qed
qed

lemma construct_spec:
  assumes "addressed dg t" "\<not> clash dg t" and ok: "item_ok (tree_load t) (Suc L) it"
  obtains t1 created where "construct_node_from_item t it = (t1, Inr created)" "tree_ext t t1"
    "addressed dg t1" "\<not> clash dg t1" "node_ok (tree_load t1) L created"
    "\<And>ld. below t1 ld \<Longrightarrow> node_lookup ld created = item_lookup ld it"
proof -
  have slot: "node_ok (tree_load t) L (empty_node[unat b := x])" if "item_ok (tree_load t) L x" for b :: byte and x
    using that by (intro node_ok_update) simp_all
  have eq: "node_lookup ld (empty_node[unat b := x]) = behind [b] (item_lookup ld x)" for ld b x
    by (auto simp: fun_eq_iff node_lookup_update behind_def split: list.split)
  show thesis
  proof (cases it)
    case Empty
    then show ?thesis
      using that [of t empty_node] assms by (simp add: construct_node_from_item_def fun_eq_iff)
  next
    case (Leaf p v)
    then obtain b q where p: "p = b # q" "length q = L" "hash32_ok v" using ok by (cases p) auto
    have "behind [b] (item_lookup ld (Leaf q v)) = item_lookup ld (Leaf (b # q) v)" for ld
      using item_lookup_Leaf_behind [of ld "[b]" q v] by simp
    then show ?thesis
      using that [of t "empty_node[unat b := Leaf q v]"] assms Leaf p slot
      by (simp add: construct_node_from_item_def eq del: item_lookup_simps)
  next
    case (NodePtr p h)
    show ?thesis
    proof (cases p)
      case Nil
      obtain n where n: "tree_load t h = Some n" "node_ok (tree_load t) L n"
        using ok NodePtr Nil by (auto simp: item_ok_NodePtr)
      obtain t1 where t1: "load_node t h False = (t1, Inr n)" "tree_load t1 = tree_load t"
          "addressed dg t1" "\<not> clash dg t1"
        using load_node_some [OF n(1), where b = False] assms(1,2) by metis
      have "node_lookup ld n = item_lookup ld it" if "below t1 ld" for ld
        using below_Some [OF that, of h n] n t1(2) NodePtr Nil by (simp add: fun_eq_iff)
      then show ?thesis
        using that [of t1 n] t1 n NodePtr Nil load_node_ext [OF t1(1)]
        by (simp add: construct_node_from_item_def)
    next
      case (Cons b q)
      have "item_ok (tree_load t) L (NodePtr q h)" using ok NodePtr Cons by (auto simp: item_ok_NodePtr)
      moreover have "behind [b] (item_lookup ld (NodePtr q h)) = item_lookup ld (NodePtr (b # q) h)" for ld
        using item_lookup_NodePtr_behind [of ld "[b]" q h] by simp
      ultimately show ?thesis
        using that [of t "empty_node[unat b := NodePtr q h]"] assms NodePtr Cons slot
        by (simp add: construct_node_from_item_def eq del: item_lookup_simps)
    qed
  qed
qed

text \<open>
  A group of actions acts on the item of its slot with the keys shortened by one byte; its result
  is the item that stands in the slot afterwards.
\<close>

definition group_result ::
  "(bytes \<Rightarrow> hash32) \<Rightarrow> nat \<Rightarrow> item \<Rightarrow> history_action list \<Rightarrow> rt_panic + item option \<Rightarrow> (hash32 \<rightharpoonup> node) \<Rightarrow> bool" where
  "group_result dg L it as r ld =
     (case r of
        Inl e \<Rightarrow> real_collision dg e
      | Inr io \<Rightarrow>
          (let it' = (case io of None \<Rightarrow> it | Some i \<Rightarrow> i) in
           item_ok ld L it' \<and> item_lookup ld it' = apply_actions (map action_trim as) (item_lookup ld it)))"

definition node_result ::
  "(bytes \<Rightarrow> hash32) \<Rightarrow> nat \<Rightarrow> node \<Rightarrow> history_action list \<Rightarrow> rt_panic + node option \<Rightarrow> (hash32 \<rightharpoonup> node) \<Rightarrow> bool" where
  "node_result dg L n as r ld =
     (case r of
        Inl e \<Rightarrow> real_collision dg e
      | Inr no \<Rightarrow>
          (let n' = (case no of None \<Rightarrow> n | Some m \<Rightarrow> m) in
           node_ok ld L n' \<and> node_lookup ld n' = apply_actions as (node_lookup ld n)))"

lemma single_group_spec:
  assumes "digest_ok dg" "addressed dg t" "\<not> clash dg t" and ok: "item_ok (tree_load t) L it"
    and L: "L \<le> 127" and k: "action_key a \<noteq> []" "length (action_key a) = Suc L"
    and v: "\<And>h. action_value a = Some h \<Longrightarrow> hash32_ok h"
    and s: "apply_action dg t it a = (t', r)"
  shows "good_step dg t t' (group_result dg L it [a] r)"
proof -
  have "good_step dg t t' (item_result dg L it (tl (action_key a)) (action_value a) r)"
  proof (cases a)
    case (Insert key h)
    then show ?thesis
      using s k v update_spec [OF assms(1-3) ok _ L, of "tl key" h t' r] by (simp add: apply_action_def)
  next
    case (Delete key)
    then show ?thesis
      using s k delete_spec [OF assms(1-3) ok _ L, of "tl key" t' r] by (simp add: apply_action_def)
  qed
  then show ?thesis
  proof (rule good_step_mono)
    fix ld assume bl: "below t' ld" and ir: "item_result dg L it (tl (action_key a)) (action_value a) r ld"
    have e: "tree_ext t t'" by (rule apply_action_ext [OF s])
    have "item_ok ld L it" by (rule item_ok_mono [OF ok below_load [OF below_ext [OF bl e]]])
    then show "group_result dg L it [a] r ld"
      using ir by (auto simp: group_result_def item_result_def apply_actions_def fun_eq_iff split: sum.splits option.splits)
  qed
qed

lemma actions_ok_trim:
  assumes "actions_ok (Suc L) as" and "\<And>a. a \<in> set as \<Longrightarrow> hd (action_key a) = b"
  shows "actions_ok L (map action_trim as)"
proof -
  have k: "action_key a = b # tl (action_key a)" if "a \<in> set as" for a
    using assms(1) that assms(2) [OF that] by (cases "action_key a") (auto simp: actions_ok_def)
  then have "inj_on tl (action_key ` set as)"
    by (intro inj_onI) (metis image_iff)
  then have "distinct (map tl (map action_key as))"
    using assms(1) by (simp add: distinct_map actions_ok_def del: map_map)
  then show ?thesis using assms(1) by (auto simp: actions_ok_def o_def)
qed

lemma actions_ok_zero: "actions_ok 0 as \<Longrightarrow> length as \<le> 1"
proof -
  assume ok: "actions_ok 0 as"
  then have "set (map action_key as) \<subseteq> {[]}" by (auto simp: actions_ok_def)
  then have "card (set (map action_key as)) \<le> card {[] :: key_segment}" by (intro card_mono) simp_all
  moreover have "card (set (map action_key as)) = length as"
    using ok distinct_card [of "map action_key as"] by (simp add: actions_ok_def)
  ultimately show ?thesis by simp
qed

lemma apply_deletes_empty:
  "\<not> list_ex is_insert as \<Longrightarrow> apply_actions (map action_trim as) (\<lambda>k. None) = (\<lambda>k. None)"
proof (induction as)
  case (Cons a as)
  then show ?case by (cases a) (auto simp: apply_actions_def fun_upd_idem)
qed simp

lemma apply_actions_group:
  "\<forall>a\<in>set as. action_key a \<noteq> [] \<Longrightarrow>
   apply_actions as m (c # r) =
     apply_actions (map action_trim (filter (\<lambda>a. hd (action_key a) = c) as)) (\<lambda>r. m (c # r)) r"
proof (induction as arbitrary: m)
  case (Cons a as)
  obtain b k where k: "action_key a = b # k" using Cons.prems by (auto simp: neq_Nil_conv)
  have restr: "(\<lambda>r. (m(b # k := w)) (c # r)) =
      (if b = c then (\<lambda>r. m (c # r))(k := w) else (\<lambda>r. m (c # r)))" for w
    by (auto simp: fun_eq_iff)
  have "apply_actions (a # as) m (c # r) = apply_actions as (m(b # k := action_value a)) (c # r)"
    by (simp add: apply_actions_def k)
  also have "\<dots> = apply_actions (map action_trim (filter (\<lambda>a. hd (action_key a) = c) as))
      (\<lambda>r. (m(b # k := action_value a)) (c # r)) r"
    using Cons.prems by (intro Cons.IH) simp
  also have "\<dots> = apply_actions (map action_trim (filter (\<lambda>a. hd (action_key a) = c) (a # as)))
      (\<lambda>r. m (c # r)) r"
    unfolding restr by (cases "b = c") (simp_all add: apply_actions_def k)
  finally show ?case .
qed simp

lemma set_group_items_nth:
  "distinct (map fst items) \<Longrightarrow> i < length n \<Longrightarrow>
   set_group_items items n ! i = (case map_of items i of Some (Some it) \<Rightarrow> it | _ \<Rightarrow> n ! i)"
proof (induction items arbitrary: n)
  case (Cons x items)
  obtain j io where x: "x = (j, io)" by fastforce
  have "i = j \<Longrightarrow> map_of items i = None" using Cons.prems x by (simp add: map_of_eq_None_iff)
  then show ?case
    using Cons.IH [of "case io of None \<Rightarrow> n | Some it \<Rightarrow> n[j := it]"] Cons.prems x
    by (auto simp: set_group_items_def split: option.splits)
qed (simp add: set_group_items_def)

lemma length_set_group_items [simp]: "length (set_group_items items n) = length n"
  unfolding set_group_items_def
  by (induction items arbitrary: n) (auto split: option.splits)

definition groups_ok :: "nat \<Rightarrow> (byte \<times> history_action list) list \<Rightarrow> bool" where
  "groups_ok L gs \<longleftrightarrow>
     (\<forall>(b, as)\<in>set gs. as \<noteq> [] \<and> actions_ok (Suc L) as \<and> (\<forall>a\<in>set as. hd (action_key a) = b))"

definition groups_result ::
  "(bytes \<Rightarrow> hash32) \<Rightarrow> nat \<Rightarrow> node \<Rightarrow> (byte \<times> history_action list) list \<Rightarrow>
   rt_panic + (nat \<times> item option) list \<Rightarrow> (hash32 \<rightharpoonup> node) \<Rightarrow> bool" where
  "groups_result dg L n gs r ld =
     (case r of
        Inl e \<Rightarrow> real_collision dg e
      | Inr items \<Rightarrow>
          list_all2 (\<lambda>(b, as) (idx, io). idx = unat b \<and> group_result dg L (n ! unat b) as (Inr io) ld) gs items)"

lemma groups_ok_group_actions: "actions_ok (Suc L) as \<Longrightarrow> groups_ok L (group_actions as)"
  unfolding groups_ok_def
proof (intro ballI, clarify)
  fix b g assume ok: "actions_ok (Suc L) as" and g: "(b, g) \<in> set (group_actions as)"
  then show "g \<noteq> [] \<and> actions_ok (Suc L) g \<and> (\<forall>a\<in>set g. hd (action_key a) = b)"
    using group_actions_mem [OF g] by (auto simp: actions_ok_def intro: distinct_map_filter)
qed

lemma groups_result_slot:
  fixes gs :: "(byte \<times> history_action list) list"
  assumes r: "list_all2 (\<lambda>(b, as) (idx, io). idx = unat b \<and> group_result dg L (n ! unat b) as (Inr io) ld) gs items"
    and d: "distinct (map fst gs)"
  shows "distinct (map fst items)"
    and "map_of gs c = None \<Longrightarrow> map_of items (unat c) = None"
    and "map_of gs c = Some as \<Longrightarrow>
      \<exists>io. map_of items (unat c) = Some io \<and> group_result dg L (n ! unat c) as (Inr io) ld"
proof -
  have f: "map fst items = map (unat \<circ> fst) gs"
    using r by (induction rule: list_all2_induct) auto
  have "inj_on unat (fst ` set gs)" by (rule inj_onI) simp
  then show "distinct (map fst items)"
    unfolding f using d by (simp add: distinct_map comp_inj_on_iff [symmetric] comp_inj_on)
  show "map_of gs c = None \<Longrightarrow> map_of items (unat c) = None"
    using r by (induction rule: list_all2_induct) (auto split: if_splits)
  show "map_of gs c = Some as \<Longrightarrow>
      \<exists>io. map_of items (unat c) = Some io \<and> group_result dg L (n ! unat c) as (Inr io) ld"
    using r by (induction rule: list_all2_induct) (auto split: if_splits)
qed

lemma node_result_groups:
  assumes ok: "actions_ok (Suc L) as" and n: "node_ok ld L n"
    and r: "groups_result dg L n (group_actions as) (Inr items) ld"
  defines "n' \<equiv> set_group_items items n"
  shows "node_ok ld L n' \<and> node_lookup ld n' = apply_actions as (node_lookup ld n)"
proof -
  have r': "list_all2 (\<lambda>(b, as) (idx, io). idx = unat b \<and> group_result dg L (n ! unat b) as (Inr io) ld)
      (group_actions as) items" using r by (simp add: groups_result_def)
  note slot = groups_result_slot [OF r' distinct_group_actions]
  have len: "length n = NUM_ITEMS" using n by (simp add: node_ok_def)
  have keys: "\<forall>a\<in>set as. action_key a \<noteq> []" using ok by (auto simp: actions_ok_def)
  have c: "item_ok ld L (n' ! unat c) \<and>
      (\<forall>r. item_lookup ld (n' ! unat c) r = apply_actions as (node_lookup ld n) (c # r))" for c :: byte
  proof -
    let ?g = "filter (\<lambda>a. hd (action_key a) = c) as"
    have nth: "n' ! unat c = (case map_of items (unat c) of Some (Some it) \<Rightarrow> it | _ \<Rightarrow> n ! unat c)"
      unfolding n'_def by (rule set_group_items_nth [OF slot(1)]) (simp add: len)
    show ?thesis
    proof (cases "map_of (group_actions as) c")
      case None
      then have "?g = []" by (simp add: map_of_group_actions split: list.splits)
      then show ?thesis
        using nth slot(2) [OF None] node_ok_nth [OF n] apply_actions_group [OF keys, of "node_lookup ld n" c]
        by simp
    next
      case (Some g)
      then have g: "g = ?g" by (simp add: map_of_group_actions split: list.splits)
      obtain io where io: "map_of items (unat c) = Some io" "group_result dg L (n ! unat c) g (Inr io) ld"
        using slot(3) [OF Some] by blast
      have "n' ! unat c = (case io of None \<Rightarrow> n ! unat c | Some i \<Rightarrow> i)"
        using nth io(1) by (simp split: option.splits)
      then show ?thesis
        using io(2) apply_actions_group [OF keys, of "node_lookup ld n" c]
        by (simp add: group_result_def g Let_def)
    qed
  qed
  have "node_ok ld L n'"
    unfolding node_ok_def
  proof (intro conjI ballI)
    show "length n' = NUM_ITEMS" using len by (simp add: n'_def)
    fix it assume "it \<in> set n'"
    then obtain i where i: "i < NUM_ITEMS" "it = n' ! i" using len by (auto simp: in_set_conv_nth n'_def)
    have "unat (of_nat i :: byte) = i" using i(1) by (intro unat_idx) (simp add: NUM_ITEMS_def)
    then show "item_ok ld L it" using c [of "of_nat i"] i by simp
  qed
  moreover have "node_lookup ld n' k = apply_actions as (node_lookup ld n) k" for k
  proof (cases k)
    case Nil
    then show ?thesis using keys apply_actions_other [of "[]" as] by force
  qed (use c in simp)
  ultimately show ?thesis by blast
qed

lemma multi_group_spec:
  assumes dg: "digest_ok dg" and e1: "tree_ext t t1" and ok: "item_ok (tree_load t) L it"
    and L: "L \<le> 127" "L = Suc L'"
    and eq: "\<And>ld. below t1 ld \<Longrightarrow> node_lookup ld created = item_lookup ld it"
    and g: "good_step dg t1 t2 (node_result dg L' created (map action_trim as) r2)"
    and res: "(case r2 of Inl e \<Rightarrow> (t2, Inl e) | Inr None \<Rightarrow> (t2, Inr None)
          | Inr (Some n) \<Rightarrow> (case save_node_and_create_item dg t2 n [] True of
               (t3, Inl e) \<Rightarrow> (t3, Inl e) | (t3, Inr new_item) \<Rightarrow> (t3, Inr (Some new_item)))) = (t', r)"
  shows "good_step dg t t' (group_result dg L it as r)"
proof (rule good_step_after [OF e1])
  note e2 = good_step_ext [OF g]
  show "good_step dg t1 t' (group_result dg L it as r)"
  proof (cases "\<exists>m. r2 = Inr (Some m)")
    case False
    then have t': "t' = t2" "r = (case r2 of Inl e \<Rightarrow> Inl e | Inr _ \<Rightarrow> Inr None)"
      using res by (auto split: sum.splits option.splits)
    show ?thesis
      unfolding t'(1)
    proof (rule good_step_mono [OF g])
      fix ld assume bl: "below t2 ld" and nr: "node_result dg L' created (map action_trim as) r2 ld"
      have b1: "below t1 ld" by (rule below_ext [OF bl e2])
      have "item_ok ld L it" by (rule item_ok_mono [OF ok below_load [OF below_ext [OF b1 e1]]])
      then show "group_result dg L it as r ld"
        using nr eq [OF b1] t'(2) False
        by (auto simp: node_result_def group_result_def split: sum.splits option.splits)
    qed
  next
    case True
    then obtain m where m: "r2 = Inr (Some m)" by blast
    obtain r3 where s: "save_node_and_create_item dg t2 m [] True = (t', r3)"
      and r: "r = (case r3 of Inl e \<Rightarrow> Inl e | Inr i \<Rightarrow> Inr (Some i))"
      using res m by (auto split: prod.splits sum.splits)
    show ?thesis
    proof (rule good_step_bind [OF g save_item_ext [OF s]])
      assume a: "addressed dg t2" "\<not> clash dg t2"
        and nr: "node_result dg L' created (map action_trim as) r2 (tree_load t2)"
      have "node_ok (tree_load t2) L' m" using nr m by (simp add: node_result_def)
      then show "good_step dg t2 t' (\<lambda>ld. case r3 of Inl e \<Rightarrow> real_collision dg e
          | Inr i \<Rightarrow> item_ok ld (length ([] :: key_segment) + Suc L') i \<and> item_lookup ld i = behind [] (node_lookup ld m) \<and>
              (\<not> True \<longrightarrow> i \<noteq> Empty))"
        using L by (intro save_item_spec [OF dg a _ _ _ s]) simp_all
    next
      fix ld assume bl: "below t' ld" and nr: "node_result dg L' created (map action_trim as) r2 ld"
        and i: "case r3 of Inl e \<Rightarrow> real_collision dg e
          | Inr i \<Rightarrow> item_ok ld (length ([] :: key_segment) + Suc L') i \<and> item_lookup ld i = behind [] (node_lookup ld m) \<and>
              (\<not> True \<longrightarrow> i \<noteq> Empty)"
      have b1: "below t1 ld" by (rule below_ext [OF below_ext [OF bl save_item_ext [OF s]] e2])
      have "behind [] (node_lookup ld m) = node_lookup ld m" by (simp add: behind_def fun_eq_iff)
      then show "group_result dg L it as r ld"
        using nr i eq [OF b1] r m L(2)
        by (auto simp: node_result_def group_result_def split: sum.splits)
    qed
  qed
qed

lemma make_spec:
  "digest_ok dg \<Longrightarrow> addressed dg t \<Longrightarrow> \<not> clash dg t \<Longrightarrow> node_ok (tree_load t) L n \<Longrightarrow> L \<le> 127 \<Longrightarrow>
   actions_ok (Suc L) as \<Longrightarrow> make_actions dg t n as = (t', r) \<Longrightarrow>
   good_step dg t t' (node_result dg L n as r)"
  "digest_ok dg \<Longrightarrow> addressed dg t \<Longrightarrow> \<not> clash dg t \<Longrightarrow> node_ok (tree_load t) L n \<Longrightarrow> L \<le> 127 \<Longrightarrow>
   groups_ok L gs \<Longrightarrow> make_groups dg t n gs = (t', r') \<Longrightarrow>
   good_step dg t t' (groups_result dg L n gs r')"
  "digest_ok dg \<Longrightarrow> addressed dg t \<Longrightarrow> \<not> clash dg t \<Longrightarrow> item_ok (tree_load t) L it \<Longrightarrow> L \<le> 127 \<Longrightarrow>
   groups_ok L [(b, as)] \<Longrightarrow> make_group dg t it as = (t', r'') \<Longrightarrow>
   good_step dg t t' (group_result dg L it as r'')"
proof (induction dg t n as and dg t n gs and dg t it as
    arbitrary: L t' r and L t' r' and L b t' r'' rule: make_actions_make_groups_make_group.induct)
  case (1 dg t n as)
  have keys: "\<not> (\<exists>a\<in>set as. action_key a = [])" using "1.prems" by (auto simp: actions_ok_def)
  obtain r1 where g: "make_groups dg t n (group_actions as) = (t', r1)"
    and r: "r = (case r1 of Inl e \<Rightarrow> Inl e
        | Inr items \<Rightarrow> Inr (if set_group_items items n \<noteq> n then Some (set_group_items items n) else None))"
    using "1.prems"(7) keys by (subst (asm) make_actions.simps) (auto simp: Let_def split: prod.splits sum.splits)
  have gs: "good_step dg t t' (groups_result dg L n (group_actions as) r1)"
    using "1.IH" [OF keys "1.prems"(1-5) groups_ok_group_actions [OF "1.prems"(6)] g] .
  show ?case
  proof (rule good_step_mono [OF gs])
    fix ld assume bl: "below t' ld" and gr: "groups_result dg L n (group_actions as) r1 ld"
    have "node_ok ld L n"
      by (rule node_ok_mono [OF "1.prems"(4) below_load [OF below_ext [OF bl good_step_ext [OF gs]]]])
    note nr = node_result_groups [OF "1.prems"(6) this]
    show "node_result dg L n as r ld"
    proof (cases r1)
      case (Inr items)
      have "(case (if set_group_items items n \<noteq> n then Some (set_group_items items n) else None) of
          None \<Rightarrow> n | Some m \<Rightarrow> m) = set_group_items items n" by simp
      then show ?thesis using r Inr nr [OF gr [unfolded Inr]] by (simp only: node_result_def sum.case Let_def)
    qed (use r gr in \<open>simp add: node_result_def groups_result_def\<close>)
  qed
next
  case (2 dg t n)
  then show ?case by (auto simp: make_groups.simps groups_result_def intro!: good_step_refl)
next
  case (3 dg t n b as gs)
  obtain t1 r1 where g: "make_group dg t (n ! unat b) as = (t1, r1)" by fastforce
  have ok: "groups_ok L [(b, as)]" "groups_ok L gs" using "3.prems"(6) by (auto simp: groups_ok_def)
  have g1: "good_step dg t t1 (group_result dg L (n ! unat b) as r1)"
    using "3.IH"(1) [OF "3.prems"(1-3) node_ok_nth [OF "3.prems"(4) unat_slot] "3.prems"(5) ok(1) g] .
  show ?case
  proof (cases r1)
    case (Inl e)
    then have t': "t' = t1" "r' = Inl e" using "3.prems"(7) g by (auto simp: make_groups.simps)
    show ?thesis
      unfolding t' by (rule good_step_mono [OF g1]) (simp add: Inl groups_result_def group_result_def)
  next
    case (Inr io)
    obtain t2 r2 where gs: "make_groups dg t1 n gs = (t2, r2)" by fastforce
    then have t': "t' = t2" "r' = (case r2 of Inl e \<Rightarrow> Inl e | Inr items \<Rightarrow> Inr ((unat b, io) # items))"
      using "3.prems"(7) g Inr by (auto simp: make_groups.simps split: sum.splits)
    show ?thesis
    proof (rule good_step_bind [OF g1, where Q = "groups_result dg L n gs r2"])
      show "tree_ext t1 t'" using make_ext(2) [OF gs] t' by simp
      assume a: "addressed dg t1" "\<not> clash dg t1"
      have "node_ok (tree_load t1) L n"
        by (rule node_ok_mono [OF "3.prems"(4) below_load [OF below_ext [OF below_tree_load [OF a] good_step_ext [OF g1]]]])
      then show "good_step dg t1 t' (groups_result dg L n gs r2)"
        using "3.IH"(2) [OF g [symmetric] Inr "3.prems"(1) a _ "3.prems"(5) ok(2) gs] t' by simp
    next
      fix ld assume "group_result dg L (n ! unat b) as r1 ld" "groups_result dg L n gs r2 ld"
      then show "groups_result dg L n ((b, as) # gs) r' ld"
        using t' Inr by (auto simp: groups_result_def split: sum.splits)
    qed
  qed
next
  case (4 dg t it as)
  have g: "as \<noteq> []" "actions_ok (Suc L) as" "\<And>a. a \<in> set as \<Longrightarrow> hd (action_key a) = b"
    using "4.prems"(6) by (auto simp: groups_ok_def)
  have keys: "\<not> (as = [] \<or> (\<exists>a\<in>set as. action_key a = []))" using g by (auto simp: actions_ok_def)
  show ?case
  proof (cases "length as = 1")
    case True
    then obtain a where a: "as = [a]" by (auto simp: length_Suc_conv)
    show ?thesis
      unfolding a
      by (rule single_group_spec [OF "4.prems"(1-5)])
        (use "4.prems"(7) a g in \<open>auto simp: make_group.simps actions_ok_def\<close>)
  next
    case False
    note two = this
    show ?thesis
    proof (cases "it = Empty \<and> \<not> list_ex is_insert as")
      case True
      then have "t' = t" "r'' = Inr None" using "4.prems"(7) False by (auto simp: make_group.simps)
      moreover have "item_lookup ld Empty = (\<lambda>k. None)" for ld by (simp add: fun_eq_iff)
      ultimately show ?thesis
        using True "4.prems"(2) apply_deletes_empty [of as]
        by (auto intro!: good_step_refl simp: group_result_def)
    next
      case False
      have trim: "actions_ok L (map action_trim as)" by (rule actions_ok_trim [OF g(2,3)])
      have "length as > 1" using two g(1) by (cases as) auto
      then have "L \<noteq> 0" using actions_ok_zero [of "map action_trim as"] trim by (intro notI) simp
      then obtain L' where L': "L = Suc L'" by (cases L) auto
      obtain t1 created where c: "construct_node_from_item t it = (t1, Inr created)" "tree_ext t t1"
          and a1: "addressed dg t1" "\<not> clash dg t1" and n: "node_ok (tree_load t1) L' created"
          and eq: "\<And>ld. below t1 ld \<Longrightarrow> node_lookup ld created = item_lookup ld it"
        by (rule construct_spec [OF "4.prems"(2,3) "4.prems"(4) [unfolded L']]) blast
      obtain t2 r2 where m: "make_actions dg t1 created (map action_trim as) = (t2, r2)" by fastforce
      have g2: "good_step dg t1 t2 (node_result dg L' created (map action_trim as) r2)"
        using "4.IH" [OF two False c(1) [symmetric] refl keys "4.prems"(1) a1 n _ trim [unfolded L'] m]
          "4.prems"(5) L' by simp
      have res: "(case r2 of Inl e \<Rightarrow> (t2, Inl e) | Inr None \<Rightarrow> (t2, Inr None)
          | Inr (Some n) \<Rightarrow> (case save_node_and_create_item dg t2 n [] True of
               (t3, Inl e) \<Rightarrow> (t3, Inl e) | (t3, Inr new_item) \<Rightarrow> (t3, Inr (Some new_item)))) = (t', r'')"
        using "4.prems"(7) two False c(1) keys m
        by (subst (asm) make_group.simps) (auto split: sum.splits option.splits)
      show ?thesis
        by (rule multi_group_spec [OF "4.prems"(1) c(2) "4.prems"(4,5) L' eq g2 res])
    qed
  qed
qed

section \<open>The history\<close>

text \<open>
  \<open>history_map\<close> is the map a history holds. \<open>history_ok dg L\<close>: the keys have length \<open>L + 1\<close>, every
  pointer resolves in the store, the store and the read cache are addressed by the digest, nothing
  waits to be written, and the root is stored (or is the empty root of a fresh store).
\<close>

definition history_map :: "radix_history \<Rightarrow> key_segment \<rightharpoonup> hash32" where
  "history_map h = node_lookup (store_load (rh_impl h)) (root_node h)"

definition history_ok :: "(bytes \<Rightarrow> hash32) \<Rightarrow> nat \<Rightarrow> radix_history \<Rightarrow> bool" where
  "history_ok dg L h \<longleftrightarrow>
     L \<le> 127 \<and> addressed dg (rh_impl h) \<and> tracked (rh_impl h) \<and> cache_write (rh_impl h) = [] \<and>
     node_ok (store_load (rh_impl h)) L (root_node h) \<and>
     root_hash h = dg (encode (root_node h)) \<and>
     (case bm_get (rt_store (rh_impl h)) (root_hash h) of
        None \<Rightarrow> root_node h = empty_node
      | Some bs \<Rightarrow> bs = encode (root_node h))"

lemma tracked_clean:
  assumes "tracked t" and "cache_write t = []"
  shows "tree_load t = store_load t"
proof
  fix h show "tree_load t h = store_load t h"
    using assms by (cases "bm_get (cache_read t) h") (auto simp: tree_load_def tracked_def)
qed

lemma clean_no_clash:
  assumes a: "addressed dg t" and "tracked t" and "cache_write t = []"
  shows "\<not> clash dg t"
proof
  assume "clash dg t"
  then obtain h n bs where c: "bm_get (cache_read t) h = Some n" "bm_get (rt_store t) h = Some bs"
      "bs \<noteq> encode n"
    by (auto simp: clash_def)
  have "store_load t h = Some n" using c(1) assms(2,3) by (auto simp: tracked_def)
  then show False using c addressed_store_load [OF a] by simp
qed

text \<open>Reading never fails and returns what the map holds; it only fills the read cache.\<close>

lemma read_spec:
  "addressed dg t \<Longrightarrow> \<not> clash dg t \<Longrightarrow> node_ok (tree_load t) L n \<Longrightarrow>
   \<exists>t'. read t n k = (t', Inr (node_lookup (tree_load t) n k)) \<and> tree_ext t t' \<and> addressed dg t' \<and>
     \<not> clash dg t' \<and> tree_load t' = tree_load t \<and> cache_write t' = cache_write t"
proof (induction t n k arbitrary: L rule: read.induct)
  case (1 t n k)
  show ?case
  proof (cases k)
    case Nil
    then show ?thesis using "1.prems" by (auto simp: read.simps)
  next
    case (Cons b rest)
    show ?thesis
    proof (cases "n ! unat b")
      case (NodePtr p h)
      have ok: "item_ok (tree_load t) L (NodePtr p h)"
        using node_ok_nth [OF "1.prems"(3) unat_slot, of b] NodePtr by simp
      obtain comm kr pr where cp: "common_prefix rest p = (comm, kr, pr)" by (metis prod_cases3)
      note sp = common_prefix_split [OF cp]
      show ?thesis
      proof (cases "pr = []")
        case True
        have rest: "rest = p @ kr" using sp True by simp
        obtain child where ch: "tree_load t h = Some child"
            "node_ok (tree_load t) (L - Suc (length p)) child"
          using ok by (auto simp: item_ok_NodePtr)
        obtain t1 where l: "load_node t h False = (t1, Inr child)" "tree_load t1 = tree_load t"
            "addressed dg t1" "\<not> clash dg t1"
          using load_node_some [OF ch(1), where b = False] "1.prems"(1,2) by metis
        have w: "cache_write t1 = cache_write t"
          using l(1) by (auto simp: load_node_def split: option.splits sum.splits)
        have "\<exists>t'. read t1 child kr = (t', Inr (node_lookup (tree_load t1) child kr)) \<and> tree_ext t1 t' \<and>
            addressed dg t' \<and> \<not> clash dg t' \<and> tree_load t' = tree_load t1 \<and> cache_write t' = cache_write t1"
          using "1.IH" [OF Cons NodePtr cp [symmetric] refl True l(1) [symmetric] refl l(3,4)] ch(2) l(2) by simp
        then show ?thesis
          using Cons NodePtr cp True l(1,2) w ch(1) rest tree_ext_trans [OF load_node_ext [OF l(1)]]
          by (auto simp: read.simps [of t])
      next
        case False
        have "strip_prefix p rest = None"
        proof (cases "kr = []")
          case True
          then show ?thesis using sp False by (auto simp: strip_prefix_None)
        next
          case kr: False
          then show ?thesis
            using sp False common_prefix_heads [OF cp] by (auto simp: strip_prefix_None)
        qed
        then show ?thesis using Cons NodePtr cp False "1.prems" by (simp add: read.simps [of t])
      qed
    qed (use Cons "1.prems" in \<open>simp_all add: read.simps [of t]\<close>)
  qed
qed

subsection \<open>Commit\<close>

lemma commit_ok:
  assumes "commit t = (t', Inr u)" and "btmap_ok (cache_write t)"
  shows "cache_read t' = cache_read t" and "cache_write t' = cache_write t"
    and "bm_get (rt_store t') = bm_get (cache_write t) ++ bm_get (rt_store t)"
    and "bm_get (cache_write t) k = Some v \<Longrightarrow> bm_get (rt_store t) k = Some bs \<Longrightarrow> bs = v"
proof -
  let ?absent = "filter (\<lambda>(k, v). bm_get (rt_store t) k = None) (cache_write t)"
  have f: "find (\<lambda>(k, v). v \<noteq> the (bm_get (rt_store t) k))
      (filter (\<lambda>(k, v). bm_get (rt_store t) k \<noteq> None) (cache_write t)) = None"
    and t': "t' = t\<lparr>rt_store := fold (\<lambda>(k, v) m. bm_insert k v m) ?absent (rt_store t)\<rparr>"
    using assms(1) by (auto simp: commit_def Let_def split: option.splits prod.splits)
  show "cache_read t' = cache_read t" "cache_write t' = cache_write t" using t' by auto
  have d: "distinct (map fst ?absent)"
    using assms(2) by (intro distinct_map_filter) (simp add: btmap_ok_iff)
  have absent: "map_of (rev ?absent) k = (if bm_get (rt_store t) k = None then bm_get (cache_write t) k else None)" for k
    unfolding map_of_rev_distinct [OF d] by (rule map_of_filter_key)
  show "bm_get (rt_store t') = bm_get (cache_write t) ++ bm_get (rt_store t)"
    unfolding t' by (rule ext)
      (auto simp: bm_get_collect_snoc map_add_def absent split: option.splits)
  show "bs = v" if kv: "bm_get (cache_write t) k = Some v" and bs: "bm_get (rt_store t) k = Some bs"
  proof -
    have "(k, v) \<in> set (cache_write t)" using kv by (rule map_of_SomeD)
    then show ?thesis using f bs by (fastforce simp: find_None_iff)
  qed
qed

text \<open>
  The state of the tree before the commit of a batch: after the actions and the saving of the new
  root. A clash in it is a cached node with the digest of other bytes in the store.
\<close>

definition batch_state :: "(bytes \<Rightarrow> hash32) \<Rightarrow> radix_history \<Rightarrow> history_action list \<Rightarrow> radix_tree" where
  "batch_state dg h actions =
     (case make_actions dg (rh_impl h) (root_node h) actions of
        (t, Inr (Some n)) \<Rightarrow> fst (save_node dg t n)
      | (t, _) \<Rightarrow> t)"

lemma commit_agrees:
  assumes "addressed dg t" and "\<not> clash dg t" and "tracked t"
  shows "\<exists>t'. commit t = (t', Inr ())"
proof -
  have "v = the (bm_get (rt_store t) k)"
    if kv: "(k, v) \<in> set (cache_write t)" "bm_get (rt_store t) k \<noteq> None" for k v
  proof -
    have "bm_get (cache_write t) k = Some v"
      using kv(1) assms(3) by (auto simp: tracked_def btmap_ok_iff)
    then obtain n where n: "bm_get (cache_read t) k = Some n" "v = encode n"
      using assms(3) unfolding tracked_def by blast
    obtain bs where bs: "bm_get (rt_store t) k = Some bs" using kv(2) by blast
    have "dg (encode n) = k" using addressed_cache [OF assms(1) n(1)] by simp
    moreover have "dg bs = k" using addressed_store [OF assms(1) bs] by blast
    ultimately have "bs = encode n" using assms(2) n(1) bs unfolding clash_def by blast
    then show ?thesis using bs n(2) by simp
  qed
  then have "find (\<lambda>(k, v). v \<noteq> the (bm_get (rt_store t) k))
      (filter (\<lambda>(k, v). bm_get (rt_store t) k \<noteq> None) (cache_write t)) = None"
    unfolding find_None_iff by fastforce
  then show ?thesis by (auto simp: commit_def Let_def)
qed

lemma commit_spec:
  assumes a: "addressed dg t" and nc: "\<not> clash dg t" and tr: "tracked t" and c: "commit t = (t', Inr u)"
  defines "t'' \<equiv> clear_read_cache (clear_write_cache t')"
  shows "tree_load t \<subseteq>\<^sub>m store_load t''" and "addressed dg t''" and "tracked t''" and "cache_write t'' = []"
    and "bm_get (cache_write t) h = Some bs \<Longrightarrow> bm_get (rt_store t'') h = Some bs"
proof -
  have ok: "btmap_ok (cache_write t)" using tr by (simp add: tracked_def)
  note cm = commit_ok [OF c ok]
  have st: "rt_store t'' = rt_store t'" and cl: "cache_read t'' = []" "cache_write t'' = []"
    by (simp_all add: t''_def clear_read_cache_def clear_write_cache_def)
  show w: "bm_get (rt_store t'') h = Some bs" if "bm_get (cache_write t) h = Some bs" for h bs
    using that cm(3,4) by (auto simp: st map_add_def split: option.split)
  have old: "bm_get (rt_store t'') h = Some bs" if "bm_get (rt_store t) h = Some bs" for h bs
    using that cm(3) by (simp add: st)
  show a'': "addressed dg t''"
    unfolding addressed_def cl
  proof (intro conjI allI impI)
    fix h bs assume "bm_get (rt_store t'') h = Some bs"
    then have "bm_get (rt_store t) h = Some bs \<or> bm_get (cache_write t) h = Some bs"
      by (auto simp: st cm(3) map_add_def split: option.splits)
    then show "\<exists>n. node_wf n \<and> bs = encode n \<and> dg bs = h"
    proof
      assume "bm_get (rt_store t) h = Some bs"
      then show ?thesis using addressed_store [OF a] by blast
    next
      assume "bm_get (cache_write t) h = Some bs"
      then obtain n where "bm_get (cache_read t) h = Some n" "bs = encode n"
        using tr unfolding tracked_def by blast
      then show ?thesis using addressed_cache [OF a] by blast
    qed
  qed simp_all
  show "tracked t''" "cache_write t'' = []" by (simp_all add: tracked_def cl)
  show "tree_load t \<subseteq>\<^sub>m store_load t''"
  proof (rule map_le_SomeI)
    fix h n assume n: "tree_load t h = Some n"
    have "node_wf n \<and> bm_get (rt_store t'') h = Some (encode n)"
    proof (cases "store_load t h = Some n")
      case True
      then show ?thesis using addressed_store_load [OF a] old by blast
    next
      case False
      then have cr: "bm_get (cache_read t) h = Some n" using n by (auto simp: tree_load_def split: option.splits)
      then have "bm_get (cache_write t) h = Some (encode n)" using tr False unfolding tracked_def by blast
      then show ?thesis using w addressed_cache [OF a cr] by blast
    qed
    then show "store_load t'' h = Some n" using addressed_store_load [OF a''] by blast
  qed
qed

lemma clear_clean:
  assumes "addressed dg t"
  defines "t' \<equiv> clear_read_cache (clear_write_cache t)"
  shows "addressed dg t'" and "tracked t'" and "cache_write t' = []" and "rt_store t' = rt_store t"
  using assms(1) by (simp_all add: t'_def clear_read_cache_def clear_write_cache_def addressed_def tracked_def)

text \<open>
  The main lemma of a batch: without a clash, the batch returns the updated history, unless the
  cache met two nodes with one digest.
\<close>

lemma process_spec:
  assumes dg: "digest_ok dg" and h: "history_ok dg L h" and as: "actions_ok (Suc L) actions"
    and nc: "\<not> clash dg (batch_state dg h actions)"
  shows "(\<exists>t h'. process dg h actions = (t, Inr (Inr h')) \<and> rh_impl h' = t \<and> history_ok dg L h' \<and>
            history_map h' = apply_actions actions (history_map h)) \<or>
         (\<exists>t e. process dg h actions = (t, Inl e) \<and> real_collision dg e)"
proof -
  let ?t = "rh_impl h" and ?n = "root_node h"
  have hk: "L \<le> 127" "addressed dg ?t" "tracked ?t" "cache_write ?t = []"
      "node_ok (store_load ?t) L ?n" using h by (auto simp: history_ok_def)
  have tl: "tree_load ?t = store_load ?t" by (rule tracked_clean [OF hk(3,4)])
  have nd: "has_no_duplicates actions" using as by (simp add: actions_ok_def has_no_duplicates_def)
  obtain t1 r where m: "make_actions dg ?t ?n actions = (t1, r)" by fastforce
  have g: "good_step dg ?t t1 (node_result dg L ?n actions r)"
    by (rule make_spec(1) [OF dg hk(2) clean_no_clash [OF hk(2-4)] _ hk(1) as m])
      (use hk(5) tl in simp)
  note e1 = good_step_ext [OF g]
  have bs: "tree_ext t1 (batch_state dg h actions)"
    using m save_node_ext [of dg t1 _] by (auto simp: batch_state_def split: sum.splits option.splits) (metis prod.collapse)
  have nc1: "\<not> clash dg t1" using nc clash_ext [OF _ bs] by blast
  have a1: "addressed dg t1" and nr: "\<And>ld. below t1 ld \<Longrightarrow> node_result dg L ?n actions r ld"
    using g nc1 by (auto simp: good_step_def)
  have tr1: "tracked t1" using e1 hk(3) by (simp add: tree_ext_def)
  consider (panic) e where "r = Inl e" | (same) "r = Inr None" | (new) n' where "r = Inr (Some n')"
    by (metis sum.exhaust option.exhaust)
  then show ?thesis
  proof cases
    case panic
    then have "real_collision dg e" using nr [OF below_tree_load [OF a1 nc1]] by (simp add: node_result_def Let_def)
    then show ?thesis using panic m nd by (auto simp: process_def save_and_commit_def)
  next
    case same
    let ?t' = "clear_read_cache (clear_write_cache t1)"
    have st: "rt_store ?t' = rt_store ?t"
      using e1 by (simp add: tree_ext_def clear_read_cache_def clear_write_cache_def)
    then have sl: "store_load ?t' = store_load ?t" by (rule store_load_cong)
    have mono: "store_load ?t \<subseteq>\<^sub>m tree_load t1"
      using below_load [OF below_ext [OF below_tree_load [OF a1 nc1] e1]] tl by simp
    have "node_lookup (tree_load t1) ?n = apply_actions actions (node_lookup (tree_load t1) ?n)"
      using nr [OF below_tree_load [OF a1 nc1]] same by (simp add: node_result_def Let_def)
    moreover have "node_lookup (tree_load t1) ?n = node_lookup (store_load ?t) ?n"
      using node_lookup_mono [OF hk(5) mono] by blast
    ultimately have "history_map (h\<lparr>rh_impl := ?t'\<rparr>) = apply_actions actions (history_map h)"
      by (simp add: history_map_def sl)
    moreover have "history_ok dg L (h\<lparr>rh_impl := ?t'\<rparr>)"
      using h clear_clean(1-3) [OF a1] sl st by (auto simp: history_ok_def split: option.splits)
    moreover have "process dg h actions = (?t', Inr (Inr (h\<lparr>rh_impl := ?t'\<rparr>)))"
      using same m nd by (simp add: process_def save_and_commit_def)
    ultimately show ?thesis by (intro disjI1 exI [of _ ?t']) auto
  next
    case new
    obtain t2 r2 where s: "save_node dg t1 n' = (t2, r2)" by fastforce
    have t2: "batch_state dg h actions = t2" using m new s by (simp add: batch_state_def)
    have nc2: "\<not> clash dg t2" using nc t2 by simp
    have e2: "tree_ext t1 t2" by (rule save_node_ext [OF s])
    have nr1: "node_ok (tree_load t1) L n'"
      using nr [OF below_tree_load [OF a1 nc1]] new by (simp add: node_result_def Let_def)
    note sp = save_node_spec [OF a1 node_ok_wf [OF nr1 hk(1)] s]
    have a2: "addressed dg t2" by (rule sp(1))
    have tr2: "tracked t2" using e2 tr1 by (simp add: tree_ext_def)
    show ?thesis
    proof (cases r2)
      case (Inl e)
      then show ?thesis using sp(2) new m s nd by (auto simp: process_def save_and_commit_def)
    next
      case (Inr rh)
      have rh: "rh = dg (encode n')" "bm_get (cache_read t2) rh = Some n'" using sp(2) Inr by auto
      have wr: "bm_get (cache_write t2) rh = Some (encode n')"
        using s Inr rh(1) by (auto simp: save_node_def hash_node_def split: option.splits if_splits)
      obtain t3 where c: "commit t2 = (t3, Inr ())" using commit_agrees [OF a2 nc2 tr2] by blast
      let ?t' = "clear_read_cache (clear_write_cache t3)" and ?h' = "\<lparr>root_hash = rh, root_node = n', rh_impl = clear_read_cache (clear_write_cache t3)\<rparr>"
      note cs = commit_spec [OF a2 nc2 tr2 c]
      have b2: "below t2 (tree_load t2)" by (rule below_tree_load [OF a2 nc2])
      have nr2: "node_ok (tree_load t2) L n'"
          "node_lookup (tree_load t2) n' = apply_actions actions (node_lookup (tree_load t2) ?n)"
        using nr [OF below_ext [OF b2 e2]] new by (simp_all add: node_result_def Let_def)
      have mono: "store_load ?t \<subseteq>\<^sub>m tree_load t2"
        using below_load [OF below_ext [OF below_ext [OF b2 e2] e1]] tl by simp
      have old: "node_lookup (tree_load t2) ?n = node_lookup (store_load ?t) ?n"
        using node_lookup_mono [OF hk(5) mono] by blast
      have "node_lookup (store_load ?t') n' = node_lookup (tree_load t2) n'"
        using node_lookup_mono [OF nr2(1) cs(1)] by blast
      also have "\<dots> = apply_actions actions (node_lookup (store_load ?t) ?n)"
        using nr2(2) old by simp
      finally have "history_map ?h' = apply_actions actions (history_map h)" by (simp add: history_map_def)
      moreover have "history_ok dg L ?h'"
        using hk(1) cs(2-4) node_ok_mono [OF nr2(1) cs(1)] rh(1) cs(5) [OF wr] by (simp add: history_ok_def)
      moreover have "process dg h actions = (?t', Inr (Inr ?h'))"
        using new m s Inr c nd by (simp add: process_def save_and_commit_def)
      ultimately show ?thesis by (intro disjI1 exI [of _ ?t'] exI [of _ ?h']) simp
    qed
  qed
qed

section \<open>Canonical form\<close>

text \<open>Two items that hold the same map are the same item: pointers included, by content addressing.\<close>

definition content_addressed :: "(bytes \<Rightarrow> hash32) \<Rightarrow> (hash32 \<rightharpoonup> node) \<Rightarrow> bool" where
  "content_addressed dg ld \<longleftrightarrow> (\<forall>h n. ld h = Some n \<longrightarrow> dg (encode n) = h)"

lemma addressed_content: "addressed dg t \<Longrightarrow> content_addressed dg (store_load t)"
  unfolding content_addressed_def
  by (metis addressed_store addressed_store_load)

lemma NodePtr_two_keys:
  assumes "item_ok ld L (NodePtr p h)"
  obtains b r v c s w where "b \<noteq> c" "item_lookup ld (NodePtr p h) (p @ b # r) = Some v"
    "item_lookup ld (NodePtr p h) (p @ c # s) = Some w"
proof -
  obtain n where n: "ld h = Some n" "branching n" "node_ok ld (L - Suc (length p)) n"
    using assms by (auto simp: item_ok_NodePtr)
  obtain i j where ij: "i \<noteq> j" "i \<in> full_slots n" "j \<in> full_slots n" using n(2) by (auto simp: branching_def)
  have u: "unat (of_nat i :: byte) = i" "unat (of_nat j :: byte) = j"
    using ij by (auto simp: full_slots_def NUM_ITEMS_def intro!: unat_idx)
  have k: "\<exists>r v. item_lookup ld (n ! i) r = Some v" if "i \<in> full_slots n" for i
    using that item_ok_nonempty [OF node_ok_nth [OF n(3)]] by (auto simp: full_slots_def)
  obtain r v s w where "item_lookup ld (n ! i) r = Some v" "item_lookup ld (n ! j) s = Some w"
    using k ij by blast
  moreover have "(of_nat i :: byte) \<noteq> of_nat j" using u ij(1) by metis
  ultimately show thesis
    using that [of "of_nat i" "of_nat j" r v s w] u n(1) by auto
qed

lemma prefix_of_split:
  "p @ b # r = q @ x \<Longrightarrow> p @ c # s = q @ y \<Longrightarrow> b \<noteq> c \<Longrightarrow> \<exists>z. p = q @ z"
proof (induction q arbitrary: p)
  case (Cons a q)
  then show ?case by (cases p) auto
qed simp

lemma NodePtr_key_prefix: "item_lookup ld (NodePtr p h) k = Some v \<Longrightarrow> \<exists>r. k = p @ r"
  by (auto split: option.splits)

lemma item_canonical:
  assumes "content_addressed dg ld" and "content_addressed dg ld'"
  shows "item_ok ld L i \<Longrightarrow> item_ok ld' L j \<Longrightarrow> item_lookup ld i = item_lookup ld' j \<Longrightarrow> i = j"
proof (induction L arbitrary: i j rule: less_induct)
  case (less L)
  show ?case
  proof (cases i)
    case Empty
    then show ?thesis using item_ok_nonempty [OF less.prems(2)] less.prems(3) by (auto simp: fun_eq_iff)
  next
    case (Leaf p v)
    show ?thesis
    proof (cases j)
      case (NodePtr q h)
      then obtain b r v' c s w where "b \<noteq> c" "item_lookup ld' j (q @ b # r) = Some v'" "item_lookup ld' j (q @ c # s) = Some w"
        using NodePtr_two_keys [of ld' L q h] less.prems(2) by metis
      then show ?thesis using Leaf less.prems(3) [symmetric] by (simp split: if_splits)
    qed (use Leaf less.prems(3) in \<open>auto simp: fun_eq_iff split: if_splits\<close>)
  next
    case (NodePtr p h)
    obtain b r v c s w where bc: "b \<noteq> c" "item_lookup ld i (p @ b # r) = Some v" "item_lookup ld i (p @ c # s) = Some w"
      using NodePtr_two_keys [of ld L p h] less.prems(1) NodePtr by metis
    show ?thesis
    proof (cases j)
      case Empty
      then show ?thesis using bc less.prems(3) by simp
    next
      case (Leaf q w)
      then show ?thesis using bc less.prems(3) by (simp split: if_splits)
    next
      case j: (NodePtr q h')
      obtain b' r' v' c' s' w' where bc': "b' \<noteq> c'" "item_lookup ld' j (q @ b' # r') = Some v'"
          "item_lookup ld' j (q @ c' # s') = Some w'"
        using NodePtr_two_keys [of ld' L q h'] less.prems(2) j by metis
      have "\<exists>z. p = q @ z"
        using prefix_of_split bc NodePtr_key_prefix [of ld' q h'] less.prems(3) j by metis
      moreover have "\<exists>z. q = p @ z"
        using prefix_of_split bc' NodePtr_key_prefix [of ld p h] less.prems(3) NodePtr by metis
      ultimately have pq: "p = q" by auto
      obtain n where n: "ld h = Some n" "length p < L" "node_ok ld (L - Suc (length p)) n"
        using less.prems(1) NodePtr by (auto simp: item_ok_NodePtr)
      obtain n' where n': "ld' h' = Some n'" "node_ok ld' (L - Suc (length p)) n'"
        using less.prems(2) j pq by (auto simp: item_ok_NodePtr)
      have slot: "n ! x = n' ! x" if x: "x < NUM_ITEMS" for x
      proof (rule less.IH [of "L - Suc (length p)"])
        have u: "unat (of_nat x :: byte) = x" using x by (intro unat_idx) (simp add: NUM_ITEMS_def)
        have "item_lookup ld i (p @ of_nat x # k) = item_lookup ld' j (p @ of_nat x # k)" for k
          using less.prems(3) by simp
        then show "item_lookup ld (n ! x) = item_lookup ld' (n' ! x)"
          using NodePtr j pq n(1) n'(1) u by (auto simp: fun_eq_iff)
      qed (use n n' x node_ok_nth in auto)
      have "n = n'" using slot n(3) n'(2) by (intro nth_equalityI) (auto simp: node_ok_def)
      moreover have "dg (encode n) = h" "dg (encode n') = h'"
        using assms n(1) n'(1) by (auto simp: content_addressed_def)
      ultimately show ?thesis using NodePtr j pq by simp
    qed
  qed
qed

lemma node_canonical:
  assumes "content_addressed dg ld" and "content_addressed dg ld'"
    and "node_ok ld L m" and "node_ok ld' L n" and "node_lookup ld m = node_lookup ld' n"
  shows "m = n"
proof (rule nth_equalityI)
  show "length m = length n" using assms by (simp add: node_ok_def)
  fix i assume "i < length m"
  then have i: "i < NUM_ITEMS" using assms(3) by (simp add: node_ok_def)
  have u: "unat (of_nat i :: byte) = i" using i by (intro unat_idx) (simp add: NUM_ITEMS_def)
  have "node_lookup ld m (of_nat i # k) = node_lookup ld' n (of_nat i # k)" for k using assms(5) by simp
  then have "item_lookup ld (m ! i) = item_lookup ld' (n ! i)" by (simp add: fun_eq_iff u)
  then show "m ! i = n ! i"
    by (rule item_canonical [OF assms(1,2) node_ok_nth [OF assms(3) i] node_ok_nth [OF assms(4) i]])
qed

section \<open>The theorems\<close>

lemma batch_state_ext: "tree_ext (rh_impl h) (batch_state dg h actions)"
proof -
  obtain t1 r where m: "make_actions dg (rh_impl h) (root_node h) actions = (t1, r)" by fastforce
  have "tree_ext t1 (fst (save_node dg t1 n))" for n by (metis prod.collapse save_node_ext)
  then show ?thesis
    using m make_ext(1) [OF m] tree_ext_trans
    by (auto simp: batch_state_def split: sum.splits option.splits)
qed

lemma commit_clash:
  assumes st: "\<And>h bs. bm_get (rt_store t) h = Some bs \<Longrightarrow> \<exists>n. node_wf n \<and> bs = encode n"
    and tr: "tracked t" and c: "commit t = (t', Inr u)"
  shows "\<not> clash dg t"
proof
  assume "clash dg t"
  then obtain h n bs where cl: "bm_get (cache_read t) h = Some n" "bm_get (rt_store t) h = Some bs" "bs \<noteq> encode n"
    by (auto simp: clash_def)
  obtain m where m: "node_wf m" "bs = encode m" using st [OF cl(2)] by blast
  have "store_load t h = Some m"
    using cl(2) m by (simp add: store_load_def load_node_from_store_def decode_encode)
  then have "bm_get (cache_write t) h = Some (encode n)"
    using tr cl m unfolding tracked_def by fastforce
  then show False using commit_ok(4) [OF c, of h] tr cl by (simp add: tracked_def)
qed

lemma history_ok_fresh:
  assumes "L \<le> 127"
  shows "history_ok dg L (radix_history_new (empty_root_hash dg) [])"
    and "history_map (radix_history_new (empty_root_hash dg) []) = (\<lambda>k. None)"
  using assms
  by (simp_all add: radix_history_new_def load_node_def radix_tree_new_def load_node_from_store_def
      history_ok_def addressed_def tracked_def empty_root_hash_def hash_node_def history_map_def fun_eq_iff)

lemma rt_store_batch_fresh:
  "rt_store (batch_state dg (radix_history_new r []) actions) = []"
  using batch_state_ext [of "radix_history_new r []" dg actions]
  by (simp add: tree_ext_def radix_history_new_def load_node_def radix_tree_new_def load_node_from_store_def)

lemma no_clash_fresh: "\<not> clash dg (batch_state dg (radix_history_new r []) actions)"
  by (simp add: clash_def rt_store_batch_fresh)

lemma committed_exact:
  assumes dg: "digest_ok dg" and h: "history_ok dg L h" and as: "actions_ok (Suc L) actions"
    and p: "process dg h actions = (t, Inr (Inr h'))" and new: "root_hash h' \<noteq> root_hash h"
  shows "history_ok dg L h' \<and> history_map h' = apply_actions actions (history_map h)"
proof -
  have a: "addressed dg (rh_impl h)" and tr: "tracked (rh_impl h)" using h by (auto simp: history_ok_def)
  obtain t1 n t2 rh t3 where m: "make_actions dg (rh_impl h) (root_node h) actions = (t1, Inr (Some n))"
      and s: "save_node dg t1 n = (t2, Inr rh)" and c: "commit t2 = (t3, Inr ())"
    using p new by (auto simp: process_def save_and_commit_def split: if_splits prod.splits sum.splits option.splits)
  have b: "batch_state dg h actions = t2" using m s by (simp add: batch_state_def)
  note e = batch_state_ext [of h dg actions, unfolded b]
  have "\<not> clash dg t2"
  proof (rule commit_clash [OF _ _ c])
    show "tracked t2" using e tr by (simp add: tree_ext_def)
    fix k bs assume "bm_get (rt_store t2) k = Some bs"
    then show "\<exists>n. node_wf n \<and> bs = encode n"
      using e addressed_store [OF a, of k bs] by (auto simp: tree_ext_def)
  qed
  then have "\<not> clash dg (batch_state dg h actions)" by (simp add: b)
  then show ?thesis using process_spec [OF dg h as] p by auto
qed

text \<open>
  C6: a batch of actions with distinct keys of one length refines the update of a map. If no node
  of the batch has the digest of other stored bytes, then the batch returns a well-formed history
  that holds the updated map; the one other outcome is the cache's collision panic, and the two
  nodes it reports have different encodings with the same digest.
\<close>

theorem process_refines_map:
  assumes "digest_ok dg" and "history_ok dg L h" and "actions_ok (Suc L) actions"
    and "\<not> clash dg (batch_state dg h actions)"
  shows "(\<exists>h'. process dg h actions = (rh_impl h', Inr (Inr h')) \<and> history_ok dg L h' \<and>
            history_map h' = apply_actions actions (history_map h)) \<or>
         (\<exists>t d m n. process dg h actions = (t, Inl (CacheCollision d m n)) \<and>
            encode m \<noteq> encode n \<and> dg (encode m) = d \<and> dg (encode n) = d)"
  using process_spec [OF assms] by (auto simp: real_collision_def)

text \<open>
  A batch that returns a new root is exact, with no assumption on the digest: the commit has
  compared every saved node with what the store holds under its digest.
\<close>

theorem committed_batch_exact:
  assumes "digest_ok dg" and "history_ok dg L h" and "actions_ok (Suc L) actions"
    and "process dg h actions = (t, Inr (Inr h'))" and "root_hash h' \<noteq> root_hash h"
  shows "history_ok dg L h' \<and> history_map h' = apply_actions actions (history_map h)"
  by (rule committed_exact [OF assms])

text \<open>
  C20: the root is determined by what the history holds. Two well-formed histories with the same map
  have the same root node and the same root hash, whatever batches led to them.
\<close>

theorem equal_maps_equal_roots:
  assumes "history_ok dg L h" and "history_ok dg L h'" and "history_map h = history_map h'"
  shows "root_node h = root_node h' \<and> root_hash h = root_hash h'"
proof -
  have "root_node h = root_node h'"
    using assms node_canonical [of dg "store_load (rh_impl h)" "store_load (rh_impl h')" L]
      addressed_content by (auto simp: history_ok_def history_map_def)
  then show ?thesis using assms by (simp add: history_ok_def)
qed

lemma history_read_map:
  assumes "history_ok dg L h"
  obtains t where "history_read h k = (t, Inr (history_map h k))"
    "\<And>k'. snd (history_read (h\<lparr>rh_impl := t\<rparr>) k') = Inr (history_map h k')"
proof -
  let ?t = "rh_impl h" and ?n = "root_node h"
  have hk: "addressed dg ?t" "tracked ?t" "cache_write ?t = []" "node_ok (store_load ?t) L ?n"
    using assms by (auto simp: history_ok_def)
  have tl: "tree_load ?t = store_load ?t" by (rule tracked_clean [OF hk(2,3)])
  obtain t' where t': "read ?t ?n k = (t', Inr (node_lookup (tree_load ?t) ?n k))" "addressed dg t'" "\<not> clash dg t'"
    "tree_load t' = tree_load ?t"
    using read_spec [OF hk(1) clean_no_clash [OF hk(1-3)], of L ?n k] hk(4) tl by auto
  have "snd (read t' ?n k') = Inr (history_map h k')" for k'
    using read_spec [OF t'(2,3), of L ?n k'] hk(4) tl t'(4) by (auto simp: history_map_def)
  then show thesis using that t'(1) tl by (simp add: history_read_def history_map_def)
qed

lemma reset_ok:
  assumes "history_ok dg L h"
  shows "history_ok dg L (history_reset h (root_hash h)) \<and> history_map (history_reset h (root_hash h)) = history_map h"
proof -
  let ?t = "rh_impl h" and ?n = "root_node h" and ?h = "history_reset h (root_hash h)"
  have hk: "L \<le> 127" "addressed dg ?t" "node_ok (store_load ?t) L ?n" "root_hash h = dg (encode ?n)"
    using assms by (auto simp: history_ok_def)
  have wf: "node_wf ?n" by (rule node_ok_wf [OF hk(3,1)])
  let ?fresh = "radix_tree_new (rt_store ?t)"
  have sl: "store_load ?fresh = store_load ?t" by (rule store_load_cong) (simp add: radix_tree_new_def)
  have l: "\<exists>t1. load_node ?fresh (root_hash h) True = (t1, Inr ?n) \<and>
      (t1 = ?fresh \<or> (store_load ?t (root_hash h) = Some ?n \<and> t1 = ?fresh\<lparr>cache_read := [(root_hash h, ?n)]\<rparr>))"
  proof (cases "bm_get (rt_store ?t) (root_hash h)")
    case None
    then show ?thesis
      using assms by (simp add: load_node_def load_node_from_store_def radix_tree_new_def history_ok_def)
  next
    case (Some bs)
    then have "bs = encode ?n" using assms by (auto simp: history_ok_def radix_tree_new_def)
    then show ?thesis
      using Some wf
      by (simp add: load_node_def load_node_from_store_def radix_tree_new_def decode_encode store_load_def
          bm_insert_def bm_remove_def)
  qed
  then obtain t1 where t1: "load_node ?fresh (root_hash h) True = (t1, Inr ?n)"
      "t1 = ?fresh \<or> (store_load ?t (root_hash h) = Some ?n \<and> t1 = ?fresh\<lparr>cache_read := [(root_hash h, ?n)]\<rparr>)"
    by blast
  have h': "root_hash ?h = root_hash h" "root_node ?h = ?n" "rh_impl ?h = t1"
    using t1(1) by (simp_all add: history_reset_def radix_history_new_def)
  have st: "rt_store t1 = rt_store ?t" "cache_write t1 = []" using t1(2) by (auto simp: radix_tree_new_def)
  have sl1: "store_load t1 = store_load ?t" by (rule store_load_cong [OF st(1)])
  have a1: "addressed dg t1"
    using t1(2) hk(2,4) wf by (auto simp: addressed_def radix_tree_new_def split: if_splits)
  have tr1: "tracked t1"
    unfolding tracked_def sl1 using t1(2) by (auto simp: radix_tree_new_def split: if_splits)
  have ok: "history_ok dg L ?h"
    using assms a1 tr1 unfolding history_ok_def h' sl1 st by blast
  have map: "history_map ?h = history_map h" by (simp add: history_map_def h' sl1)
  show ?thesis using ok map by blast
qed

text \<open>
  C30: a history opened at the root of another one, with empty caches over the same store, holds the
  same map; a read of any key returns what the map holds and never panics.
\<close>

theorem reset_then_read:
  assumes "history_ok dg L h"
  shows "history_ok dg L (history_reset h (root_hash h)) \<and>
    history_map (history_reset h (root_hash h)) = history_map h \<and>
    (\<forall>k. snd (history_read (history_reset h (root_hash h)) k) = Inr (history_map h k))"
  using reset_ok [OF assms] by (metis history_read_map snd_conv)

section \<open>A concrete history\<close>

text \<open>
  A small digest and histories over keys of two bytes, on which the theorems are evaluated: the same
  three entries inserted in one batch and, in another order, in two.
\<close>

definition sample_digest :: "bytes \<Rightarrow> hash32" where
  "sample_digest bs =
     [of_nat (length bs), sum_list bs, sum_list (map2 (*) bs (map of_nat [1..<Suc (length bs)]))] @ replicate 29 0"

definition sample_fresh :: radix_history where
  "sample_fresh = radix_history_new (empty_root_hash sample_digest) []"

definition sample_actions :: "history_action list" where
  "sample_actions = [Insert [1, 2] (replicate 32 7), Insert [1, 3] (replicate 32 8), Insert [2, 0] (replicate 32 9)]"

definition processed :: "radix_history \<Rightarrow> history_action list \<Rightarrow> radix_history" where
  "processed h as = (case snd (process sample_digest h as) of Inr (Inr h') \<Rightarrow> h' | _ \<Rightarrow> h)"

definition sample_history :: radix_history where
  "sample_history = processed sample_fresh sample_actions"

definition sample_steps :: "history_action list list" where
  "sample_steps = [[Insert [2, 0] (replicate 32 9)], [Insert [1, 3] (replicate 32 8), Insert [1, 2] (replicate 32 7)]]"

definition sample_between :: radix_history where
  "sample_between = processed sample_fresh (sample_steps ! 0)"

definition sample_history' :: radix_history where
  "sample_history' = processed sample_between (sample_steps ! 1)"

lemma sample_digest_ok: "digest_ok sample_digest"
  by (simp add: digest_ok_def sample_digest_def hash32_ok_def HASH32_LENGTH_def)

lemma sample_fresh_ok: "history_ok sample_digest 1 sample_fresh"
  and sample_fresh_map: "history_map sample_fresh = (\<lambda>k. None)"
  using history_ok_fresh [of 1 sample_digest] by (simp_all add: sample_fresh_def)

lemma sample_actions_ok:
  "actions_ok (Suc 1) sample_actions" "actions_ok (Suc 1) (sample_steps ! 0)" "actions_ok (Suc 1) (sample_steps ! 1)"
  by (auto simp: actions_ok_def sample_actions_def sample_steps_def hash32_ok_def HASH32_LENGTH_def)

text \<open>What evaluation shows: each batch returns a history with a new root.\<close>

definition new_root :: "radix_history \<Rightarrow> history_action list \<Rightarrow> bool" where
  "new_root h as =
     (case snd (process sample_digest h as) of Inr (Inr h') \<Rightarrow> root_hash h' \<noteq> root_hash h | _ \<Rightarrow> False)"

lemma sample_new_root:
  "new_root sample_fresh sample_actions" "new_root sample_fresh (sample_steps ! 0)"
  "new_root sample_between (sample_steps ! 1)"
  by code_simp+

lemma processed_new_root:
  assumes "new_root h as"
  obtains t where "process sample_digest h as = (t, Inr (Inr (processed h as)))"
    "root_hash (processed h as) \<noteq> root_hash h"
  using assms by (cases "process sample_digest h as")
    (auto simp: new_root_def processed_def split: sum.splits)

lemma processed_exact:
  assumes "history_ok sample_digest 1 h" and "actions_ok (Suc 1) as" and "new_root h as"
  shows "history_ok sample_digest 1 (processed h as)"
    and "history_map (processed h as) = apply_actions as (history_map h)"
  using processed_new_root [OF assms(3)] committed_exact [OF sample_digest_ok assms(1,2)] by metis+

lemma sample_history_ok: "history_ok sample_digest 1 sample_history"
  and sample_history_map: "history_map sample_history = apply_actions sample_actions (\<lambda>k. None)"
  unfolding sample_history_def sample_fresh_map [symmetric]
  by (rule processed_exact [OF sample_fresh_ok sample_actions_ok(1) sample_new_root(1)])+

lemma sample_history'_ok: "history_ok sample_digest 1 sample_history'"
  and sample_history'_map:
    "history_map sample_history' = apply_actions (sample_steps ! 1) (apply_actions (sample_steps ! 0) (\<lambda>k. None))"
proof -
  note b = processed_exact [OF sample_fresh_ok sample_actions_ok(2) sample_new_root(2), folded sample_between_def]
  note c = processed_exact [OF b(1) sample_actions_ok(3) sample_new_root(3), folded sample_history'_def]
  show "history_ok sample_digest 1 sample_history'" by (rule c(1))
  show "history_map sample_history' = apply_actions (sample_steps ! 1) (apply_actions (sample_steps ! 0) (\<lambda>k. None))"
    using b(2) c(2) sample_fresh_map by simp
qed

theorem process_refines_map_witness:
  "history_ok sample_digest 1 sample_fresh \<and> \<not> clash sample_digest (batch_state sample_digest sample_fresh sample_actions) \<and>
   (\<exists>h'. process sample_digest sample_fresh sample_actions = (rh_impl h', Inr (Inr h')) \<and>
      history_map h' = apply_actions sample_actions (\<lambda>k. None))"
proof -
  have nc: "\<not> clash sample_digest (batch_state sample_digest sample_fresh sample_actions)"
    unfolding sample_fresh_def by (rule no_clash_fresh)
  have "\<exists>h'. snd (process sample_digest sample_fresh sample_actions) = Inr (Inr h')"
    using sample_new_root(1) by (auto simp: new_root_def split: sum.splits)
  then show ?thesis
    using process_refines_map [OF sample_digest_ok sample_fresh_ok sample_actions_ok(1) nc]
      sample_fresh_ok sample_fresh_map nc by auto
qed

theorem committed_batch_exact_witness:
  "root_hash sample_history \<noteq> root_hash sample_fresh \<and>
   history_map sample_history = apply_actions sample_actions (\<lambda>k. None)"
proof -
  obtain t where t: "process sample_digest sample_fresh sample_actions = (t, Inr (Inr sample_history))"
      "root_hash sample_history \<noteq> root_hash sample_fresh"
    using processed_new_root [OF sample_new_root(1)] unfolding sample_history_def .
  show ?thesis
    using committed_batch_exact [OF sample_digest_ok sample_fresh_ok sample_actions_ok(1) t]
      t(2) sample_fresh_map by simp
qed

theorem equal_maps_equal_roots_witness:
  "root_hash sample_history = root_hash sample_history' \<and> root_hash sample_history \<noteq> root_hash sample_between"
proof -
  have "history_map sample_history = history_map sample_history'"
    by (auto simp: sample_history_map sample_history'_map apply_actions_def sample_actions_def sample_steps_def)
  then have "root_hash sample_history = root_hash sample_history'"
    using equal_maps_equal_roots [OF sample_history_ok sample_history'_ok] by blast
  moreover have "root_hash sample_history' \<noteq> root_hash sample_between"
    using processed_new_root [OF sample_new_root(3)] unfolding sample_history'_def .
  ultimately show ?thesis by simp
qed

theorem reset_then_read_witness:
  "snd (history_read (history_reset sample_history (root_hash sample_history)) [1, 3]) = Inr (Some (replicate 32 8)) \<and>
   snd (history_read (history_reset sample_history (root_hash sample_history)) [1, 4]) = Inr None"
proof -
  have "history_map sample_history [1, 3] = Some (replicate 32 8)" "history_map sample_history [1, 4] = None"
    unfolding sample_history_map by (simp_all add: apply_actions_def sample_actions_def)
  then show ?thesis using reset_then_read [OF sample_history_ok] by auto
qed

end
