(* ===== verification/Tuple_Types.thy ===== *)
theory Tuple_Types
  imports Refined
begin

text \<open>
  The data of the tuple space (\<^verbatim>\<open>rspace/src/internal.rs\<close>, \<^verbatim>\<open>trace/event.rs\<close>, \<^verbatim>\<open>tuple_space.rs\<close>,
  \<^verbatim>\<open>errors.rs\<close>). Channels, patterns, data and continuations are type parameters, as in the code.

  Produces and consumes compare and order by their hash alone. The model keeps whole records, states
  the code's comparison as \<open>produce_eq\<close>, \<open>consume_eq\<close> and \<open>comm_eq\<close>, and keys the maps and sets the code
  keys by a produce or a consume by its hash.
\<close>

record produce =
  pr_channels_hash :: hash32
  pr_hash :: hash32
  pr_persistent :: bool

record consume =
  cs_channels_hashes :: "hash32 list"
  cs_hash :: hash32
  cs_persistent :: bool

definition produce_eq :: "produce \<Rightarrow> produce \<Rightarrow> bool" where
  "produce_eq p q \<longleftrightarrow> pr_hash p = pr_hash q"

definition consume_eq :: "consume \<Rightarrow> consume \<Rightarrow> bool" where
  "consume_eq c d \<longleftrightarrow> cs_hash c = cs_hash d"

record comm =
  cm_consume :: consume
  cm_produces :: "produce list"
  cm_peeks :: "nat btset"
  cm_times_repeated :: "(hash32, nat) btmap"

text \<open>The derived equality of \<^verbatim>\<open>Comm\<close>, through the equality of its parts.\<close>

definition comm_eq :: "comm \<Rightarrow> comm \<Rightarrow> bool" where
  "comm_eq c d \<longleftrightarrow>
     consume_eq (cm_consume c) (cm_consume d) \<and> list_all2 produce_eq (cm_produces c) (cm_produces d) \<and>
     cm_peeks c = cm_peeks d \<and> cm_times_repeated c = cm_times_repeated d"

datatype event = EComm comm | EProduce produce | EConsume consume

record 'a datum =
  dt_a :: 'a
  dt_persist :: bool
  dt_source :: produce

record ('p, 'k) waiting_continuation =
  wc_patterns :: "'p list"
  wc_continuation :: 'k
  wc_persist :: bool
  wc_peeks :: "nat btset"
  wc_source :: consume

record ('c, 'a) consume_candidate =
  cc_channel :: 'c
  cc_datum :: "'a datum"
  cc_removed_datum :: 'a
  cc_datum_index :: int

record ('c, 'p, 'a, 'k) produce_candidate =
  pc_channels :: "'c list"
  pc_continuation :: "('p, 'k) waiting_continuation"
  pc_continuation_index :: nat
  pc_data_candidates :: "('c, 'a) consume_candidate list"

record ('p, 'a, 'k) row =
  row_data :: "'a datum list"
  row_wks :: "('p, 'k) waiting_continuation list"

record ('p, 'k) install =
  in_patterns :: "'p list"
  in_continuation :: 'k

record ('c, 'a) match_result =
  mr_channel :: 'c
  mr_matched_datum :: 'a
  mr_removed_datum :: 'a
  mr_persistent :: bool

record ('c, 'p, 'k) cont_result =
  cr_continuation :: 'k
  cr_persistent :: bool
  cr_channels :: "'c list"
  cr_patterns :: "'p list"
  cr_peek :: bool

datatype rspace_error =
    LockPoisoned | Codec string | UnexpectedLeaf string | HistoryCommitFailed | InstallNotAllowed
  | CachedKeyMissing | EmptyPrefix | ReplayDataNotEmpty | ReplayCommNotInTrace

text \<open>What ends an operation early: an error value, or a panic.\<close>

datatype failure = Failed rspace_error | Panicked

text \<open>
  \<^verbatim>\<open>Comm::apply\<close>: the produces of the matched data in the order of channel hash, hash and
  persistence, with the counter of each.
\<close>

definition comm_apply ::
  "('c, 'a) consume_candidate list \<Rightarrow> consume \<Rightarrow> nat btset \<Rightarrow> (produce list \<Rightarrow> (hash32, nat) btmap) \<Rightarrow> comm" where
  "comm_apply data_candidates consume_ref peeks produce_counters =
     (let produce_refs =
            sort_key (\<lambda>p. (pr_channels_hash p, pr_hash p, pr_persistent p))
              (map (\<lambda>c. dt_source (cc_datum c)) data_candidates)
      in \<lparr>cm_consume = consume_ref, cm_produces = produce_refs, cm_peeks = peeks,
          cm_times_repeated = produce_counters produce_refs\<rparr>)"

lemma list_all2_produce_eq: "list_all2 produce_eq ps qs \<longleftrightarrow> map pr_hash ps = map pr_hash qs"
  by (auto simp: produce_eq_def list_all2_conv_all_nth list_eq_iff_nth_eq)

lemma comm_eq_iff:
  "comm_eq c d \<longleftrightarrow>
     cs_hash (cm_consume c) = cs_hash (cm_consume d) \<and>
     map pr_hash (cm_produces c) = map pr_hash (cm_produces d) \<and>
     cm_peeks c = cm_peeks d \<and> cm_times_repeated c = cm_times_repeated d"
  by (simp add: comm_eq_def consume_eq_def list_all2_produce_eq)

lemma comm_eq_refl [simp]: "comm_eq c c"
  by (simp add: comm_eq_iff)

lemma comm_eq_sym: "comm_eq c d \<Longrightarrow> comm_eq d c"
  by (simp add: comm_eq_iff)

lemma comm_eq_trans: "comm_eq c d \<Longrightarrow> comm_eq d e \<Longrightarrow> comm_eq c e"
  by (simp add: comm_eq_iff)

end
