(* ===== verification/Scodec.thy ===== *)
theory Scodec
  imports Tuple_Types "HOL-Library.Monad_Syntax"
begin

text \<open>
  The bit-exact serialisers of the tuple space (\<^verbatim>\<open>rspace/src/serializers/scodec_serialize.rs\<close>,
  \<^verbatim>\<open>util.rs\<close>, \<^verbatim>\<open>history/cold_store.rs\<close>): byte-aligned sequences, the bit writer and reader, and the codecs of data,
  continuations, joins and persisted leaves. How a channel, a pattern, a datum or a continuation is
  turned into bytes is the \<^verbatim>\<open>Serialize\<close> instance of its type, a pair of parameters here.

  A reader that runs out of bytes indexes past the end of a slice, which panics: the readers return
  \<^const>\<open>None\<close> there. A small calculus relates both sides to bit lists: \<open>writes f bs\<close> says that a writer
  operation appends the bits \<open>bs\<close>, \<open>reads p bs x\<close> that a reader operation consumes them and returns
  \<open>x\<close>. Codecs are shown to be inverse by composing the two.
\<close>

unbundle bit_operations_syntax

section \<open>Byte-aligned sequences\<close>

text \<open>\<^verbatim>\<open>veccmp\<close> compares by length first: the order of this key.\<close>

definition veccmp_key :: "bytes \<Rightarrow> nat \<times> bytes" where
  "veccmp_key b = (length b, b)"

text \<open>\<^verbatim>\<open>to_be_bytes\<close> of a length cast to an integer of \<open>k\<close> bytes.\<close>

definition be_bytes :: "nat \<Rightarrow> nat \<Rightarrow> bytes" where
  "be_bytes k n = map (\<lambda>i. of_nat (n div 256 ^ i)) (rev [0..<k])"

definition size_head :: "bytes \<Rightarrow> bytes" where
  "size_head bs = be_bytes 8 (length bs) @ bs"

definition encode_seq_byte_vectors :: "bytes list \<Rightarrow> bytes" where
  "encode_seq_byte_vectors es = be_bytes 4 (length es) @ concat (map (\<lambda>e. be_bytes 8 (length e) @ e) es)"

definition bool8 :: "bool \<Rightarrow> bytes" where
  "bool8 b = [if b then 1 else 0]"

definition to_ordered_byte_vectors :: "('a \<Rightarrow> bytes) \<Rightarrow> 'a list \<Rightarrow> bytes list" where
  "to_ordered_byte_vectors enc xs = sort_key veccmp_key (map enc xs)"

section \<open>The bit writer\<close>

record bit_writer =
  bw_bytes :: bytes
  bw_bit_len :: nat

definition bw_new :: bit_writer where
  "bw_new = \<lparr>bw_bytes = [], bw_bit_len = 0\<rparr>"

definition write_bit :: "byte \<Rightarrow> bit_writer \<Rightarrow> bit_writer" where
  "write_bit b w =
     (let byte_idx = bw_bit_len w div 8;
          bs = (if byte_idx = length (bw_bytes w) then bw_bytes w @ [0] else bw_bytes w)
      in \<lparr>bw_bytes = bs[byte_idx := bs ! byte_idx OR push_bit (7 - bw_bit_len w mod 8) (b AND 1)],
          bw_bit_len = bw_bit_len w + 1\<rparr>)"

definition write_bits :: "64 word \<Rightarrow> nat \<Rightarrow> bit_writer \<Rightarrow> bit_writer" where
  "write_bits v n w = fold (\<lambda>i. write_bit (ucast (drop_bit i v AND 1))) (rev [0..<n]) w"

definition write_bytes :: "bytes \<Rightarrow> bit_writer \<Rightarrow> bit_writer" where
  "write_bytes bs w = fold (\<lambda>b. write_bits (ucast b) 8) bs w"

definition bw_finish :: "bit_writer \<Rightarrow> bytes" where
  "bw_finish w = bw_bytes w"

section \<open>The bit reader\<close>

record bit_reader =
  br_bytes :: bytes
  br_bit_pos :: nat

definition br_new :: "bytes \<Rightarrow> bit_reader" where
  "br_new bs = \<lparr>br_bytes = bs, br_bit_pos = 0\<rparr>"

definition read_bit :: "bit_reader \<Rightarrow> (byte \<times> bit_reader) option" where
  "read_bit r =
     (let i = br_bit_pos r in
      if i div 8 < length (br_bytes r)
      then Some (drop_bit (7 - i mod 8) (br_bytes r ! (i div 8)) AND 1, r\<lparr>br_bit_pos := i + 1\<rparr>)
      else None)"

primrec read_bits_loop :: "nat \<Rightarrow> 64 word \<Rightarrow> bit_reader \<Rightarrow> (64 word \<times> bit_reader) option" where
  "read_bits_loop 0 v r = Some (v, r)"
| "read_bits_loop (Suc n) v r =
     do { (b, r') \<leftarrow> read_bit r; read_bits_loop n (push_bit 1 v OR ucast b) r' }"

definition read_bits :: "nat \<Rightarrow> bit_reader \<Rightarrow> (64 word \<times> bit_reader) option" where
  "read_bits n r = read_bits_loop n 0 r"

primrec read_bytes_bits :: "nat \<Rightarrow> bit_reader \<Rightarrow> (bytes \<times> bit_reader) option" where
  "read_bytes_bits 0 r = Some ([], r)"
| "read_bytes_bits (Suc n) r =
     do { (b, r') \<leftarrow> read_bits 8 r; (bs, r'') \<leftarrow> read_bytes_bits n r'; Some (ucast b # bs, r'') }"

section \<open>Codecs\<close>

definition write_size_head :: "bytes \<Rightarrow> bit_writer \<Rightarrow> bit_writer" where
  "write_size_head bs w = write_bytes bs (write_bits (of_nat (length bs)) 64 w)"

definition read_size_head :: "bit_reader \<Rightarrow> (bytes \<times> bit_reader) option" where
  "read_size_head r = do { (n, r') \<leftarrow> read_bits 64 r; read_bytes_bits (unat n) r' }"

definition encode_produce :: "produce \<Rightarrow> bit_writer \<Rightarrow> bit_writer" where
  "encode_produce p w =
     write_bit (of_bool (pr_persistent p)) (write_bytes (pr_hash p) (write_bytes (pr_channels_hash p) w))"

definition encode_consume :: "consume \<Rightarrow> bit_writer \<Rightarrow> bit_writer" where
  "encode_consume c w =
     write_bit (of_bool (cs_persistent c))
       (write_bytes (cs_hash c)
         (fold write_bytes (cs_channels_hashes c)
           (write_bits (of_nat (length (cs_channels_hashes c))) 32 w)))"

definition encode_datum :: "('a \<Rightarrow> bytes) \<Rightarrow> 'a datum \<Rightarrow> bit_writer \<Rightarrow> bit_writer" where
  "encode_datum enc_a d w =
     encode_produce (dt_source d)
       (write_bit (of_bool (dt_persist d)) (write_size_head (enc_a (dt_a d)) w))"

definition encode_waiting_continuation ::
  "('p \<Rightarrow> bytes) \<Rightarrow> ('k \<Rightarrow> bytes) \<Rightarrow> ('p, 'k) waiting_continuation \<Rightarrow> bit_writer \<Rightarrow> bit_writer" where
  "encode_waiting_continuation enc_p enc_k wc w =
     (let w1 = write_bits (of_nat (length (wc_patterns wc))) 32 w;
          w2 = fold (\<lambda>p. write_size_head (enc_p p)) (wc_patterns wc) w1;
          w3 = write_size_head (enc_k (wc_continuation wc)) w2;
          w4 = write_bit (of_bool (wc_persist wc)) w3;
          w5 = write_bits (of_nat (length (wc_peeks wc))) 32 w4;
          w6 = fold (\<lambda>peek. write_bits (of_nat peek) 8) (wc_peeks wc) w5
      in encode_consume (wc_source wc) w6)"

definition read_produce :: "bit_reader \<Rightarrow> (produce \<times> bit_reader) option" where
  "read_produce r =
     do { (ch, r1) \<leftarrow> read_bytes_bits 32 r;
          (h, r2) \<leftarrow> read_bytes_bits 32 r1;
          (b, r3) \<leftarrow> read_bit r2;
          Some (\<lparr>pr_channels_hash = ch, pr_hash = h, pr_persistent = (b \<noteq> 0)\<rparr>, r3) }"

primrec read_hashes :: "nat \<Rightarrow> bit_reader \<Rightarrow> (hash32 list \<times> bit_reader) option" where
  "read_hashes 0 r = Some ([], r)"
| "read_hashes (Suc n) r =
     do { (h, r') \<leftarrow> read_bytes_bits 32 r; (hs, r'') \<leftarrow> read_hashes n r'; Some (h # hs, r'') }"

definition read_consume :: "bit_reader \<Rightarrow> (consume \<times> bit_reader) option" where
  "read_consume r =
     do { (n, r1) \<leftarrow> read_bits 32 r;
          (chs, r2) \<leftarrow> read_hashes (unat n) r1;
          (h, r3) \<leftarrow> read_bytes_bits 32 r2;
          (b, r4) \<leftarrow> read_bit r3;
          Some (\<lparr>cs_channels_hashes = chs, cs_hash = h, cs_persistent = (b \<noteq> 0)\<rparr>, r4) }"

text \<open>
  \<^verbatim>\<open>read_datum\<close> and \<^verbatim>\<open>read_waiting_continuation\<close> return early with a codec error when a decoder of the
  element type rejects its bytes.
\<close>

definition read_datum :: "(bytes \<Rightarrow> 'a option) \<Rightarrow> bit_reader \<Rightarrow> (rspace_error + 'a datum) option" where
  "read_datum dec_a r =
     do { (bs, r1) \<leftarrow> read_size_head r;
          case dec_a bs of
            None \<Rightarrow> Some (Inl (Codec ''datum''))
          | Some a \<Rightarrow>
              do { (b, r2) \<leftarrow> read_bit r1;
                   (p, r3) \<leftarrow> read_produce r2;
                   Some (Inr \<lparr>dt_a = a, dt_persist = (b \<noteq> 0), dt_source = p\<rparr>) } }"

primrec read_patterns ::
  "(bytes \<Rightarrow> 'p option) \<Rightarrow> nat \<Rightarrow> bit_reader \<Rightarrow> (rspace_error + ('p list \<times> bit_reader)) option" where
  "read_patterns dec_p 0 r = Some (Inr ([], r))"
| "read_patterns dec_p (Suc n) r =
     do { (bs, r') \<leftarrow> read_size_head r;
          case dec_p bs of
            None \<Rightarrow> Some (Inl (Codec ''pattern''))
          | Some p \<Rightarrow>
              do { rest \<leftarrow> read_patterns dec_p n r';
                   Some (case rest of Inl e \<Rightarrow> Inl e | Inr (ps, r'') \<Rightarrow> Inr (p # ps, r'')) } }"

primrec read_peeks :: "nat \<Rightarrow> nat btset \<Rightarrow> bit_reader \<Rightarrow> (nat btset \<times> bit_reader) option" where
  "read_peeks 0 peeks r = Some (peeks, r)"
| "read_peeks (Suc n) peeks r =
     do { (v, r') \<leftarrow> read_bits 8 r; read_peeks n (bs_insert (unat v) peeks) r' }"

definition read_waiting_continuation ::
  "(bytes \<Rightarrow> 'p option) \<Rightarrow> (bytes \<Rightarrow> 'k option) \<Rightarrow> bit_reader \<Rightarrow>
   (rspace_error + ('p, 'k) waiting_continuation) option" where
  "read_waiting_continuation dec_p dec_k r =
     do { (n, r1) \<leftarrow> read_bits 32 r;
          pats \<leftarrow> read_patterns dec_p (unat n) r1;
          case pats of
            Inl e \<Rightarrow> Some (Inl e)
          | Inr (ps, r2) \<Rightarrow>
              do { (kb, r3) \<leftarrow> read_size_head r2;
                   case dec_k kb of
                     None \<Rightarrow> Some (Inl (Codec ''continuation''))
                   | Some k \<Rightarrow>
                       do { (b, r4) \<leftarrow> read_bit r3;
                            (m, r5) \<leftarrow> read_bits 32 r4;
                            (peeks, r6) \<leftarrow> read_peeks (unat m) [] r5;
                            (src, r7) \<leftarrow> read_consume r6;
                            Some (Inr \<lparr>wc_patterns = ps, wc_continuation = k, wc_persist = (b \<noteq> 0),
                              wc_peeks = peeks, wc_source = src\<rparr>) } } }"

subsection \<open>Lists of data, continuations and joins\<close>

definition encode_datum_bytes :: "('a \<Rightarrow> bytes) \<Rightarrow> 'a datum \<Rightarrow> bytes" where
  "encode_datum_bytes enc_a d = bw_finish (encode_datum enc_a d bw_new)"

definition encode_datums :: "('a \<Rightarrow> bytes) \<Rightarrow> 'a datum list \<Rightarrow> bytes" where
  "encode_datums enc_a datums =
     encode_seq_byte_vectors
       (sort_key veccmp_key (map (\<lambda>d. bw_finish (encode_datum enc_a d bw_new)) datums))"

definition encode_continuations ::
  "('p \<Rightarrow> bytes) \<Rightarrow> ('k \<Rightarrow> bytes) \<Rightarrow> ('p, 'k) waiting_continuation list \<Rightarrow> bytes" where
  "encode_continuations enc_p enc_k konts =
     encode_seq_byte_vectors
       (sort_key veccmp_key (map (\<lambda>wc. bw_finish (encode_waiting_continuation enc_p enc_k wc bw_new)) konts))"

definition encode_join :: "('c \<Rightarrow> bytes) \<Rightarrow> 'c list \<Rightarrow> bytes" where
  "encode_join enc_c join = encode_seq_byte_vectors (sort_key veccmp_key (map enc_c join))"

definition encode_joins :: "('c \<Rightarrow> bytes) \<Rightarrow> 'c list list \<Rightarrow> bytes" where
  "encode_joins enc_c joins =
     encode_seq_byte_vectors (sort_key veccmp_key (map (encode_join enc_c) joins))"

text \<open>\<^verbatim>\<open>encode_datums_binary\<close>, \<^verbatim>\<open>encode_continuations_binary\<close> and \<^verbatim>\<open>encode_joins_binary\<close> have one body.\<close>

definition encode_datums_binary :: "bytes list \<Rightarrow> bytes" where
  "encode_datums_binary raws = encode_seq_byte_vectors (sort_key veccmp_key raws)"

definition encode_continuations_binary :: "bytes list \<Rightarrow> bytes" where
  "encode_continuations_binary raws = encode_seq_byte_vectors (sort_key veccmp_key raws)"

definition encode_joins_binary :: "bytes list \<Rightarrow> bytes" where
  "encode_joins_binary raws = encode_seq_byte_vectors (sort_key veccmp_key raws)"

primrec read_size_heads :: "nat \<Rightarrow> bit_reader \<Rightarrow> (bytes list \<times> bit_reader) option" where
  "read_size_heads 0 r = Some ([], r)"
| "read_size_heads (Suc n) r =
     do { (e, r') \<leftarrow> read_size_head r; (es, r'') \<leftarrow> read_size_heads n r'; Some (e # es, r'') }"

definition decode_seq_byte_vectors :: "bytes \<Rightarrow> bytes list option" where
  "decode_seq_byte_vectors bs =
     do { (n, r) \<leftarrow> read_bits 32 (br_new bs); (es, r') \<leftarrow> read_size_heads (unat n) r; Some es }"

text \<open>\<^verbatim>\<open>collect()\<close> of an iterator of results: the first error ends it.\<close>

fun collect_results :: "('b \<Rightarrow> ('e + 'a) option) \<Rightarrow> 'b list \<Rightarrow> ('e + 'a list) option" where
  "collect_results f [] = Some (Inr [])"
| "collect_results f (x # xs) =
     do { y \<leftarrow> f x;
          case y of
            Inl e \<Rightarrow> Some (Inl e)
          | Inr a \<Rightarrow>
              do { rest \<leftarrow> collect_results f xs;
                   Some (case rest of Inl e \<Rightarrow> Inl e | Inr as \<Rightarrow> Inr (a # as)) } }"

definition decode_datum :: "(bytes \<Rightarrow> 'a option) \<Rightarrow> bytes \<Rightarrow> (rspace_error + 'a datum) option" where
  "decode_datum dec_a bs = read_datum dec_a (br_new bs)"

definition decode_datums :: "(bytes \<Rightarrow> 'a option) \<Rightarrow> bytes \<Rightarrow> (rspace_error + 'a datum list) option" where
  "decode_datums dec_a bs =
     do { es \<leftarrow> decode_seq_byte_vectors bs; collect_results (\<lambda>b. read_datum dec_a (br_new b)) es }"

definition decode_continuations ::
  "(bytes \<Rightarrow> 'p option) \<Rightarrow> (bytes \<Rightarrow> 'k option) \<Rightarrow> bytes \<Rightarrow>
   (rspace_error + ('p, 'k) waiting_continuation list) option" where
  "decode_continuations dec_p dec_k bs =
     do { es \<leftarrow> decode_seq_byte_vectors bs;
          collect_results (\<lambda>b. read_waiting_continuation dec_p dec_k (br_new b)) es }"

definition decode_join :: "(bytes \<Rightarrow> 'c option) \<Rightarrow> bytes \<Rightarrow> (rspace_error + 'c list) option" where
  "decode_join dec_c join_bytes =
     do { cs \<leftarrow> decode_seq_byte_vectors join_bytes;
          collect_results
            (\<lambda>c. Some (case dec_c c of None \<Rightarrow> Inl (Codec ''channel'') | Some ch \<Rightarrow> Inr ch)) cs }"

definition decode_joins :: "(bytes \<Rightarrow> 'c option) \<Rightarrow> bytes \<Rightarrow> (rspace_error + 'c list list) option" where
  "decode_joins dec_c bs =
     do { es \<leftarrow> decode_seq_byte_vectors bs; collect_results (decode_join dec_c) es }"

text \<open>The variants that keep the raw bytes beside the decoded value.\<close>

record 'a datum_b = db_decoded :: "'a datum" db_raw :: bytes
record ('p, 'k) waiting_continuation_b = wb_decoded :: "('p, 'k) waiting_continuation" wb_raw :: bytes
record 'c joins_b = jb_decoded :: "'c list" jb_raw :: bytes

definition with_raw ::
  "('v \<Rightarrow> bytes \<Rightarrow> 'w) \<Rightarrow> (bytes \<Rightarrow> (rspace_error + 'v) option) \<Rightarrow> bytes \<Rightarrow> (rspace_error + 'w) option" where
  "with_raw mk f raw = do { v \<leftarrow> f raw; Some (case v of Inl e \<Rightarrow> Inl e | Inr d \<Rightarrow> Inr (mk d raw)) }"

definition decode_datums_binary :: "(bytes \<Rightarrow> 'a option) \<Rightarrow> bytes \<Rightarrow> (rspace_error + 'a datum_b list) option" where
  "decode_datums_binary dec_a bs =
     do { es \<leftarrow> decode_seq_byte_vectors bs;
          collect_results (with_raw (\<lambda>d raw. \<lparr>db_decoded = d, db_raw = raw\<rparr>) (\<lambda>b. read_datum dec_a (br_new b))) es }"

definition decode_continuations_binary ::
  "(bytes \<Rightarrow> 'p option) \<Rightarrow> (bytes \<Rightarrow> 'k option) \<Rightarrow> bytes \<Rightarrow>
   (rspace_error + ('p, 'k) waiting_continuation_b list) option" where
  "decode_continuations_binary dec_p dec_k bs =
     do { es \<leftarrow> decode_seq_byte_vectors bs;
          collect_results
            (with_raw (\<lambda>d raw. \<lparr>wb_decoded = d, wb_raw = raw\<rparr>)
              (\<lambda>b. read_waiting_continuation dec_p dec_k (br_new b))) es }"

definition decode_joins_binary :: "(bytes \<Rightarrow> 'c option) \<Rightarrow> bytes \<Rightarrow> (rspace_error + 'c joins_b list) option" where
  "decode_joins_binary dec_c bs =
     do { es \<leftarrow> decode_seq_byte_vectors bs;
          collect_results (with_raw (\<lambda>d raw. \<lparr>jb_decoded = d, jb_raw = raw\<rparr>) (decode_join dec_c)) es }"

subsection \<open>Persisted leaves\<close>

datatype persisted_data =
    JoinsLeaf bytes | DataLeaf bytes | ContinuationsLeaf bytes | NativeLeaf bytes

fun leaf_tag :: "persisted_data \<Rightarrow> 64 word" where
  "leaf_tag (JoinsLeaf b) = 0"
| "leaf_tag (DataLeaf b) = 1"
| "leaf_tag (ContinuationsLeaf b) = 2"
| "leaf_tag (NativeLeaf b) = 3"

fun leaf_bytes :: "persisted_data \<Rightarrow> bytes" where
  "leaf_bytes (JoinsLeaf b) = b"
| "leaf_bytes (DataLeaf b) = b"
| "leaf_bytes (ContinuationsLeaf b) = b"
| "leaf_bytes (NativeLeaf b) = b"

definition encode_persisted_data :: "persisted_data \<Rightarrow> bytes" where
  "encode_persisted_data v =
     (let bs = leaf_bytes v;
          w1 = write_bits (leaf_tag v) 2 bw_new;
          w2 = write_bits (of_nat (length bs)) 64 w1
      in bw_finish (fold (\<lambda>b. write_bits (ucast b) 8) bs w2))"

definition decode_persisted_data :: "bytes \<Rightarrow> (64 word + persisted_data) option" where
  "decode_persisted_data bs =
     do { (tag, r1) \<leftarrow> read_bits 2 (br_new bs);
          (len, r2) \<leftarrow> read_bits 64 r1;
          (d, r3) \<leftarrow> read_bytes_bits (unat len) r2;
          Some (if tag = 0 then Inr (JoinsLeaf d)
                else if tag = 1 then Inr (DataLeaf d)
                else if tag = 2 then Inr (ContinuationsLeaf d)
                else if tag = 3 then Inr (NativeLeaf d)
                else Inl tag) }"

section \<open>Bits written and bits read\<close>

definition byte_bits :: "byte \<Rightarrow> bool list" where
  "byte_bits b = map (bit b) (rev [0..<8])"

definition bits_of :: "bytes \<Rightarrow> bool list" where
  "bits_of bs = concat (map byte_bits bs)"

text \<open>The \<open>n\<close> low bits of a number, most significant first.\<close>

definition nat_bits :: "nat \<Rightarrow> nat \<Rightarrow> bool list" where
  "nat_bits n v = map (bit v) (rev [0..<n])"

lemma length_byte_bits [simp]: "length (byte_bits b) = 8"
  by (simp add: byte_bits_def)

lemma length_bits_of [simp]: "length (bits_of bs) = 8 * length bs"
  by (induction bs) (simp_all add: bits_of_def)

lemma bits_of_Nil [simp]: "bits_of [] = []"
  by (simp add: bits_of_def)

lemma bits_of_Cons [simp]: "bits_of (b # bs) = byte_bits b @ bits_of bs"
  by (simp add: bits_of_def)

lemma bits_of_append [simp]: "bits_of (as @ bs) = bits_of as @ bits_of bs"
  by (simp add: bits_of_def)

lemma nth_byte_bits: "i < 8 \<Longrightarrow> byte_bits b ! i = bit b (7 - i)"
  by (simp add: byte_bits_def rev_nth)

lemma nth_bits_of: "i < 8 * length bs \<Longrightarrow> bits_of bs ! i = bit (bs ! (i div 8)) (7 - i mod 8)"
proof (induction bs arbitrary: i)
  case (Cons b bs)
  show ?case
  proof (cases "i < 8")
    case True
    then show ?thesis by (simp add: nth_append nth_byte_bits)
  next
    case False
    then have "(i - 8) div 8 = i div 8 - 1" "(i - 8) mod 8 = i mod 8" "i div 8 \<noteq> 0"
      by (auto simp: le_div_geq le_mod_geq)
    then show ?thesis using False Cons by (simp add: nth_append nth_Cons')
  qed
qed simp

definition bw_ok :: "bit_writer \<Rightarrow> bool" where
  "bw_ok w \<longleftrightarrow>
     length (bw_bytes w) = (bw_bit_len w + 7) div 8 \<and>
     (\<forall>i. bw_bit_len w \<le> i \<longrightarrow> i < 8 * length (bw_bytes w) \<longrightarrow> \<not> bits_of (bw_bytes w) ! i)"

definition bw_bits :: "bit_writer \<Rightarrow> bool list" where
  "bw_bits w = take (bw_bit_len w) (bits_of (bw_bytes w))"

definition writes :: "(bit_writer \<Rightarrow> bit_writer) \<Rightarrow> bool list \<Rightarrow> bool" where
  "writes f bs \<longleftrightarrow> (\<forall>w. bw_ok w \<longrightarrow> bw_ok (f w) \<and> bw_bits (f w) = bw_bits w @ bs)"

lemma bw_ok_new [simp]: "bw_ok bw_new" "bw_bits bw_new = []"
  by (simp_all add: bw_ok_def bw_new_def bw_bits_def)

lemma bit_or_shifted:
  "k < 8 \<Longrightarrow> bit (a OR push_bit k (b AND 1) :: byte) n \<longleftrightarrow> bit a n \<or> (n = k \<and> bit b 0)"
  by (auto simp: bit_simps bit_1_iff)

lemma writes_bit: "writes (write_bit b) [bit b 0]"
  unfolding writes_def
proof (intro allI impI)
  fix w assume ok: "bw_ok w"
  let ?n = "bw_bit_len w" and ?i = "bw_bit_len w div 8"
  let ?bs = "if ?i = length (bw_bytes w) then bw_bytes w @ [0] else bw_bytes w"
  let ?w = "write_bit b w"
  have len: "length (bw_bytes w) = (?n + 7) div 8" using ok by (simp add: bw_ok_def)
  have i: "?i < length ?bs" "length ?bs = (?n + 8) div 8" using len by auto
  have old: "bits_of ?bs ! j = (j < ?n \<and> bits_of (bw_bytes w) ! j)" if "j < 8 * length ?bs" for j
  proof (cases "j < 8 * length (bw_bytes w)")
    case True
    have "\<not> j < ?n \<Longrightarrow> \<not> bits_of (bw_bytes w) ! j" using ok True by (simp add: bw_ok_def)
    then show ?thesis using True by (auto simp: nth_append)
  next
    case False
    moreover have "\<not> j < ?n" using False len by presburger
    ultimately show ?thesis using that by (auto simp: nth_append nth_byte_bits split: if_splits)
  qed
  have bytes: "bw_bytes ?w = ?bs[?i := ?bs ! ?i OR push_bit (7 - ?n mod 8) (b AND 1)]" "bw_bit_len ?w = ?n + 1"
    by (simp_all add: write_bit_def Let_def)
  have new: "bits_of (bw_bytes ?w) ! j = (bits_of ?bs ! j \<or> (j = ?n \<and> bit b 0))" if j: "j < 8 * length ?bs" for j
  proof -
    have "bits_of (bw_bytes ?w) ! j = bit (bw_bytes ?w ! (j div 8)) (7 - j mod 8)"
      using j by (subst nth_bits_of) (simp_all add: bytes(1))
    also have "\<dots> = (bit (?bs ! (j div 8)) (7 - j mod 8) \<or> (j = ?n \<and> bit b 0))"
    proof (cases "j div 8 = ?i")
      case True
      have "j mod 8 < 8" "?n mod 8 < 8" by simp_all
      then have "7 - j mod 8 = 7 - ?n mod 8 \<longleftrightarrow> j mod 8 = ?n mod 8" by arith
      then have "j = ?n \<longleftrightarrow> 7 - j mod 8 = 7 - ?n mod 8" using True by (metis mult_div_mod_eq)
      moreover have "bw_bytes ?w ! (j div 8) = ?bs ! ?i OR push_bit (7 - ?n mod 8) (b AND 1)"
        unfolding bytes(1) True using i(1) by (rule nth_list_update_eq)
      moreover have "7 - ?n mod 8 < 8" by simp
      ultimately show ?thesis by (simp only: bit_or_shifted True)
    qed (use i(1) in \<open>auto simp: bytes(1)\<close>)
    finally show ?thesis using j by (subst nth_bits_of) simp_all
  qed
  have l: "length (bw_bytes ?w) = (?n + 8) div 8" using i(2) by (simp add: bytes(1))
  have "bw_ok ?w"
    unfolding bw_ok_def bytes(2)
  proof (intro conjI allI impI)
    show "length (bw_bytes ?w) = (?n + 1 + 7) div 8" using l by simp
    fix j assume j: "?n + 1 \<le> j" "j < 8 * length (bw_bytes ?w)"
    then have "j < 8 * length ?bs" using i(2) l by simp
    then show "\<not> bits_of (bw_bytes ?w) ! j" using new old j(1) by simp
  qed
  moreover have "bw_bits ?w = bw_bits w @ [bit b 0]"
  proof (rule nth_equalityI)
    have "m \<le> 8 * ((m + 7) div 8)" "m + 1 \<le> 8 * ((m + 8) div 8)" for m :: nat by presburger+
    then have n: "?n \<le> 8 * length (bw_bytes w)" "?n + 1 \<le> 8 * length (bw_bytes ?w)" by (simp_all only: len l)
    show "length (bw_bits ?w) = length (bw_bits w @ [bit b 0])"
      using n by (simp add: bw_bits_def bytes(2) min_def)
    fix j assume "j < length (bw_bits ?w)"
    then have j: "j \<le> ?n" "j < 8 * length ?bs" using i(2) l by (auto simp: bw_bits_def bytes(2))
    then show "bw_bits ?w ! j = (bw_bits w @ [bit b 0]) ! j"
      using new [OF j(2)] old [OF j(2)] n(1) by (auto simp: bw_bits_def bytes(2) nth_append min_def)
  qed
  ultimately show "bw_ok ?w \<and> bw_bits ?w = bw_bits w @ [bit b 0]" by blast
qed

subsection \<open>Composing writers\<close>

lemma writes_id: "writes (\<lambda>w. w) []"
  by (simp add: writes_def)

lemma writes_comp: "writes f as \<Longrightarrow> writes g bs \<Longrightarrow> writes (\<lambda>w. g (f w)) (as @ bs)"
  by (simp add: writes_def)

lemma writes_fold: "(\<And>x. x \<in> set xs \<Longrightarrow> writes (f x) (g x)) \<Longrightarrow> writes (fold f xs) (concat (map g xs))"
proof (induction xs)
  case Nil
  show ?case using writes_id by (simp add: id_def)
next
  case (Cons x xs)
  have "writes (\<lambda>w. fold f xs (f x w)) (g x @ concat (map g xs))"
    using Cons.IH Cons.prems by (intro writes_comp) simp_all
  then show ?case by (simp add: comp_def)
qed

lemma writes_bool: "writes (write_bit (of_bool b)) [b]"
  using writes_bit [of 0] writes_bit [of 1] by (cases b) (simp_all add: bit_0)

lemma nat_bits_Suc: "nat_bits (Suc n) v = bit v n # nat_bits n v"
  by (simp add: nat_bits_def)

lemma nat_bits_add: "nat_bits (m + n) v = nat_bits m (drop_bit n v) @ nat_bits n v"
  by (induction m) (simp_all add: nat_bits_Suc bit_drop_bit_eq add.commute, simp add: nat_bits_def)

lemma length_nat_bits [simp]: "length (nat_bits n v) = n"
  by (simp add: nat_bits_def)

lemma nat_bits_take_bit: "n \<le> m \<Longrightarrow> nat_bits n (take_bit m v) = nat_bits n v"
  by (auto simp: nat_bits_def bit_take_bit_iff)

lemma writes_bits: "writes (write_bits v n) (nat_bits n (unat v))"
proof -
  have "writes (write_bits v n) (concat (map (\<lambda>i. [bit (ucast (drop_bit i v AND 1) :: byte) 0]) (rev [0..<n])))"
    unfolding write_bits_def by (intro writes_fold writes_bit)
  moreover have "bit (ucast (drop_bit i v AND 1) :: byte) 0 = bit (unat v) i" for i
    by (simp add: bit_simps)
  ultimately show ?thesis by (simp add: nat_bits_def)
qed

lemma writes_nat: "writes (write_bits (of_nat v) n) (nat_bits n v)" if "n \<le> 64"
  using writes_bits [of "of_nat v" n] that by (simp add: unsigned_of_nat nat_bits_take_bit)

lemma byte_bits_nat: "byte_bits b = nat_bits 8 (unat b)"
  by (simp add: byte_bits_def nat_bits_def bit_unsigned_iff)

lemma writes_byte: "writes (write_bits (ucast b) 8) (byte_bits b)"
  using writes_bits [of "ucast b" 8] by (simp add: byte_bits_nat unsigned_ucast_eq nat_bits_take_bit)

lemma writes_bytes: "writes (write_bytes bs) (bits_of bs)"
  unfolding write_bytes_def bits_of_def by (intro writes_fold writes_byte)

lemma writes_size_head: "writes (write_size_head bs) (nat_bits 64 (length bs) @ bits_of bs)"
  unfolding write_size_head_def by (intro writes_comp writes_nat writes_bytes) simp

lemma bits_of_be_bytes: "bits_of (be_bytes k n) = nat_bits (8 * k) n"
proof (induction k)
  case (Suc k)
  have "byte_bits (of_nat (n div 256 ^ k)) = nat_bits 8 (drop_bit (8 * k) n)"
    by (simp add: byte_bits_nat unsigned_of_nat nat_bits_take_bit drop_bit_eq_div power_mult)
  then show ?case
    using Suc nat_bits_add [of 8 "8 * k" n] by (simp add: be_bytes_def)
qed (simp add: be_bytes_def nat_bits_def)

lemma finished_bits:
  assumes "writes f bs"
  obtains pad where "bits_of (bw_finish (f bw_new)) = bs @ pad"
proof -
  have "bw_bits (f bw_new) = bs" using assms bw_ok_new by (simp add: writes_def)
  then have "bits_of (bw_bytes (f bw_new)) = bs @ drop (bw_bit_len (f bw_new)) (bits_of (bw_bytes (f bw_new)))"
    by (metis append_take_drop_id bw_bits_def)
  then show thesis using that by (simp add: bw_finish_def)
qed

lemma finished_length:
  assumes "writes f bs"
  shows "length (bw_finish (f bw_new)) = (length bs + 7) div 8"
proof -
  have ok: "bw_ok (f bw_new)" "bw_bits (f bw_new) = bs" using assms bw_ok_new by (simp_all add: writes_def)
  have "m \<le> 8 * ((m + 7) div 8)" for m :: nat by presburger
  then have "bw_bit_len (f bw_new) \<le> 8 * length (bw_bytes (f bw_new))" using ok(1) by (simp add: bw_ok_def)
  then have "length bs = bw_bit_len (f bw_new)" using ok(2) by (auto simp: bw_bits_def)
  then show ?thesis using ok(1) by (simp add: bw_ok_def bw_finish_def)
qed

subsection \<open>Composing readers\<close>

definition remaining :: "bit_reader \<Rightarrow> bool list" where
  "remaining r = drop (br_bit_pos r) (bits_of (br_bytes r))"

definition reads :: "(bit_reader \<Rightarrow> ('x \<times> bit_reader) option) \<Rightarrow> bool list \<Rightarrow> 'x \<Rightarrow> bool" where
  "reads p bs x \<longleftrightarrow>
     (\<forall>r rest. remaining r = bs @ rest \<longrightarrow> (\<exists>r'. p r = Some (x, r') \<and> remaining r' = rest))"

lemma remaining_new [simp]: "remaining (br_new bs) = bits_of bs"
  by (simp add: remaining_def br_new_def)

lemma readsE:
  assumes "reads p bs x" "remaining r = bs @ rest"
  obtains r' where "p r = Some (x, r')" "remaining r' = rest"
  using assms by (auto simp: reads_def)

lemma reads_return: "reads (\<lambda>r. Some (x, r)) [] x"
  by (simp add: reads_def)

lemma reads_bind:
  assumes "reads p as x" "reads (q x) bs y"
  shows "reads (\<lambda>r. Option.bind (p r) (\<lambda>(x, r'). q x r')) (as @ bs) y"
  unfolding reads_def
proof (intro allI impI)
  fix r rest assume "remaining r = (as @ bs) @ rest"
  then obtain r' where "p r = Some (x, r')" "remaining r' = bs @ rest"
    using assms(1) by (auto elim: readsE)
  with assms(2) show "\<exists>r''. Option.bind (p r) (\<lambda>(x, r'). q x r') = Some (y, r'') \<and> remaining r'' = rest"
    by (auto elim: readsE)
qed

lemma reads_map: "reads p bs x \<Longrightarrow> reads (\<lambda>r. Option.bind (p r) (\<lambda>(x, r'). Some (f x, r'))) bs (f x)"
  using reads_bind [of p bs x "\<lambda>x r. Some (f x, r)" "[]" "f x"] reads_return [of "f x"] by simp

lemma reads_bit: "reads read_bit [b] (of_bool b)"
  unfolding reads_def
proof (intro allI impI)
  fix r rest assume rem: "remaining r = [b] @ rest"
  let ?i = "br_bit_pos r"
  have i: "?i < 8 * length (br_bytes r)"
  proof (rule ccontr)
    assume "\<not> ?thesis"
    then show False using rem by (simp add: remaining_def)
  qed
  then have "bits_of (br_bytes r) ! ?i = b" "drop (Suc ?i) (bits_of (br_bytes r)) = rest"
    using rem by (simp_all add: remaining_def Cons_nth_drop_Suc [symmetric])
  moreover have "drop_bit k a AND 1 = of_bool (bit a k)" for a :: byte and k
    by (simp add: and_one_eq bit_iff_odd_drop_bit mod2_eq_if)
  ultimately show "\<exists>r'. read_bit r = Some (of_bool b, r') \<and> remaining r' = rest"
    using i by (auto simp: read_bit_def remaining_def nth_bits_of Let_def)
qed

lemma reads_bits_loop:
  "reads (read_bits_loop n v) (nat_bits n k) (push_bit n v OR of_nat (take_bit n k))"
proof (induction n arbitrary: v)
  case 0
  show ?case using reads_return [of v] by (simp add: nat_bits_def)
next
  case (Suc n)
  let ?v = "push_bit 1 v OR of_bool (bit k n)"
  have "push_bit n ?v OR of_nat (take_bit n k) = push_bit (Suc n) v OR (of_nat (take_bit (Suc n) k) :: 64 word)"
    by (rule bit_word_eqI) (auto simp: bit_simps less_Suc_eq)
  moreover have "ucast (of_bool b :: byte) = (of_bool b :: 64 word)" for b by (cases b) simp_all
  ultimately show ?case
    using reads_bind [OF reads_bit [of "bit k n"], of "\<lambda>b. read_bits_loop n (push_bit 1 v OR ucast b)", OF Suc.IH]
    by (simp add: nat_bits_Suc)
qed

lemma reads_bits: "reads (read_bits n) (nat_bits n k) (of_nat (take_bit n k))"
  using reads_bits_loop [of n 0 k] by (simp add: read_bits_def [abs_def])

lemma reads_nat: "k < 2 ^ n \<Longrightarrow> reads (read_bits n) (nat_bits n k) (of_nat k)"
  using reads_bits [of n k] by (simp add: take_bit_nat_eq_self)

lemma reads_byte: "reads (read_bits 8) (byte_bits b) (ucast b)"
  using reads_nat [of "unat b" 8] unsigned_less [of b] by (simp add: byte_bits_nat)

lemma ucast_byte [simp]: "ucast (ucast (b :: byte) :: 64 word) = b"
  by (rule bit_word_eqI) (simp add: bit_simps)

lemma reads_bytes: "reads (read_bytes_bits (length bs)) (bits_of bs) bs"
proof (induction bs)
  case Nil
  show ?case using reads_return by simp
next
  case (Cons b bs)
  show ?case
    using reads_bind [OF reads_byte [of b], of "\<lambda>b r'. do { (bs, r'') \<leftarrow> read_bytes_bits (length bs) r'; Some (ucast b # bs, r'') }"]
      reads_map [OF Cons.IH, of "(#) b"] by simp
qed

lemma reads_size_head:
  assumes "length bs < 2 ^ 64"
  shows "reads read_size_head (nat_bits 64 (length bs) @ bits_of bs) bs"
proof -
  have "unat (of_nat (length bs) :: 64 word) = length bs"
    using assms by (simp add: unsigned_of_nat take_bit_nat_eq_self)
  then show ?thesis
    using reads_bind [OF reads_nat [OF assms], of "\<lambda>n. read_bytes_bits (unat n)"] reads_bytes [of bs]
    by (simp add: read_size_head_def [abs_def])
qed

text \<open>What a writer has finished a reader of the same bits takes back, whatever the padding.\<close>

lemma read_finished:
  assumes "writes f bs" "reads p bs x"
  obtains r where "p (br_new (bw_finish (f bw_new))) = Some (x, r)"
  using assms by (metis finished_bits readsE remaining_new)

section \<open>Round trips\<close>

subsection \<open>Sequences\<close>

lemma reads_size_heads:
  assumes "\<forall>e \<in> set es. length e < 2 ^ 64"
  shows "reads (read_size_heads (length es)) (bits_of (concat (map (\<lambda>e. be_bytes 8 (length e) @ e) es))) es"
  using assms
proof (induction es)
  case Nil
  show ?case using reads_return by simp
next
  case (Cons e es)
  then show ?case
    using reads_bind [OF reads_size_head [of e], of "\<lambda>e r'. do { (es, r'') \<leftarrow> read_size_heads (length es) r'; Some (e # es, r'') }"]
      reads_map [OF Cons.IH, of "(#) e"] by (simp add: bits_of_be_bytes)
qed

lemma decode_encode_seq:
  assumes "\<forall>e \<in> set es. length e < 2 ^ 64" "length es < 2 ^ 32"
  shows "decode_seq_byte_vectors (encode_seq_byte_vectors es) = Some es"
proof -
  have "unat (of_nat (length es) :: 64 word) = length es"
    using assms(2) by (simp add: unsigned_of_nat take_bit_nat_eq_self)
  then have "reads (\<lambda>r. do { (n, r) \<leftarrow> read_bits 32 r; read_size_heads (unat n) r }) (bits_of (encode_seq_byte_vectors es)) es"
    using reads_bind [OF reads_nat [OF assms(2)], of "\<lambda>n. read_size_heads (unat n)"] reads_size_heads [OF assms(1)]
    by (simp add: encode_seq_byte_vectors_def bits_of_be_bytes)
  then show ?thesis
    by (rule readsE [where r = "br_new (encode_seq_byte_vectors es)" and rest = "[]"])
      (auto simp: decode_seq_byte_vectors_def split: Option.bind_splits)
qed

lemma collect_results_map:
  "(\<And>x. x \<in> set xs \<Longrightarrow> f (g x) = Some (Inr x)) \<Longrightarrow> collect_results f (map g xs) = Some (Inr xs)"
  by (induction xs) simp_all

lemma insort_key_map: "insort_key k (f x) (map f xs) = map f (insort_key (\<lambda>x. k (f x)) x xs)"
  by (induction xs) simp_all

lemma sort_key_map: "sort_key k (map f xs) = map f (sort_key (\<lambda>x. k (f x)) xs)"
  by (induction xs) (simp_all add: insort_key_map)

lemma inj_veccmp_key: "inj veccmp_key"
  by (simp add: veccmp_key_def inj_def)

text \<open>The length-first order is total, so the sorted encoding of a multiset is unique.\<close>

lemma sort_encodings_mset: "mset xs = mset ys \<Longrightarrow> sort_key veccmp_key xs = sort_key veccmp_key ys"
  by (rule properties_for_sort_key)
    (auto simp: inj_eq [OF inj_veccmp_key] replicate_count_mset_eq_filter_eq [symmetric])

subsection \<open>Produces and consumes\<close>

definition produce_ok :: "produce \<Rightarrow> bool" where
  "produce_ok p \<longleftrightarrow> length (pr_channels_hash p) = 32 \<and> length (pr_hash p) = 32"

definition consume_ok :: "consume \<Rightarrow> bool" where
  "consume_ok c \<longleftrightarrow>
     length (cs_channels_hashes c) < 2 ^ 32 \<and> (\<forall>h \<in> set (cs_channels_hashes c). length h = 32) \<and>
     length (cs_hash c) = 32"

definition produce_bits :: "produce \<Rightarrow> bool list" where
  "produce_bits p = bits_of (pr_channels_hash p) @ bits_of (pr_hash p) @ [pr_persistent p]"

definition consume_bits :: "consume \<Rightarrow> bool list" where
  "consume_bits c =
     nat_bits 32 (length (cs_channels_hashes c)) @ concat (map bits_of (cs_channels_hashes c)) @
     bits_of (cs_hash c) @ [cs_persistent c]"

lemma writes_produce: "writes (encode_produce p) (produce_bits p)"
  unfolding encode_produce_def [abs_def] produce_bits_def append_assoc [symmetric]
  by (intro writes_comp writes_bytes writes_bool)

lemma writes_consume: "writes (encode_consume c) (consume_bits c)"
  unfolding encode_consume_def [abs_def] consume_bits_def append_assoc [symmetric]
  by (intro writes_comp writes_fold writes_bytes writes_nat writes_bool) simp_all

lemma reads_produce:
  assumes "produce_ok p"
  shows "reads read_produce (produce_bits p) p"
  unfolding reads_def
proof (intro allI impI)
  fix r rest assume "remaining r = produce_bits p @ rest"
  then have r: "remaining r = bits_of (pr_channels_hash p) @ bits_of (pr_hash p) @ [pr_persistent p] @ rest"
    by (simp add: produce_bits_def)
  obtain r1 where 1: "read_bytes_bits 32 r = Some (pr_channels_hash p, r1)"
    "remaining r1 = bits_of (pr_hash p) @ [pr_persistent p] @ rest"
    using readsE [OF reads_bytes r] assms by (metis produce_ok_def)
  obtain r2 where 2: "read_bytes_bits 32 r1 = Some (pr_hash p, r2)" "remaining r2 = [pr_persistent p] @ rest"
    using readsE [OF reads_bytes 1(2)] assms by (metis produce_ok_def)
  obtain r3 where 3: "read_bit r2 = Some (of_bool (pr_persistent p), r3)" "remaining r3 = rest"
    using readsE [OF reads_bit 2(2)] by metis
  show "\<exists>r'. read_produce r = Some (p, r') \<and> remaining r' = rest"
    using 1(1) 2(1) 3 by (simp add: read_produce_def)
qed

lemma reads_hashes:
  "\<forall>h \<in> set hs. length h = 32 \<Longrightarrow> reads (read_hashes (length hs)) (concat (map bits_of hs)) hs"
proof (induction hs)
  case Nil
  show ?case using reads_return by simp
next
  case (Cons h hs)
  then have "length h = 32" by simp
  then have h: "reads (read_bytes_bits 32) (bits_of h) h" using reads_bytes [of h] by metis
  show ?case
    using reads_bind [OF h, of "\<lambda>h r'. do { (hs, r'') \<leftarrow> read_hashes (length hs) r'; Some (h # hs, r'') }"]
      reads_map [OF Cons.IH, of "(#) h"] Cons.prems by simp
qed

lemma reads_consume:
  assumes ok: "consume_ok c"
  shows "reads read_consume (consume_bits c) c"
  unfolding reads_def
proof (intro allI impI)
  fix r rest assume "remaining r = consume_bits c @ rest"
  then have r: "remaining r = nat_bits 32 (length (cs_channels_hashes c)) @ concat (map bits_of (cs_channels_hashes c)) @
    bits_of (cs_hash c) @ [cs_persistent c] @ rest"
    by (simp add: consume_bits_def)
  have len: "length (cs_channels_hashes c) < 2 ^ 32" "length (cs_hash c) = 32" using ok by (simp_all add: consume_ok_def)
  obtain r1 where 1: "read_bits 32 r = Some (of_nat (length (cs_channels_hashes c)), r1)"
    "remaining r1 = concat (map bits_of (cs_channels_hashes c)) @ bits_of (cs_hash c) @ [cs_persistent c] @ rest"
    using readsE [OF reads_nat [OF len(1)] r] by metis
  obtain r2 where 2: "read_hashes (length (cs_channels_hashes c)) r1 = Some (cs_channels_hashes c, r2)"
    "remaining r2 = bits_of (cs_hash c) @ [cs_persistent c] @ rest"
    using readsE [OF reads_hashes 1(2)] ok by (metis consume_ok_def)
  obtain r3 where 3: "read_bytes_bits 32 r2 = Some (cs_hash c, r3)" "remaining r3 = [cs_persistent c] @ rest"
    using readsE [OF reads_bytes 2(2)] len(2) by metis
  obtain r4 where 4: "read_bit r3 = Some (of_bool (cs_persistent c), r4)" "remaining r4 = rest"
    using readsE [OF reads_bit 3(2)] by metis
  have "unat (of_nat (length (cs_channels_hashes c)) :: 64 word) = length (cs_channels_hashes c)"
    using len(1) by (simp add: unsigned_of_nat take_bit_nat_eq_self)
  then show "\<exists>r'. read_consume r = Some (c, r') \<and> remaining r' = rest"
    using 1(1) 2(1) 3(1) 4 by (simp add: read_consume_def)
qed

subsection \<open>Data\<close>

text \<open>An element whose bytes decode to it and fit a 64-bit length.\<close>

definition codec_ok :: "('x \<Rightarrow> bytes) \<Rightarrow> (bytes \<Rightarrow> 'x option) \<Rightarrow> 'x \<Rightarrow> bool" where
  "codec_ok enc dec x \<longleftrightarrow> dec (enc x) = Some x \<and> length (enc x) < 2 ^ 64"

lemma writes_datum:
  "writes (encode_datum enc d)
     ((nat_bits 64 (length (enc (dt_a d))) @ bits_of (enc (dt_a d))) @ [dt_persist d] @ produce_bits (dt_source d))"
  unfolding encode_datum_def [abs_def] append_assoc [of "_ @ _", symmetric]
  by (intro writes_comp writes_size_head writes_bool writes_produce)

lemma read_encoded_datum:
  assumes "codec_ok enc dec (dt_a d)" "produce_ok (dt_source d)"
  shows "read_datum dec (br_new (bw_finish (encode_datum enc d bw_new))) = Some (Inr d)"
proof -
  obtain pad where "bits_of (bw_finish (encode_datum enc d bw_new)) =
    ((nat_bits 64 (length (enc (dt_a d))) @ bits_of (enc (dt_a d))) @ [dt_persist d] @ produce_bits (dt_source d)) @ pad"
    using finished_bits [OF writes_datum] by metis
  then have r: "remaining (br_new (bw_finish (encode_datum enc d bw_new))) =
    (nat_bits 64 (length (enc (dt_a d))) @ bits_of (enc (dt_a d))) @ [dt_persist d] @ produce_bits (dt_source d) @ pad"
    by simp
  have dec: "dec (enc (dt_a d)) = Some (dt_a d)" "length (enc (dt_a d)) < 2 ^ 64"
    using assms(1) by (simp_all add: codec_ok_def)
  obtain r1 where 1: "read_size_head (br_new (bw_finish (encode_datum enc d bw_new))) = Some (enc (dt_a d), r1)"
    "remaining r1 = [dt_persist d] @ produce_bits (dt_source d) @ pad"
    using readsE [OF reads_size_head [OF dec(2)] r] by metis
  obtain r2 where 2: "read_bit r1 = Some (of_bool (dt_persist d), r2)" "remaining r2 = produce_bits (dt_source d) @ pad"
    using readsE [OF reads_bit 1(2)] by metis
  obtain r3 where 3: "read_produce r2 = Some (dt_source d, r3)"
    using readsE [OF reads_produce [OF assms(2)] 2(2)] by metis
  show ?thesis by (simp add: read_datum_def 1(1) 2(1) 3 dec(1))
qed

definition datum_ok :: "('a \<Rightarrow> bytes) \<Rightarrow> (bytes \<Rightarrow> 'a option) \<Rightarrow> 'a datum \<Rightarrow> bool" where
  "datum_ok enc dec d \<longleftrightarrow>
     codec_ok enc dec (dt_a d) \<and> produce_ok (dt_source d) \<and> length (encode_datum_bytes enc d) < 2 ^ 64"

lemma decode_encode_datum: "datum_ok enc dec d \<Longrightarrow> decode_datum dec (encode_datum_bytes enc d) = Some (Inr d)"
  by (simp add: datum_ok_def decode_datum_def encode_datum_bytes_def read_encoded_datum)

lemma encode_datums_sorted:
  "encode_datums enc ds =
     encode_seq_byte_vectors (map (encode_datum_bytes enc) (sort_key (\<lambda>d. veccmp_key (encode_datum_bytes enc d)) ds))"
  by (simp add: encode_datums_def sort_key_map encode_datum_bytes_def [abs_def])

lemma decode_encode_datums_sorted:
  assumes "\<forall>d \<in> set ds. datum_ok enc dec d" "length ds < 2 ^ 32"
  shows "decode_datums dec (encode_datums enc ds) =
    Some (Inr (sort_key (\<lambda>d. veccmp_key (encode_datum_bytes enc d)) ds))"
proof -
  let ?ds = "sort_key (\<lambda>d. veccmp_key (encode_datum_bytes enc d)) ds"
  have "decode_seq_byte_vectors (encode_datums enc ds) = Some (map (encode_datum_bytes enc) ?ds)"
    unfolding encode_datums_sorted using assms by (intro decode_encode_seq) (auto simp: datum_ok_def)
  moreover have "collect_results (\<lambda>b. read_datum dec (br_new b)) (map (encode_datum_bytes enc) ?ds) = Some (Inr ?ds)"
    using assms(1) by (intro collect_results_map) (simp add: decode_encode_datum [unfolded decode_datum_def])
  ultimately show ?thesis by (simp add: decode_datums_def)
qed

subsection \<open>Continuations\<close>

definition continuation_ok ::
  "('p \<Rightarrow> bytes) \<Rightarrow> (bytes \<Rightarrow> 'p option) \<Rightarrow> ('k \<Rightarrow> bytes) \<Rightarrow> (bytes \<Rightarrow> 'k option) \<Rightarrow>
   ('p, 'k) waiting_continuation \<Rightarrow> bool" where
  "continuation_ok enc_p dec_p enc_k dec_k wc \<longleftrightarrow>
     length (wc_patterns wc) < 2 ^ 32 \<and> (\<forall>p \<in> set (wc_patterns wc). codec_ok enc_p dec_p p) \<and>
     codec_ok enc_k dec_k (wc_continuation wc) \<and> consume_ok (wc_source wc) \<and>
     length (wc_peeks wc) < 2 ^ 32 \<and> btset_ok (wc_peeks wc) \<and> (\<forall>i \<in> set (wc_peeks wc). i < 256) \<and>
     length (bw_finish (encode_waiting_continuation enc_p enc_k wc bw_new)) < 2 ^ 64"

definition sized_bits :: "bytes \<Rightarrow> bool list" where
  "sized_bits bs = nat_bits 64 (length bs) @ bits_of bs"

definition continuation_bits ::
  "('p \<Rightarrow> bytes) \<Rightarrow> ('k \<Rightarrow> bytes) \<Rightarrow> ('p, 'k) waiting_continuation \<Rightarrow> bool list" where
  "continuation_bits enc_p enc_k wc =
     nat_bits 32 (length (wc_patterns wc)) @ concat (map (\<lambda>p. sized_bits (enc_p p)) (wc_patterns wc)) @
     sized_bits (enc_k (wc_continuation wc)) @ [wc_persist wc] @ nat_bits 32 (length (wc_peeks wc)) @
     concat (map (nat_bits 8) (wc_peeks wc)) @ consume_bits (wc_source wc)"

lemma writes_continuation: "writes (encode_waiting_continuation enc_p enc_k wc) (continuation_bits enc_p enc_k wc)"
  unfolding encode_waiting_continuation_def [abs_def] continuation_bits_def Let_def sized_bits_def
    append_assoc [of _ "_ @ _" "[_] @ _", symmetric] append_assoc [of _ _ "_ @ _", symmetric] append_assoc [of _ _ "consume_bits _", symmetric]
  by (intro writes_comp writes_fold writes_bytes writes_size_head writes_nat writes_bool writes_consume) simp_all

lemma reads_sized: "length bs < 2 ^ 64 \<Longrightarrow> reads read_size_head (sized_bits bs) bs"
  unfolding sized_bits_def by (rule reads_size_head)

lemma read_patterns_ok:
  assumes "\<forall>p \<in> set ps. codec_ok enc dec p" "remaining r = concat (map (\<lambda>p. sized_bits (enc p)) ps) @ rest"
  obtains r' where "read_patterns dec (length ps) r = Some (Inr (ps, r'))" "remaining r' = rest"
  using assms
proof (induction ps arbitrary: r thesis)
  case (Cons p ps)
  have dec: "dec (enc p) = Some p" "length (enc p) < 2 ^ 64" using Cons.prems(2) by (simp_all add: codec_ok_def)
  have "remaining r = sized_bits (enc p) @ concat (map (\<lambda>p. sized_bits (enc p)) ps) @ rest"
    using Cons.prems(3) by simp
  then obtain r1 where 1: "read_size_head r = Some (enc p, r1)"
    "remaining r1 = concat (map (\<lambda>p. sized_bits (enc p)) ps) @ rest"
    using reads_sized [OF dec(2)] by (auto elim: readsE)
  obtain r2 where "read_patterns dec (length ps) r1 = Some (Inr (ps, r2))" "remaining r2 = rest"
    using Cons.IH [OF _ _ 1(2)] Cons.prems(2) by auto
  then show ?case using Cons.prems(1) by (simp add: 1(1) dec(1))
qed simp

lemma bs_insert_snoc: "\<forall>y \<in> set ys. y < x \<Longrightarrow> bs_insert x ys = ys @ [x]"
  by (cases "x \<in> set ys") (auto simp: bs_insert_def sorted_insort_is_snoc insort_is_Cons, induction ys, auto)

lemma reads_peeks:
  assumes "sorted_wrt (<) (acc @ ps)" "\<forall>i \<in> set ps. i < 256"
  shows "reads (read_peeks (length ps) acc) (concat (map (nat_bits 8) ps)) (acc @ ps)"
  using assms
proof (induction ps arbitrary: acc)
  case Nil
  show ?case using reads_return by simp
next
  case (Cons p ps)
  have "reads (read_bits 8) (nat_bits 8 p) (of_nat p)" using Cons.prems(2) by (intro reads_nat) simp
  moreover have "unat (of_nat p :: 64 word) = p"
    using Cons.prems(2) by (simp add: unsigned_of_nat take_bit_nat_eq_self)
  moreover have "bs_insert p acc = acc @ [p]"
    using Cons.prems(1) by (intro bs_insert_snoc) (simp add: sorted_wrt_append)
  ultimately show ?case
    using reads_bind [of "read_bits 8" "nat_bits 8 p" "of_nat p" "\<lambda>v. read_peeks (length ps) (bs_insert (unat v) acc)"]
      Cons.IH [of "acc @ [p]"] Cons.prems by simp
qed

lemma read_encoded_continuation:
  assumes ok: "continuation_ok enc_p dec_p enc_k dec_k wc"
  shows "read_waiting_continuation dec_p dec_k (br_new (bw_finish (encode_waiting_continuation enc_p enc_k wc bw_new))) =
    Some (Inr wc)"
    (is "read_waiting_continuation _ _ ?r = _")
proof -
  let ?n = "length (wc_patterns wc)" and ?m = "length (wc_peeks wc)"
  obtain pad where "bits_of (bw_finish (encode_waiting_continuation enc_p enc_k wc bw_new)) = continuation_bits enc_p enc_k wc @ pad"
    using finished_bits [OF writes_continuation] by metis
  then have r: "remaining ?r = nat_bits 32 ?n @ concat (map (\<lambda>p. sized_bits (enc_p p)) (wc_patterns wc)) @
     sized_bits (enc_k (wc_continuation wc)) @ [wc_persist wc] @ nat_bits 32 ?m @
     concat (map (nat_bits 8) (wc_peeks wc)) @ consume_bits (wc_source wc) @ pad"
    by (simp add: continuation_bits_def)
  have n: "?n < 2 ^ 32" "?m < 2 ^ 32" and un: "unat (of_nat ?n :: 64 word) = ?n" "unat (of_nat ?m :: 64 word) = ?m"
    using ok by (simp_all add: continuation_ok_def unsigned_of_nat take_bit_nat_eq_self)
  have k: "dec_k (enc_k (wc_continuation wc)) = Some (wc_continuation wc)" "length (enc_k (wc_continuation wc)) < 2 ^ 64"
    using ok by (simp_all add: continuation_ok_def codec_ok_def)
  obtain r1 where 1: "read_bits 32 ?r = Some (of_nat ?n, r1)"
    "remaining r1 = concat (map (\<lambda>p. sized_bits (enc_p p)) (wc_patterns wc)) @
     sized_bits (enc_k (wc_continuation wc)) @ [wc_persist wc] @ nat_bits 32 ?m @
     concat (map (nat_bits 8) (wc_peeks wc)) @ consume_bits (wc_source wc) @ pad"
    using readsE [OF reads_nat [OF n(1)] r] by metis
  obtain r2 where 2: "read_patterns dec_p ?n r1 = Some (Inr (wc_patterns wc, r2))"
    "remaining r2 = sized_bits (enc_k (wc_continuation wc)) @ [wc_persist wc] @ nat_bits 32 ?m @
     concat (map (nat_bits 8) (wc_peeks wc)) @ consume_bits (wc_source wc) @ pad"
    using read_patterns_ok [OF _ 1(2)] ok by (metis continuation_ok_def)
  obtain r3 where 3: "read_size_head r2 = Some (enc_k (wc_continuation wc), r3)"
    "remaining r3 = [wc_persist wc] @ nat_bits 32 ?m @ concat (map (nat_bits 8) (wc_peeks wc)) @ consume_bits (wc_source wc) @ pad"
    using readsE [OF reads_sized [OF k(2)] 2(2)] by metis
  obtain r4 where 4: "read_bit r3 = Some (of_bool (wc_persist wc), r4)"
    "remaining r4 = nat_bits 32 ?m @ concat (map (nat_bits 8) (wc_peeks wc)) @ consume_bits (wc_source wc) @ pad"
    using readsE [OF reads_bit 3(2)] by metis
  obtain r5 where 5: "read_bits 32 r4 = Some (of_nat ?m, r5)"
    "remaining r5 = concat (map (nat_bits 8) (wc_peeks wc)) @ consume_bits (wc_source wc) @ pad"
    using readsE [OF reads_nat [OF n(2)] 4(2)] by metis
  have "reads (read_peeks ?m []) (concat (map (nat_bits 8) (wc_peeks wc))) (wc_peeks wc)"
    using reads_peeks [of "[]" "wc_peeks wc"] ok by (simp add: continuation_ok_def btset_ok_def)
  then obtain r6 where 6: "read_peeks ?m [] r5 = Some (wc_peeks wc, r6)" "remaining r6 = consume_bits (wc_source wc) @ pad"
    using readsE [OF _ 5(2)] by metis
  obtain r7 where 7: "read_consume r6 = Some (wc_source wc, r7)"
    using readsE [OF reads_consume 6(2)] ok by (metis continuation_ok_def)
  show ?thesis
    by (simp add: read_waiting_continuation_def 1(1) 2(1) 3(1) 4(1) 5(1) 6(1) 7 un k(1))
qed

lemma decode_encode_continuations_sorted:
  assumes "\<forall>wc \<in> set wcs. continuation_ok enc_p dec_p enc_k dec_k wc" "length wcs < 2 ^ 32"
  shows "decode_continuations dec_p dec_k (encode_continuations enc_p enc_k wcs) =
    Some (Inr (sort_key (\<lambda>wc. veccmp_key (bw_finish (encode_waiting_continuation enc_p enc_k wc bw_new))) wcs))"
    (is "_ = Some (Inr ?wcs)")
proof -
  let ?enc = "\<lambda>wc. bw_finish (encode_waiting_continuation enc_p enc_k wc bw_new)"
  have "decode_seq_byte_vectors (encode_continuations enc_p enc_k wcs) = Some (map ?enc ?wcs)"
    unfolding encode_continuations_def sort_key_map
    using assms by (intro decode_encode_seq) (auto simp: continuation_ok_def)
  moreover have "collect_results (\<lambda>b. read_waiting_continuation dec_p dec_k (br_new b)) (map ?enc ?wcs) = Some (Inr ?wcs)"
    using assms(1) by (intro collect_results_map) (simp add: read_encoded_continuation)
  ultimately show ?thesis by (simp add: decode_continuations_def)
qed

subsection \<open>Joins\<close>

definition join_ok :: "('c \<Rightarrow> bytes) \<Rightarrow> (bytes \<Rightarrow> 'c option) \<Rightarrow> 'c list \<Rightarrow> bool" where
  "join_ok enc dec join \<longleftrightarrow>
     length join < 2 ^ 32 \<and> (\<forall>c \<in> set join. codec_ok enc dec c) \<and> length (encode_join enc join) < 2 ^ 64"

lemma decode_encode_join:
  assumes "join_ok enc dec join"
  shows "decode_join dec (encode_join enc join) = Some (Inr (sort_key (\<lambda>c. veccmp_key (enc c)) join))"
proof -
  let ?join = "sort_key (\<lambda>c. veccmp_key (enc c)) join"
  have "decode_seq_byte_vectors (encode_join enc join) = Some (map enc ?join)"
    unfolding encode_join_def sort_key_map
    using assms by (intro decode_encode_seq) (auto simp: join_ok_def codec_ok_def)
  moreover have "collect_results
      (\<lambda>c. Some (case dec c of None \<Rightarrow> Inl (Codec ''channel'') | Some ch \<Rightarrow> Inr ch)) (map enc ?join) = Some (Inr ?join)"
    using assms by (intro collect_results_map) (auto simp: join_ok_def codec_ok_def)
  ultimately show ?thesis by (simp add: decode_join_def)
qed

lemma collect_results_map_to:
  "(\<And>x. x \<in> set xs \<Longrightarrow> f (g x) = Some (Inr (h x))) \<Longrightarrow> collect_results f (map g xs) = Some (Inr (map h xs))"
  by (induction xs) simp_all

lemma decode_encode_joins_sorted:
  assumes "\<forall>j \<in> set joins. join_ok enc dec j" "length joins < 2 ^ 32"
  shows "decode_joins dec (encode_joins enc joins) =
    Some (Inr (map (sort_key (\<lambda>c. veccmp_key (enc c))) (sort_key (\<lambda>j. veccmp_key (encode_join enc j)) joins)))"
    (is "_ = Some (Inr (map ?s ?joins))")
proof -
  have "decode_seq_byte_vectors (encode_joins enc joins) = Some (map (encode_join enc) ?joins)"
    unfolding encode_joins_def sort_key_map
    using assms by (intro decode_encode_seq) (auto simp: join_ok_def)
  moreover have "collect_results (decode_join dec) (map (encode_join enc) ?joins) = Some (Inr (map ?s ?joins))"
    using assms(1) by (intro collect_results_map_to) (simp add: decode_encode_join)
  ultimately show ?thesis by (simp add: decode_joins_def)
qed

subsection \<open>Persisted leaves\<close>

lemma leaf_tag_less: "unat (leaf_tag v) < 4"
  by (cases v) simp_all

lemma writes_leaf:
  "writes (\<lambda>w. fold (\<lambda>b. write_bits (ucast b) 8) (leaf_bytes v)
       (write_bits (of_nat (length (leaf_bytes v))) 64 (write_bits (leaf_tag v) 2 w)))
     ((nat_bits 2 (unat (leaf_tag v)) @ nat_bits 64 (length (leaf_bytes v))) @ bits_of (leaf_bytes v))"
  unfolding bits_of_def by (intro writes_comp writes_fold writes_bits writes_nat writes_byte) simp

lemma decode_encode_leaf:
  assumes "length (leaf_bytes v) < 2 ^ 64"
  shows "decode_persisted_data (encode_persisted_data v) = Some (Inr v)"
proof -
  let ?r = "br_new (encode_persisted_data v)"
  obtain pad where "bits_of (encode_persisted_data v) =
    ((nat_bits 2 (unat (leaf_tag v)) @ nat_bits 64 (length (leaf_bytes v))) @ bits_of (leaf_bytes v)) @ pad"
    using finished_bits [OF writes_leaf [of v]] by (auto simp: encode_persisted_data_def Let_def)
  then have r: "remaining ?r =
    nat_bits 2 (unat (leaf_tag v)) @ nat_bits 64 (length (leaf_bytes v)) @ bits_of (leaf_bytes v) @ pad"
    by simp
  have tag: "reads (read_bits 2) (nat_bits 2 (unat (leaf_tag v))) (leaf_tag v)"
    using reads_nat [of "unat (leaf_tag v)" 2] leaf_tag_less [of v] by simp
  obtain r1 where 1: "read_bits 2 ?r = Some (leaf_tag v, r1)"
    "remaining r1 = nat_bits 64 (length (leaf_bytes v)) @ bits_of (leaf_bytes v) @ pad"
    using readsE [OF tag r] by metis
  obtain r2 where 2: "read_bits 64 r1 = Some (of_nat (length (leaf_bytes v)), r2)" "remaining r2 = bits_of (leaf_bytes v) @ pad"
    using readsE [OF reads_nat [OF assms] 1(2)] by metis
  obtain r3 where 3: "read_bytes_bits (length (leaf_bytes v)) r2 = Some (leaf_bytes v, r3)"
    using readsE [OF reads_bytes 2(2)] by metis
  have "unat (of_nat (length (leaf_bytes v)) :: 64 word) = length (leaf_bytes v)"
    using assms by (simp add: unsigned_of_nat take_bit_nat_eq_self)
  then show ?thesis
    using 1(1) 2(1) 3 by (cases v) (simp_all add: decode_persisted_data_def)
qed

section \<open>Properties\<close>

text \<open>
  C32: a list of data written by \<^const>\<open>encode_datums\<close> is read back by \<^const>\<open>decode_datums\<close> as the same data, value,
  persistence flag and source produce included, in the length-first order of their encodings.
\<close>

theorem decode_encode_datums:
  assumes "\<forall>d \<in> set ds. datum_ok enc dec d" "length ds < 2 ^ 32"
  shows "decode_datums dec (encode_datums enc ds) =
    Some (Inr (sort_key (\<lambda>d. veccmp_key (encode_datum_bytes enc d)) ds))"
  using assms by (rule decode_encode_datums_sorted)

text \<open>
  C31: \<^const>\<open>encode_datums\<close> is a canonical form of the multiset of data: two lists have the same bytes
  exactly when one is a permutation of the other. The order in which validators produced the data does
  not reach the state hash.
\<close>

theorem encode_datums_canonical:
  assumes ds: "\<forall>d \<in> set ds. datum_ok enc dec d" "length ds < 2 ^ 32"
    and es: "\<forall>d \<in> set es. datum_ok enc dec d" "length es < 2 ^ 32"
  shows "encode_datums enc ds = encode_datums enc es \<longleftrightarrow> mset ds = mset es"
proof
  assume "encode_datums enc ds = encode_datums enc es"
  then have "sort_key (\<lambda>d. veccmp_key (encode_datum_bytes enc d)) ds = sort_key (\<lambda>d. veccmp_key (encode_datum_bytes enc d)) es"
    using decode_encode_datums_sorted [OF ds] decode_encode_datums_sorted [OF es] by simp
  then show "mset ds = mset es" by (metis mset_sort)
next
  assume "mset ds = mset es"
  then have "mset (map (\<lambda>d. bw_finish (encode_datum enc d bw_new)) ds) = mset (map (\<lambda>d. bw_finish (encode_datum enc d bw_new)) es)"
    by simp
  then show "encode_datums enc ds = encode_datums enc es"
    unfolding encode_datums_def by (metis sort_encodings_mset)
qed

text \<open>
  C33: continuations survive their encoding: patterns in order, the continuation, its persistence, the
  peeked indices and the source consume are read back as they were written.
\<close>

theorem decode_encode_continuations:
  assumes "\<forall>wc \<in> set wcs. continuation_ok enc_p dec_p enc_k dec_k wc" "length wcs < 2 ^ 32"
  shows "decode_continuations dec_p dec_k (encode_continuations enc_p enc_k wcs) =
    Some (Inr (sort_key (\<lambda>wc. veccmp_key (bw_finish (encode_waiting_continuation enc_p enc_k wc bw_new))) wcs))"
  using assms by (rule decode_encode_continuations_sorted)

text \<open>
  Joins are read back with the channels of each join in the order of their encodings, which need
  not be the order they were written in.
\<close>

theorem decode_encode_joins:
  assumes "\<forall>j \<in> set joins. join_ok enc dec j" "length joins < 2 ^ 32"
  shows "decode_joins dec (encode_joins enc joins) =
    Some (Inr (map (sort_key (\<lambda>c. veccmp_key (enc c))) (sort_key (\<lambda>j. veccmp_key (encode_join enc j)) joins)))"
  using assms by (rule decode_encode_joins_sorted)

text \<open>
  A persisted leaf of any of the four kinds is read back with its kind and its bytes, although its
  two-bit tag shifts the payload off the byte boundaries.
\<close>

theorem decode_encode_persisted_data:
  assumes "length (leaf_bytes v) < 2 ^ 64"
  shows "decode_persisted_data (encode_persisted_data v) = Some (Inr v)"
  using assms by (rule decode_encode_leaf)

subsection \<open>Witnesses\<close>

fun one_byte :: "bytes \<Rightarrow> byte option" where
  "one_byte [b] = Some b"
| "one_byte bs = None"

definition sample_datum :: "byte \<Rightarrow> byte datum" where
  "sample_datum b = \<lparr>dt_a = b, dt_persist = False,
     dt_source = \<lparr>pr_channels_hash = replicate 32 1, pr_hash = replicate 32 b, pr_persistent = False\<rparr>\<rparr>"

definition sample_continuation :: "(byte, byte) waiting_continuation" where
  "sample_continuation = \<lparr>wc_patterns = [7, 8], wc_continuation = 9, wc_persist = True, wc_peeks = [0, 1],
     wc_source = \<lparr>cs_channels_hashes = [replicate 32 1, replicate 32 2], cs_hash = replicate 32 3, cs_persistent = True\<rparr>\<rparr>"

lemma sample_datum_ok: "datum_ok (\<lambda>b. [b]) one_byte (sample_datum b)"
  by (simp add: datum_ok_def codec_ok_def produce_ok_def sample_datum_def encode_datum_bytes_def
      finished_length [OF writes_datum] produce_bits_def)

lemma sample_continuation_ok: "continuation_ok (\<lambda>b. [b]) one_byte (\<lambda>b. [b]) one_byte sample_continuation"
  by (simp add: continuation_ok_def codec_ok_def consume_ok_def sample_continuation_def btset_ok_def
      finished_length [OF writes_continuation] continuation_bits_def sized_bits_def consume_bits_def)

theorem decode_encode_datums_witness:
  "decode_datums one_byte (encode_datums (\<lambda>b. [b]) [sample_datum 6, sample_datum 5]) =
     Some (Inr (sort_key (\<lambda>d. veccmp_key (encode_datum_bytes (\<lambda>b. [b]) d)) [sample_datum 6, sample_datum 5]))"
  using decode_encode_datums [of "[sample_datum 6, sample_datum 5]" "\<lambda>b. [b]" one_byte] sample_datum_ok by simp

theorem encode_datums_canonical_witness:
  "encode_datums (\<lambda>b. [b]) [sample_datum 6, sample_datum 5] = encode_datums (\<lambda>b. [b]) [sample_datum 5, sample_datum 6]"
  using encode_datums_canonical [of "[sample_datum 6, sample_datum 5]" "\<lambda>b. [b]" one_byte "[sample_datum 5, sample_datum 6]"]
    sample_datum_ok by simp

theorem decode_encode_continuations_witness:
  "decode_continuations one_byte one_byte (encode_continuations (\<lambda>b. [b]) (\<lambda>b. [b]) [sample_continuation]) =
     Some (Inr [sample_continuation])"
  using decode_encode_continuations [of "[sample_continuation]" "\<lambda>b. [b]" one_byte "\<lambda>b. [b]" one_byte]
    sample_continuation_ok by simp

theorem decode_encode_joins_witness:
  "decode_joins one_byte (encode_joins (\<lambda>b. [b]) [[9, 4]]) = Some (Inr [[4, 9]])"
  using decode_encode_joins [of "[[9, 4]]" "\<lambda>b. [b]" one_byte]
  by (simp add: join_ok_def codec_ok_def encode_join_def encode_seq_byte_vectors_def be_bytes_def veccmp_key_def)

theorem decode_encode_persisted_data_witness:
  "decode_persisted_data (encode_persisted_data (ContinuationsLeaf [255, 1])) = Some (Inr (ContinuationsLeaf [255, 1]))"
  by (rule decode_encode_persisted_data) simp

end
