(* ===== verification/Stable_Hash.thy ===== *)
theory Stable_Hash
  imports Scodec
begin

text \<open>
  Stable hashing of channels, joins, produces and consumes
  (\<^verbatim>\<open>rspace/src/hashing/stable_hash_provider.rs\<close> and the constructors of \<^verbatim>\<open>trace/event.rs\<close>). The digest
  is a parameter \<open>dg\<close>; hashing several parts is the digest of their concatenation.
\<close>

definition hash_channel :: "(bytes \<Rightarrow> hash32) \<Rightarrow> ('c \<Rightarrow> bytes) \<Rightarrow> 'c \<Rightarrow> hash32" where
  "hash_channel dg enc_c c = dg (enc_c c)"

definition hash_seq :: "(bytes \<Rightarrow> hash32) \<Rightarrow> ('c \<Rightarrow> bytes) \<Rightarrow> 'c list \<Rightarrow> hash32 list" where
  "hash_seq dg enc_c channels = sort (map (hash_channel dg enc_c) channels)"

definition hash_hashes :: "(bytes \<Rightarrow> hash32) \<Rightarrow> hash32 list \<Rightarrow> hash32" where
  "hash_hashes dg hs = dg (concat (sort hs))"

definition hash_channels :: "(bytes \<Rightarrow> hash32) \<Rightarrow> ('c \<Rightarrow> bytes) \<Rightarrow> 'c list \<Rightarrow> hash32" where
  "hash_channels dg enc_c channels = hash_hashes dg (hash_seq dg enc_c channels)"

definition hash_consume ::
  "(bytes \<Rightarrow> hash32) \<Rightarrow> ('p \<Rightarrow> bytes) \<Rightarrow> ('k \<Rightarrow> bytes) \<Rightarrow> bytes list \<Rightarrow> 'p list \<Rightarrow> 'k \<Rightarrow> bool \<Rightarrow> hash32" where
  "hash_consume dg enc_p enc_k encoded_channels patterns continuation persist =
     dg (encode_seq_byte_vectors
          (encoded_channels @ to_ordered_byte_vectors enc_p patterns @ [enc_k continuation] @ [bool8 persist]))"

definition hash_produce :: "(bytes \<Rightarrow> hash32) \<Rightarrow> ('a \<Rightarrow> bytes) \<Rightarrow> bytes \<Rightarrow> 'a \<Rightarrow> bool \<Rightarrow> hash32" where
  "hash_produce dg enc_a channel a persist = dg (encode_seq_byte_vectors [channel, enc_a a, bool8 persist])"

definition produce_apply ::
  "(bytes \<Rightarrow> hash32) \<Rightarrow> ('c \<Rightarrow> bytes) \<Rightarrow> ('a \<Rightarrow> bytes) \<Rightarrow> 'c \<Rightarrow> 'a \<Rightarrow> bool \<Rightarrow> produce" where
  "produce_apply dg enc_c enc_a channel a persistent =
     (let ch = hash_channel dg enc_c channel
      in \<lparr>pr_channels_hash = ch, pr_hash = hash_produce dg enc_a ch a persistent, pr_persistent = persistent\<rparr>)"

definition consume_apply ::
  "(bytes \<Rightarrow> hash32) \<Rightarrow> ('c \<Rightarrow> bytes) \<Rightarrow> ('p \<Rightarrow> bytes) \<Rightarrow> ('k \<Rightarrow> bytes) \<Rightarrow> 'c list \<Rightarrow> 'p list \<Rightarrow> 'k \<Rightarrow> bool \<Rightarrow> consume" where
  "consume_apply dg enc_c enc_p enc_k channels patterns continuation persistent =
     (let chs = hash_seq dg enc_c channels
      in \<lparr>cs_channels_hashes = chs, cs_hash = hash_consume dg enc_p enc_k chs patterns continuation persistent,
          cs_persistent = persistent\<rparr>)"

text \<open>\<^verbatim>\<open>from_hash\<close> of a produce and of a consume.\<close>

definition produce_from_hash :: "hash32 \<Rightarrow> hash32 \<Rightarrow> bool \<Rightarrow> produce" where
  "produce_from_hash ch h persistent = \<lparr>pr_channels_hash = ch, pr_hash = h, pr_persistent = persistent\<rparr>"

definition consume_from_hash :: "hash32 list \<Rightarrow> hash32 \<Rightarrow> bool \<Rightarrow> consume" where
  "consume_from_hash chs h persistent = \<lparr>cs_channels_hashes = chs, cs_hash = h, cs_persistent = persistent\<rparr>"

section \<open>Joins hash the same in every order\<close>

lemma sort_mset_eq: "mset xs = mset ys \<Longrightarrow> sort xs = sort (ys :: 'a::linorder list)"
  by (rule properties_for_sort) simp_all

lemma hash_seq_mset: "mset cs = mset ds \<Longrightarrow> hash_seq dg enc_c cs = hash_seq dg enc_c ds"
  unfolding hash_seq_def by (rule sort_mset_eq) simp

lemma hash_channels_mset: "mset cs = mset ds \<Longrightarrow> hash_channels dg enc_c cs = hash_channels dg enc_c ds"
  unfolding hash_channels_def by (rule arg_cong [OF hash_seq_mset])

lemma to_ordered_mset:
  "mset ps = mset qs \<Longrightarrow> to_ordered_byte_vectors enc ps = to_ordered_byte_vectors enc qs"
  unfolding to_ordered_byte_vectors_def by (rule sort_encodings_mset) simp

text \<open>
  A consume hash sorts channels and patterns apart from each other: it does not say which pattern
  belongs to which channel.
\<close>

lemma consume_apply_mset:
  assumes "mset cs = mset ds" "mset ps = mset qs"
  shows "consume_apply dg enc_c enc_p enc_k cs ps k b = consume_apply dg enc_c enc_p enc_k ds qs k b"
  using hash_seq_mset [OF assms(1), of dg enc_c] to_ordered_mset [OF assms(2), of enc_p]
  by (simp add: consume_apply_def hash_consume_def Let_def)

lemma produce_apply_ok: "(\<And>bs. length (dg bs) = 32) \<Longrightarrow> produce_ok (produce_apply dg enc_c enc_a c a b)"
  by (simp add: produce_ok_def produce_apply_def hash_channel_def hash_produce_def Let_def)

lemma consume_apply_ok:
  "(\<And>bs. length (dg bs) = 32) \<Longrightarrow> length cs < 2 ^ 32 \<Longrightarrow> consume_ok (consume_apply dg enc_c enc_p enc_k cs ps k b)"
  by (auto simp: consume_ok_def consume_apply_def hash_consume_def hash_seq_def hash_channel_def Let_def)

section \<open>Hash equality is equality up to a digest collision\<close>

text \<open>Two byte strings that collide under the digest.\<close>

definition collision :: "(bytes \<Rightarrow> hash32) \<Rightarrow> bytes \<Rightarrow> bytes \<Rightarrow> bool" where
  "collision dg x y \<longleftrightarrow> x \<noteq> y \<and> dg x = dg y"

lemma encode_seq_inject:
  assumes "\<forall>e \<in> set es. length e < 2 ^ 64" "length es < 2 ^ 32" "\<forall>e \<in> set fs. length e < 2 ^ 64" "length fs < 2 ^ 32"
    and "encode_seq_byte_vectors es = encode_seq_byte_vectors fs"
  shows "es = fs"
proof -
  have "Some es = Some fs"
    unfolding decode_encode_seq [OF assms(1,2), symmetric] decode_encode_seq [OF assms(3,4), symmetric] assms(5) ..
  then show ?thesis by simp
qed

lemma bool8_inject [simp]: "bool8 a = bool8 b \<longleftrightarrow> a = b"
  by (cases a; cases b) (simp_all add: bool8_def)

lemma length_bool8 [simp]: "length (bool8 b) = 1"
  by (simp add: bool8_def)

definition produce_record :: "(bytes \<Rightarrow> hash32) \<Rightarrow> ('c \<Rightarrow> bytes) \<Rightarrow> ('a \<Rightarrow> bytes) \<Rightarrow> 'c \<Rightarrow> 'a \<Rightarrow> bool \<Rightarrow> bytes" where
  "produce_record dg enc_c enc_a c a b = encode_seq_byte_vectors [hash_channel dg enc_c c, enc_a a, bool8 b]"

text \<open>
  Two produces that compare equal agree on channel, datum and persistence, unless the digest
  collides on the encodings of the two channels or on the two hashed records.
\<close>

theorem produce_hash_identifies:
  assumes dg: "\<And>bs. length (dg bs) = 32"
    and ok: "codec_ok enc_c dec_c c" "codec_ok enc_c dec_c c'" "codec_ok enc_a dec_a a" "codec_ok enc_a dec_a a'"
    and eq: "produce_eq (produce_apply dg enc_c enc_a c a b) (produce_apply dg enc_c enc_a c' a' b')"
  shows "(c = c' \<and> a = a' \<and> b = b') \<or> collision dg (enc_c c) (enc_c c') \<or>
    collision dg (produce_record dg enc_c enc_a c a b) (produce_record dg enc_c enc_a c' a' b')"
proof (rule ccontr)
  assume neg: "\<not> ?thesis"
  have "dg (produce_record dg enc_c enc_a c a b) = dg (produce_record dg enc_c enc_a c' a' b')"
    using eq by (simp add: produce_eq_def produce_apply_def hash_produce_def produce_record_def Let_def)
  with neg have "produce_record dg enc_c enc_a c a b = produce_record dg enc_c enc_a c' a' b'"
    by (auto simp: collision_def)
  then have "[dg (enc_c c), enc_a a, bool8 b] = [dg (enc_c c'), enc_a a', bool8 b']"
    unfolding produce_record_def hash_channel_def
    by (rule encode_seq_inject [rotated -1]) (use ok dg in \<open>simp_all add: codec_ok_def\<close>)
  then have "enc_c c = enc_c c'" "enc_a a = enc_a a'" "b = b'" using neg by (auto simp: collision_def)
  then have "c = c'" "a = a'" "b = b'" using ok by (auto simp: codec_ok_def)
  with neg show False by blast
qed

theorem produce_hash_identifies_witness:
  "let dg = \<lambda>_. replicate 32 0; enc = \<lambda>b. [b] in
     produce_eq (produce_apply dg enc enc 1 3 False) (produce_apply dg enc enc 2 3 False) \<and>
     (collision dg (enc 1) (enc 2) \<or> collision dg (produce_record dg enc enc 1 3 False) (produce_record dg enc enc 2 3 False))"
proof -
  let ?dg = "\<lambda>_. replicate 32 0" and ?enc = "\<lambda>b :: byte. [b]"
  have eq: "produce_eq (produce_apply ?dg ?enc ?enc 1 3 False) (produce_apply ?dg ?enc ?enc 2 3 False)"
    by (simp add: produce_eq_def produce_apply_def hash_produce_def Let_def)
  have "codec_ok ?enc one_byte b" for b by (simp add: codec_ok_def)
  from produce_hash_identifies [OF _ this this this this eq] eq show ?thesis by (simp add: Let_def)
qed

end
