(* ===== verification/Hot_Store.thy ===== *)
theory Hot_Store
  imports Tuple_Types
begin

text \<open>
  The in-memory overlay of the tuple space (\<^verbatim>\<open>rspace/src/hot_store.rs\<close>): maps of what has been read or
  changed since the last checkpoint, over a reader of the committed history whose answers are memoised.

  The history reader is a record of functions, so that the overlay can be stated over any of them. A
  reader call may fail, by an error or a panic; every operation then returns the error before it touches the overlay. The
  async locks serialise the operations on a store, and an operation is one state transformer here.

  \<open>store_view\<close> is what the overlay stands for: each key with the list it holds, whether that list
  has been copied into the overlay yet or is still only in history. Every operation is shown to act on
  this view alone, and \<open>changes\<close> to be exactly the difference between the view and the history.
\<close>

section \<open>State transformers that may fail\<close>

type_synonym ('s, 'e, 'x) op = "'s \<Rightarrow> 's \<times> ('e + 'x)"

definition ret :: "'x \<Rightarrow> ('s, 'e, 'x) op" where
  "ret x s = (s, Inr x)"

definition throw :: "'e \<Rightarrow> ('s, 'e, 'x) op" where
  "throw e s = (s, Inl e)"

definition and_then :: "('s, 'e, 'x) op \<Rightarrow> ('x \<Rightarrow> ('s, 'e, 'y) op) \<Rightarrow> ('s, 'e, 'y) op" where
  "and_then m f s = (case m s of (s', Inl e) \<Rightarrow> (s', Inl e) | (s', Inr x) \<Rightarrow> f x s')"

primrec for_each :: "'b list \<Rightarrow> ('b \<Rightarrow> ('s, 'e, unit) op) \<Rightarrow> ('s, 'e, unit) op" where
  "for_each [] f = ret ()"
| "for_each (b # bs) f = and_then (f b) (\<lambda>_. for_each bs f)"

lemma and_then_Inr [simp]: "m s = (s', Inr x) \<Longrightarrow> and_then m f s = f x s'"
  by (simp add: and_then_def)

lemma and_then_Inl [simp]: "m s = (s', Inl e) \<Longrightarrow> and_then m f s = (s', Inl e)"
  by (simp add: and_then_def)

lemma ret_apply [simp]: "ret x s = (s, Inr x)"
  by (simp add: ret_def)

lemma throw_apply [simp]: "throw e s = (s, Inl e)"
  by (simp add: throw_def)

section \<open>State\<close>

record ('c, 'p, 'a, 'k) hot_store_state =
  st_continuations :: "('c list, ('p, 'k) waiting_continuation list) btmap"
  st_installed_continuations :: "('c list, ('p, 'k) waiting_continuation) btmap"
  st_data :: "('c, 'a datum list) btmap"
  st_joins :: "('c, 'c list list) btmap"
  st_installed_joins :: "('c, 'c list list) btmap"

definition hot_store_state_default :: "('c, 'p, 'a, 'k) hot_store_state" where
  "hot_store_state_default = \<lparr>st_continuations = [], st_installed_continuations = [], st_data = [],
     st_joins = [], st_installed_joins = []\<rparr>"

text \<open>\<^verbatim>\<open>Vec::remove\<close> is called in range only.\<close>

definition remove_index :: "'e list \<Rightarrow> nat \<Rightarrow> 'e list" where
  "remove_index col i = take i col @ drop (Suc i) col"

text \<open>A \<^verbatim>\<open>OnceCell\<close> is an optional value.\<close>

record ('c, 'p, 'a, 'k) history_store_cache =
  hc_continuations :: "('c list, ('p, 'k) waiting_continuation list option) btmap"
  hc_datums :: "('c, 'a datum list option) btmap"
  hc_joins :: "('c, 'c list list option) btmap"

definition history_store_cache_default :: "('c, 'p, 'a, 'k) history_store_cache" where
  "history_store_cache_default = \<lparr>hc_continuations = [], hc_datums = [], hc_joins = []\<rparr>"

text \<open>The reader of the committed history (\<^verbatim>\<open>HistoryReaderBase\<close>).\<close>

record ('c, 'p, 'a, 'k) history_reader_base =
  hr_continuations :: "'c list \<Rightarrow> failure + ('p, 'k) waiting_continuation list"
  hr_data :: "'c \<Rightarrow> failure + 'a datum list"
  hr_joins :: "'c \<Rightarrow> failure + 'c list list"

record ('c, 'p, 'a, 'k) in_mem_hot_store =
  hs_state :: "('c, 'p, 'a, 'k) hot_store_state"
  hs_cache :: "('c, 'p, 'a, 'k) history_store_cache"
  hs_reader :: "('c, 'p, 'a, 'k) history_reader_base"

type_synonym ('c, 'p, 'a, 'k, 'x) store_op = "(('c, 'p, 'a, 'k) in_mem_hot_store, failure, 'x) op"

definition hot_store_from_state ::
  "('c, 'p, 'a, 'k) hot_store_state \<Rightarrow> ('c, 'p, 'a, 'k) history_reader_base \<Rightarrow> ('c, 'p, 'a, 'k) in_mem_hot_store" where
  "hot_store_from_state st reader = \<lparr>hs_state = st, hs_cache = history_store_cache_default, hs_reader = reader\<rparr>"

definition hot_store_new :: "('c, 'p, 'a, 'k) history_reader_base \<Rightarrow> ('c, 'p, 'a, 'k) in_mem_hot_store" where
  "hot_store_new reader =
     \<lparr>hs_state = hot_store_state_default, hs_cache = history_store_cache_default, hs_reader = reader\<rparr>"

section \<open>Operations\<close>

text \<open>
  \<^verbatim>\<open>entry(k).or_insert_with(OnceCell::new)\<close> and then \<^verbatim>\<open>get_or_try_init\<close>: a cell keeps the first
  successful answer; after an error it stays empty.
\<close>

definition get_or_try_init ::
  "'k::linorder \<Rightarrow> (failure + 'v) \<Rightarrow> ('k, 'v option) btmap \<Rightarrow> ('k, 'v option) btmap \<times> (failure + 'v)" where
  "get_or_try_init k answer cells =
     (case bm_get_or None cells k of
        Some v \<Rightarrow> (bm_entry k None id cells, Inr v)
      | None \<Rightarrow>
          (case answer of
             Inl e \<Rightarrow> (bm_entry k None id cells, Inl e)
           | Inr v \<Rightarrow> (bm_insert k (Some v) cells, Inr v)))"

definition get_cont_from_history_store ::
  "'c::linorder list \<Rightarrow> ('c, 'p, 'a, 'k, ('p, 'k) waiting_continuation list) store_op" where
  "get_cont_from_history_store channels hs =
     (let (cells, r) = get_or_try_init channels (hr_continuations (hs_reader hs) channels) (hc_continuations (hs_cache hs))
      in (hs\<lparr>hs_cache := (hs_cache hs)\<lparr>hc_continuations := cells\<rparr>\<rparr>, r))"

definition get_data_from_history_store :: "'c::linorder \<Rightarrow> ('c, 'p, 'a, 'k, 'a datum list) store_op" where
  "get_data_from_history_store channel hs =
     (let (cells, r) = get_or_try_init channel (hr_data (hs_reader hs) channel) (hc_datums (hs_cache hs))
      in (hs\<lparr>hs_cache := (hs_cache hs)\<lparr>hc_datums := cells\<rparr>\<rparr>, r))"

definition get_joins_from_history_store :: "'c::linorder \<Rightarrow> ('c, 'p, 'a, 'k, 'c list list) store_op" where
  "get_joins_from_history_store channel hs =
     (let (cells, r) = get_or_try_init channel (hr_joins (hs_reader hs) channel) (hc_joins (hs_cache hs))
      in (hs\<lparr>hs_cache := (hs_cache hs)\<lparr>hc_joins := cells\<rparr>\<rparr>, r))"

subsection \<open>Continuations\<close>

definition installed_first ::
  "('c, 'p, 'a, 'k) hot_store_state \<Rightarrow> 'c list \<Rightarrow> ('p, 'k) waiting_continuation list \<Rightarrow> ('p, 'k) waiting_continuation list" where
  "installed_first st channels conts =
     (case bm_get (st_installed_continuations st) channels of None \<Rightarrow> conts | Some wc \<Rightarrow> wc # conts)"

definition get_continuations ::
  "'c::linorder list \<Rightarrow> ('c, 'p, 'a, 'k, ('p, 'k) waiting_continuation list) store_op" where
  "get_continuations channels =
     and_then (get_cont_from_history_store channels) (\<lambda>from_history hs.
       let st = hs_state hs in
       (case bm_get (st_continuations st) channels of
          Some conts \<Rightarrow> (hs, Inr (installed_first st channels conts))
        | None \<Rightarrow>
            (hs\<lparr>hs_state := st\<lparr>st_continuations := bm_insert channels from_history (st_continuations st)\<rparr>\<rparr>,
             Inr (installed_first st channels from_history))))"

definition put_continuation ::
  "'c::linorder list \<Rightarrow> ('p, 'k) waiting_continuation \<Rightarrow> ('c, 'p, 'a, 'k, unit) store_op" where
  "put_continuation channels wc =
     and_then (get_cont_from_history_store channels) (\<lambda>from_history hs.
       let st = hs_state hs in
       (hs\<lparr>hs_state := st\<lparr>st_continuations :=
          bm_entry channels from_history (\<lambda>cur. wc # cur) (st_continuations st)\<rparr>\<rparr>, Inr ()))"

definition install_continuation ::
  "'c::linorder list \<Rightarrow> ('p, 'k) waiting_continuation \<Rightarrow> ('c, 'p, 'a, 'k, unit) store_op" where
  "install_continuation channels wc hs =
     (let st = hs_state hs in
      (hs\<lparr>hs_state := st\<lparr>st_installed_continuations :=
         bm_insert channels wc (st_installed_continuations st)\<rparr>\<rparr>, Inr ()))"

definition remove_continuation :: "'c::linorder list \<Rightarrow> nat \<Rightarrow> ('c, 'p, 'a, 'k, unit) store_op" where
  "remove_continuation channels index =
     and_then (get_cont_from_history_store channels) (\<lambda>from_history hs.
       let st = hs_state hs; is_installed = (bm_get (st_installed_continuations st) channels \<noteq> None) in
       if is_installed \<and> index = 0 then (hs, Inr ())
       else
         let removed_index = (if is_installed then index - 1 else index) in
         (hs\<lparr>hs_state := st\<lparr>st_continuations :=
            bm_entry channels from_history
              (\<lambda>cur. if removed_index < length cur then remove_index cur removed_index else cur)
              (st_continuations st)\<rparr>\<rparr>, Inr ()))"

subsection \<open>Data\<close>

definition get_data :: "'c::linorder \<Rightarrow> ('c, 'p, 'a, 'k, 'a datum list) store_op" where
  "get_data channel =
     and_then (get_data_from_history_store channel) (\<lambda>from_history hs.
       let st = hs_state hs in
       (case bm_get (st_data st) channel of
          Some data \<Rightarrow> (hs, Inr data)
        | None \<Rightarrow>
            (hs\<lparr>hs_state := st\<lparr>st_data := bm_insert channel from_history (st_data st)\<rparr>\<rparr>, Inr from_history)))"

definition put_datum :: "'c::linorder \<Rightarrow> 'a datum \<Rightarrow> ('c, 'p, 'a, 'k, unit) store_op" where
  "put_datum channel d =
     and_then (get_data_from_history_store channel) (\<lambda>from_history hs.
       let st = hs_state hs in
       (hs\<lparr>hs_state := st\<lparr>st_data := bm_entry channel from_history (\<lambda>cur. d # cur) (st_data st)\<rparr>\<rparr>, Inr ()))"

definition remove_datum :: "'c::linorder \<Rightarrow> int \<Rightarrow> ('c, 'p, 'a, 'k, unit) store_op" where
  "remove_datum channel index =
     and_then (get_data_from_history_store channel) (\<lambda>from_history hs.
       let st = hs_state hs in
       (hs\<lparr>hs_state := st\<lparr>st_data :=
          bm_entry channel from_history
            (\<lambda>cur. if 0 \<le> index \<and> nat index < length cur then remove_index cur (nat index) else cur)
            (st_data st)\<rparr>\<rparr>, Inr ()))"

subsection \<open>Joins\<close>

definition get_joins :: "'c::linorder \<Rightarrow> ('c, 'p, 'a, 'k, 'c list list) store_op" where
  "get_joins channel =
     and_then (get_joins_from_history_store channel) (\<lambda>from_history hs.
       let st = hs_state hs; out = bm_get_or [] (st_installed_joins st) channel in
       (case bm_get (st_joins st) channel of
          Some joins \<Rightarrow> (hs, Inr (out @ joins))
        | None \<Rightarrow>
            (hs\<lparr>hs_state := st\<lparr>st_joins := bm_insert channel from_history (st_joins st)\<rparr>\<rparr>,
             Inr (out @ from_history))))"

definition put_join :: "'c::linorder \<Rightarrow> 'c list \<Rightarrow> ('c, 'p, 'a, 'k, unit) store_op" where
  "put_join channel join =
     and_then (get_joins_from_history_store channel) (\<lambda>from_history hs.
       let st = hs_state hs in
       (hs\<lparr>hs_state := st\<lparr>st_joins :=
          bm_entry channel from_history (\<lambda>cur. if join \<in> set cur then cur else join # cur) (st_joins st)\<rparr>\<rparr>, Inr ()))"

definition install_join :: "'c::linorder \<Rightarrow> 'c list \<Rightarrow> ('c, 'p, 'a, 'k, unit) store_op" where
  "install_join channel join hs =
     (let st = hs_state hs in
      (hs\<lparr>hs_state := st\<lparr>st_installed_joins :=
         bm_entry channel [] (\<lambda>cur. if join \<in> set cur then cur else join # cur) (st_installed_joins st)\<rparr>\<rparr>, Inr ()))"

definition remove_join :: "'c::linorder \<Rightarrow> 'c list \<Rightarrow> ('c, 'p, 'a, 'k, unit) store_op" where
  "remove_join channel join =
     and_then (get_joins_from_history_store channel) (\<lambda>from_history hs.
       let st = hs_state hs in
       (hs\<lparr>hs_state := st\<lparr>st_joins := bm_entry channel from_history (remove1 join) (st_joins st)\<rparr>\<rparr>, Inr ()))"

subsection \<open>Changes, rows and snapshots\<close>

datatype ('c, 'p, 'a, 'k) hot_store_action =
    InsertData 'c "'a datum list"
  | InsertJoins 'c "'c list list"
  | InsertContinuations "'c list" "('p, 'k) waiting_continuation list"
  | DeleteData 'c
  | DeleteJoins 'c
  | DeleteContinuations "'c list"

definition changes :: "('c, 'p, 'a, 'k) in_mem_hot_store \<Rightarrow> ('c, 'p, 'a, 'k) hot_store_action list" where
  "changes hs =
     (let st = hs_state hs in
      map (\<lambda>(k, v). if v = [] then DeleteContinuations k else InsertContinuations k v) (st_continuations st) @
      map (\<lambda>(k, v). if v = [] then DeleteData k else InsertData k v) (st_data st) @
      map (\<lambda>(k, v). if v = [] then DeleteJoins k else InsertJoins k v) (st_joins st))"

definition row_default :: "('p, 'a, 'k) row" where
  "row_default = \<lparr>row_data = [], row_wks = []\<rparr>"

definition to_map :: "('c::linorder, 'p, 'a, 'k) in_mem_hot_store \<Rightarrow> ('c list, ('p, 'a, 'k) row) btmap" where
  "to_map hs =
     (let st = hs_state hs;
          m1 = fold (\<lambda>(k, v). bm_entry [k] row_default (\<lambda>r. r\<lparr>row_data := v\<rparr>)) (st_data st) [];
          m2 = fold (\<lambda>(k, v). bm_entry k row_default (\<lambda>r. r\<lparr>row_wks := row_wks r @ v\<rparr>)) (st_continuations st) m1;
          m3 = fold (\<lambda>(k, v). bm_entry k row_default (\<lambda>r. r\<lparr>row_wks := v # row_wks r\<rparr>)) (st_installed_continuations st) m2
      in filter (\<lambda>(k, r). \<not> (row_data r = [] \<and> row_wks r = [])) m3)"

definition snapshot :: "('c, 'p, 'a, 'k) in_mem_hot_store \<Rightarrow> ('c, 'p, 'a, 'k) hot_store_state" where
  "snapshot hs = hs_state hs"

section \<open>Refinement of a view\<close>

text \<open>
  \<open>implements ok vw m f\<close>: from a state that satisfies \<open>ok\<close> the operation \<open>m\<close> succeeds, keeps \<open>ok\<close>, and
  its result and its effect on the abstract state are those of the function \<open>f\<close>.
\<close>

definition implements ::
  "('s \<Rightarrow> bool) \<Rightarrow> ('s \<Rightarrow> 'v) \<Rightarrow> ('s, 'e, 'x) op \<Rightarrow> ('v \<Rightarrow> 'v \<times> 'x) \<Rightarrow> bool" where
  "implements ok vw m f \<longleftrightarrow>
     (\<forall>s. ok s \<longrightarrow> (\<exists>s'. m s = (s', Inr (snd (f (vw s)))) \<and> ok s' \<and> vw s' = fst (f (vw s))))"

lemma implementsE:
  assumes "implements ok vw m f" "ok s"
  obtains s' where "m s = (s', Inr (snd (f (vw s))))" "ok s'" "vw s' = fst (f (vw s))"
  using assms by (auto simp: implements_def)

lemma implements_ret: "implements ok vw (ret x) (\<lambda>v. (v, x))"
  by (simp add: implements_def)

lemma implements_and_then:
  assumes "implements ok vw m f" "\<And>x. implements ok vw (k x) (g x)"
  shows "implements ok vw (and_then m k) (\<lambda>v. let (v', x) = f v in g x v')"
  unfolding implements_def
proof (intro allI impI)
  fix s assume "ok s"
  then obtain s' where 1: "m s = (s', Inr (snd (f (vw s))))" "ok s'" "vw s' = fst (f (vw s))"
    using assms(1) by (elim implementsE)
  obtain s'' where 2: "k (snd (f (vw s))) s' = (s'', Inr (snd (g (snd (f (vw s))) (vw s'))))"
    "ok s''" "vw s'' = fst (g (snd (f (vw s))) (vw s'))"
    using implementsE [OF assms(2) 1(2)] by metis
  show "\<exists>s''. and_then m k s = (s'', Inr (snd (let (v', x) = f (vw s) in g x v'))) \<and> ok s'' \<and>
      vw s'' = fst (let (v', x) = f (vw s) in g x v')"
    using 1 2 by (simp add: split_beta)
qed

primrec each :: "'b list \<Rightarrow> ('b \<Rightarrow> 'v \<Rightarrow> 'v \<times> unit) \<Rightarrow> 'v \<Rightarrow> 'v \<times> unit" where
  "each [] f v = (v, ())"
| "each (b # bs) f v = each bs f (fst (f b v))"

lemma implements_for_each:
  "(\<And>b. b \<in> set bs \<Longrightarrow> implements ok vw (f b) (g b)) \<Longrightarrow> implements ok vw (for_each bs f) (each bs g)"
proof (induction bs)
  case Nil
  show ?case using implements_ret [of ok vw "()"] by (simp add: implements_def)
next
  case (Cons b bs)
  have "implements ok vw (and_then (f b) (\<lambda>_. for_each bs f)) (\<lambda>v. let (v', x) = g b v in each bs g v')"
    using Cons by (intro implements_and_then) simp_all
  then show ?case by (simp add: split_beta implements_def)
qed

lemma implements_cong: "implements ok vw m f \<Longrightarrow> (\<And>v. f v = g v) \<Longrightarrow> implements ok vw m g"
  by (simp add: implements_def)

subsection \<open>The view of the overlay\<close>

record ('c, 'p, 'a, 'k) tuple_view =
  vw_continuations :: "'c list \<Rightarrow> ('p, 'k) waiting_continuation list"
  vw_installed :: "'c list \<Rightarrow> ('p, 'k) waiting_continuation option"
  vw_data :: "'c \<Rightarrow> 'a datum list"
  vw_joins :: "'c \<Rightarrow> 'c list list"
  vw_installed_joins :: "'c \<Rightarrow> 'c list list"

definition overlaid :: "('k, 'v) btmap \<Rightarrow> ('k \<Rightarrow> 'e + 'v) \<Rightarrow> 'k \<Rightarrow> 'v" where
  "overlaid m reader k = (case bm_get m k of Some v \<Rightarrow> v | None \<Rightarrow> projr (reader k))"

definition view_over ::
  "('c, 'p, 'a, 'k) hot_store_state \<Rightarrow> ('c, 'p, 'a, 'k) history_reader_base \<Rightarrow> ('c, 'p, 'a, 'k) tuple_view" where
  "view_over st reader =
     \<lparr>vw_continuations = overlaid (st_continuations st) (hr_continuations reader),
      vw_installed = bm_get (st_installed_continuations st),
      vw_data = overlaid (st_data st) (hr_data reader),
      vw_joins = overlaid (st_joins st) (hr_joins reader),
      vw_installed_joins = bm_get_or [] (st_installed_joins st)\<rparr>"

definition store_view :: "('c, 'p, 'a, 'k) in_mem_hot_store \<Rightarrow> ('c, 'p, 'a, 'k) tuple_view" where
  "store_view hs = view_over (hs_state hs) (hs_reader hs)"

definition reader_ok :: "('c, 'p, 'a, 'k) history_reader_base \<Rightarrow> bool" where
  "reader_ok r \<longleftrightarrow>
     (\<forall>k. \<not> isl (hr_continuations r k)) \<and> (\<forall>k. \<not> isl (hr_data r k)) \<and> (\<forall>k. \<not> isl (hr_joins r k))"

definition state_ok :: "('c::linorder, 'p, 'a, 'k) hot_store_state \<Rightarrow> bool" where
  "state_ok st \<longleftrightarrow>
     btmap_ok (st_continuations st) \<and> btmap_ok (st_installed_continuations st) \<and> btmap_ok (st_data st) \<and>
     btmap_ok (st_joins st) \<and> btmap_ok (st_installed_joins st)"

definition cells_ok :: "('k, 'v option) btmap \<Rightarrow> ('k \<Rightarrow> failure + 'v) \<Rightarrow> bool" where
  "cells_ok cells reader \<longleftrightarrow> (\<forall>k v. bm_get cells k = Some (Some v) \<longrightarrow> reader k = Inr v)"

definition cache_ok ::
  "('c, 'p, 'a, 'k) history_store_cache \<Rightarrow> ('c, 'p, 'a, 'k) history_reader_base \<Rightarrow> bool" where
  "cache_ok c r \<longleftrightarrow>
     cells_ok (hc_continuations c) (hr_continuations r) \<and> cells_ok (hc_datums c) (hr_data r) \<and>
     cells_ok (hc_joins c) (hr_joins r)"

definition store_ok :: "('c::linorder, 'p, 'a, 'k) history_reader_base \<Rightarrow> ('c, 'p, 'a, 'k) in_mem_hot_store \<Rightarrow> bool" where
  "store_ok r hs \<longleftrightarrow> hs_reader hs = r \<and> reader_ok r \<and> state_ok (hs_state hs) \<and> cache_ok (hs_cache hs) r"

abbreviation store_implements where
  "store_implements r \<equiv> implements (store_ok r) store_view"

lemma get_or_try_init_ok:
  assumes "cells_ok cells reader" "\<not> isl (reader k)"
  shows "snd (get_or_try_init k (reader k) cells) = Inr (projr (reader k))"
    and "cells_ok (fst (get_or_try_init k (reader k) cells)) reader"
  using assms
  by (auto simp: get_or_try_init_def cells_ok_def bm_get_or_def isl_def split: option.splits sum.splits if_splits)

lemma history_conts:
  assumes "store_ok r hs"
  obtains hs' where "get_cont_from_history_store channels hs = (hs', Inr (projr (hr_continuations r channels)))"
    "hs_state hs' = hs_state hs" "store_ok r hs'"
  using assms get_or_try_init_ok [of "hc_continuations (hs_cache hs)" "hr_continuations r" channels]
  by (auto simp: get_cont_from_history_store_def split_beta store_ok_def cache_ok_def reader_ok_def)

lemma history_data:
  assumes "store_ok r hs"
  obtains hs' where "get_data_from_history_store channel hs = (hs', Inr (projr (hr_data r channel)))"
    "hs_state hs' = hs_state hs" "store_ok r hs'"
  using assms get_or_try_init_ok [of "hc_datums (hs_cache hs)" "hr_data r" channel]
  by (auto simp: get_data_from_history_store_def split_beta store_ok_def cache_ok_def reader_ok_def)

lemma history_joins:
  assumes "store_ok r hs"
  obtains hs' where "get_joins_from_history_store channel hs = (hs', Inr (projr (hr_joins r channel)))"
    "hs_state hs' = hs_state hs" "store_ok r hs'"
  using assms get_or_try_init_ok [of "hc_joins (hs_cache hs)" "hr_joins r" channel]
  by (auto simp: get_joins_from_history_store_def split_beta store_ok_def cache_ok_def reader_ok_def)

lemma overlaid_insert [simp]: "overlaid (bm_insert k v m) reader = (overlaid m reader)(k := v)"
  by (auto simp: overlaid_def fun_eq_iff)

lemma overlaid_entry [simp]:
  "overlaid (bm_entry k (projr (reader k)) f m) reader = (overlaid m reader)(k := f (overlaid m reader k))"
  by (auto simp: overlaid_def fun_eq_iff bm_get_or_def split: option.splits)

lemma overlaid_absent: "bm_get m k = None \<Longrightarrow> (overlaid m reader)(k := projr (reader k)) = overlaid m reader"
  by (auto simp: overlaid_def fun_eq_iff)

subsection \<open>What each operation does to the view\<close>

definition v_get_continuations ::
  "'c list \<Rightarrow> ('c, 'p, 'a, 'k) tuple_view \<Rightarrow> ('c, 'p, 'a, 'k) tuple_view \<times> ('p, 'k) waiting_continuation list" where
  "v_get_continuations channels v =
     (v, (case vw_installed v channels of None \<Rightarrow> [] | Some wc \<Rightarrow> [wc]) @ vw_continuations v channels)"

definition v_put_continuation ::
  "'c list \<Rightarrow> ('p, 'k) waiting_continuation \<Rightarrow> ('c, 'p, 'a, 'k) tuple_view \<Rightarrow> ('c, 'p, 'a, 'k) tuple_view \<times> unit" where
  "v_put_continuation channels wc v =
     (v\<lparr>vw_continuations := (vw_continuations v)(channels := wc # vw_continuations v channels)\<rparr>, ())"

definition v_install_continuation ::
  "'c list \<Rightarrow> ('p, 'k) waiting_continuation \<Rightarrow> ('c, 'p, 'a, 'k) tuple_view \<Rightarrow> ('c, 'p, 'a, 'k) tuple_view \<times> unit" where
  "v_install_continuation channels wc v = (v\<lparr>vw_installed := (vw_installed v)(channels \<mapsto> wc)\<rparr>, ())"

definition v_remove_continuation ::
  "'c list \<Rightarrow> nat \<Rightarrow> ('c, 'p, 'a, 'k) tuple_view \<Rightarrow> ('c, 'p, 'a, 'k) tuple_view \<times> unit" where
  "v_remove_continuation channels i v =
     (case vw_installed v channels of
        None \<Rightarrow> (v\<lparr>vw_continuations := (vw_continuations v)(channels := remove_index (vw_continuations v channels) i)\<rparr>, ())
      | Some _ \<Rightarrow>
          (case i of
             0 \<Rightarrow> (v, ())
           | Suc j \<Rightarrow> (v\<lparr>vw_continuations := (vw_continuations v)(channels := remove_index (vw_continuations v channels) j)\<rparr>, ())))"

definition v_get_data :: "'c \<Rightarrow> ('c, 'p, 'a, 'k) tuple_view \<Rightarrow> ('c, 'p, 'a, 'k) tuple_view \<times> 'a datum list" where
  "v_get_data c v = (v, vw_data v c)"

definition v_put_datum :: "'c \<Rightarrow> 'a datum \<Rightarrow> ('c, 'p, 'a, 'k) tuple_view \<Rightarrow> ('c, 'p, 'a, 'k) tuple_view \<times> unit" where
  "v_put_datum c d v = (v\<lparr>vw_data := (vw_data v)(c := d # vw_data v c)\<rparr>, ())"

definition v_remove_datum :: "'c \<Rightarrow> int \<Rightarrow> ('c, 'p, 'a, 'k) tuple_view \<Rightarrow> ('c, 'p, 'a, 'k) tuple_view \<times> unit" where
  "v_remove_datum c i v =
     (if 0 \<le> i then v\<lparr>vw_data := (vw_data v)(c := remove_index (vw_data v c) (nat i))\<rparr> else v, ())"

definition v_get_joins :: "'c \<Rightarrow> ('c, 'p, 'a, 'k) tuple_view \<Rightarrow> ('c, 'p, 'a, 'k) tuple_view \<times> 'c list list" where
  "v_get_joins c v = (v, vw_installed_joins v c @ vw_joins v c)"

definition v_put_join :: "'c \<Rightarrow> 'c list \<Rightarrow> ('c, 'p, 'a, 'k) tuple_view \<Rightarrow> ('c, 'p, 'a, 'k) tuple_view \<times> unit" where
  "v_put_join c join v = (v\<lparr>vw_joins := (vw_joins v)(c := List.insert join (vw_joins v c))\<rparr>, ())"

definition v_install_join :: "'c \<Rightarrow> 'c list \<Rightarrow> ('c, 'p, 'a, 'k) tuple_view \<Rightarrow> ('c, 'p, 'a, 'k) tuple_view \<times> unit" where
  "v_install_join c join v =
     (v\<lparr>vw_installed_joins := (vw_installed_joins v)(c := List.insert join (vw_installed_joins v c))\<rparr>, ())"

definition v_remove_join :: "'c \<Rightarrow> 'c list \<Rightarrow> ('c, 'p, 'a, 'k) tuple_view \<Rightarrow> ('c, 'p, 'a, 'k) tuple_view \<times> unit" where
  "v_remove_join c join v = (v\<lparr>vw_joins := (vw_joins v)(c := remove1 join (vw_joins v c))\<rparr>, ())"

lemmas view_specs =
  v_get_continuations_def v_put_continuation_def v_install_continuation_def v_remove_continuation_def
  v_get_data_def v_put_datum_def v_remove_datum_def
  v_get_joins_def v_put_join_def v_install_join_def v_remove_join_def

lemma remove_index_beyond [simp]: "length xs \<le> i \<Longrightarrow> remove_index xs i = xs"
  by (simp add: remove_index_def)

lemma remove_index_guarded [simp]: "(if i < length xs then remove_index xs i else xs) = remove_index xs i"
  by simp

lemma implements_after_history:
  assumes "\<And>hs. store_ok r hs \<Longrightarrow> \<exists>hs'. m hs = (hs', Inr x) \<and> hs_state hs' = hs_state hs \<and> store_ok r hs'"
    and "\<And>hs. store_ok r hs \<Longrightarrow>
      \<exists>hs'. k x hs = (hs', Inr (snd (f (store_view hs)))) \<and> store_ok r hs' \<and> store_view hs' = fst (f (store_view hs))"
  shows "store_implements r (and_then m k) f"
  unfolding implements_def
proof (intro allI impI)
  fix hs assume "store_ok r hs"
  with assms(1) obtain hs' where 1: "m hs = (hs', Inr x)" "hs_state hs' = hs_state hs" "store_ok r hs'" by blast
  moreover have "store_view hs' = store_view hs"
    using 1 \<open>store_ok r hs\<close> by (simp add: store_view_def store_ok_def)
  ultimately show "\<exists>hs''. and_then m k hs = (hs'', Inr (snd (f (store_view hs)))) \<and> store_ok r hs'' \<and>
      store_view hs'' = fst (f (store_view hs))"
    using assms(2) [OF 1(3)] by simp
qed

lemma installed_first_view:
  "installed_first st channels conts =
     (case bm_get (st_installed_continuations st) channels of None \<Rightarrow> [] | Some wc \<Rightarrow> [wc]) @ conts"
  by (simp add: installed_first_def split: option.split)

lemmas store_simps = store_ok_def state_ok_def store_view_def view_over_def Let_def

lemma after_conts:
  assumes "\<And>hs. store_ok r hs \<Longrightarrow>
      \<exists>hs'. k (projr (hr_continuations r channels)) hs = (hs', Inr (snd (f (store_view hs)))) \<and> store_ok r hs' \<and>
        store_view hs' = fst (f (store_view hs))"
  shows "store_implements r (and_then (get_cont_from_history_store channels) k) f"
  by (rule implements_after_history [where x = "projr (hr_continuations r channels)"]) (metis history_conts, rule assms)

lemma after_data:
  assumes "\<And>hs. store_ok r hs \<Longrightarrow>
      \<exists>hs'. k (projr (hr_data r channel)) hs = (hs', Inr (snd (f (store_view hs)))) \<and> store_ok r hs' \<and>
        store_view hs' = fst (f (store_view hs))"
  shows "store_implements r (and_then (get_data_from_history_store channel) k) f"
  by (rule implements_after_history [where x = "projr (hr_data r channel)"]) (metis history_data, rule assms)

lemma after_joins:
  assumes "\<And>hs. store_ok r hs \<Longrightarrow>
      \<exists>hs'. k (projr (hr_joins r channel)) hs = (hs', Inr (snd (f (store_view hs)))) \<and> store_ok r hs' \<and>
        store_view hs' = fst (f (store_view hs))"
  shows "store_implements r (and_then (get_joins_from_history_store channel) k) f"
  by (rule implements_after_history [where x = "projr (hr_joins r channel)"]) (metis history_joins, rule assms)

lemma get_continuations_view: "store_implements r (get_continuations channels) (v_get_continuations channels)"
  unfolding get_continuations_def
  by (rule after_conts)
    (auto simp: store_simps installed_first_view v_get_continuations_def overlaid_absent overlaid_def [of _ _ channels]
      split: option.splits)

lemma put_continuation_view:
  "store_implements r (put_continuation channels wc) (v_put_continuation channels wc)"
  unfolding put_continuation_def by (rule after_conts) (auto simp: store_simps v_put_continuation_def)

lemma install_continuation_view:
  "store_implements r (install_continuation channels wc) (v_install_continuation channels wc)"
  by (simp add: implements_def install_continuation_def v_install_continuation_def store_simps)

lemma remove_continuation_view:
  "store_implements r (remove_continuation channels i) (v_remove_continuation channels i)"
  unfolding remove_continuation_def
  by (rule after_conts)
    (auto simp: store_simps v_remove_continuation_def remove_index_guarded split: option.splits nat.splits)

lemma get_data_view: "store_implements r (get_data channel) (v_get_data channel)"
  unfolding get_data_def
  by (rule after_data)
    (auto simp: store_simps v_get_data_def overlaid_absent overlaid_def [of _ _ channel] split: option.splits)

lemma put_datum_view: "store_implements r (put_datum channel d) (v_put_datum channel d)"
  unfolding put_datum_def by (rule after_data) (auto simp: store_simps v_put_datum_def)

lemma remove_datum_view: "store_implements r (remove_datum channel i) (v_remove_datum channel i)"
  unfolding remove_datum_def by (rule after_data) (auto simp: store_simps v_remove_datum_def)

lemma get_joins_view: "store_implements r (get_joins channel) (v_get_joins channel)"
  unfolding get_joins_def
  by (rule after_joins)
    (auto simp: store_simps v_get_joins_def overlaid_absent overlaid_def [of _ _ channel] split: option.splits)

lemma put_join_view: "store_implements r (put_join channel join) (v_put_join channel join)"
  unfolding put_join_def by (rule after_joins) (auto simp: store_simps v_put_join_def List.insert_def)

lemma install_join_view: "store_implements r (install_join channel join) (v_install_join channel join)"
  by (auto simp: implements_def install_join_def v_install_join_def store_simps List.insert_def fun_eq_iff)

lemma remove_join_view: "store_implements r (remove_join channel join) (v_remove_join channel join)"
  unfolding remove_join_def by (rule after_joins) (auto simp: store_simps v_remove_join_def)

subsection \<open>A store that has just been created\<close>

lemma hot_store_new_ok: "reader_ok r \<Longrightarrow> store_ok r (hot_store_new r)"
  by (simp add: store_ok_def hot_store_new_def state_ok_def hot_store_state_default_def cache_ok_def
      cells_ok_def history_store_cache_default_def)

lemma hot_store_from_state_ok: "reader_ok r \<Longrightarrow> state_ok st \<Longrightarrow> store_ok r (hot_store_from_state st r)"
  by (simp add: store_ok_def hot_store_from_state_def cache_ok_def cells_ok_def history_store_cache_default_def)

lemma hot_store_from_state_view [simp]: "store_view (hot_store_from_state st r) = view_over st r"
  by (simp add: store_view_def hot_store_from_state_def)

lemma hot_store_new_from_state: "hot_store_new r = hot_store_from_state hot_store_state_default r"
  by (simp add: hot_store_new_def hot_store_from_state_def)

section \<open>Changes\<close>

text \<open>What an action does to the committed lists.\<close>

fun apply_hot_action :: "('c, 'p, 'a, 'k) hot_store_action \<Rightarrow> ('c, 'p, 'a, 'k) tuple_view \<Rightarrow> ('c, 'p, 'a, 'k) tuple_view" where
  "apply_hot_action (InsertData c ds) v = v\<lparr>vw_data := (vw_data v)(c := ds)\<rparr>"
| "apply_hot_action (InsertJoins c js) v = v\<lparr>vw_joins := (vw_joins v)(c := js)\<rparr>"
| "apply_hot_action (InsertContinuations cs ks) v = v\<lparr>vw_continuations := (vw_continuations v)(cs := ks)\<rparr>"
| "apply_hot_action (DeleteData c) v = v\<lparr>vw_data := (vw_data v)(c := [])\<rparr>"
| "apply_hot_action (DeleteJoins c) v = v\<lparr>vw_joins := (vw_joins v)(c := [])\<rparr>"
| "apply_hot_action (DeleteContinuations cs) v = v\<lparr>vw_continuations := (vw_continuations v)(cs := [])\<rparr>"

definition history_view :: "('c, 'p, 'a, 'k) history_reader_base \<Rightarrow> ('c, 'p, 'a, 'k) tuple_view" where
  "history_view r = view_over hot_store_state_default r"

text \<open>The part of a view that a checkpoint keeps: everything but what is installed.\<close>

definition uninstalled :: "('c, 'p, 'a, 'k) tuple_view \<Rightarrow> ('c, 'p, 'a, 'k) tuple_view" where
  "uninstalled v = v\<lparr>vw_installed := Map.empty, vw_installed_joins := (\<lambda>_. [])\<rparr>"

lemma overlaid_as_updates:
  "distinct (map fst m) \<Longrightarrow> overlaid m reader = fold (\<lambda>(k, v) f. f(k := v)) m (overlaid [] reader)"
proof (induction m rule: rev_induct)
  case (snoc e m)
  obtain k v where e: "e = (k, v)" by fastforce
  have "bm_get m k = None" using snoc.prems e by (simp add: map_of_eq_None_iff)
  then have "overlaid (m @ [(k, v)]) reader = (overlaid m reader)(k := v)"
    by (auto simp: overlaid_def fun_eq_iff map_add_def split: option.splits)
  then show ?case using snoc e by simp
qed simp

lemma fold_continuation_actions:
  "fold apply_hot_action (map (\<lambda>(k, v). if v = [] then DeleteContinuations k else InsertContinuations k v) m) w =
     w\<lparr>vw_continuations := fold (\<lambda>(k, v) f. f(k := v)) m (vw_continuations w)\<rparr>"
  by (induction m arbitrary: w) auto

lemma fold_data_actions:
  "fold apply_hot_action (map (\<lambda>(k, v). if v = [] then DeleteData k else InsertData k v) m) w =
     w\<lparr>vw_data := fold (\<lambda>(k, v) f. f(k := v)) m (vw_data w)\<rparr>"
  by (induction m arbitrary: w) auto

lemma fold_join_actions:
  "fold apply_hot_action (map (\<lambda>(k, v). if v = [] then DeleteJoins k else InsertJoins k v) m) w =
     w\<lparr>vw_joins := fold (\<lambda>(k, v) f. f(k := v)) m (vw_joins w)\<rparr>"
  by (induction m arbitrary: w) auto

lemma changes_reach_view:
  assumes "store_ok r hs"
  shows "fold apply_hot_action (changes hs) (history_view r) = uninstalled (store_view hs)"
proof -
  have d: "distinct (map fst (st_continuations (hs_state hs)))" "distinct (map fst (st_data (hs_state hs)))"
    "distinct (map fst (st_joins (hs_state hs)))" and r: "hs_reader hs = r"
    using assms by (simp_all add: store_ok_def state_ok_def btmap_ok_iff)
  show ?thesis
    by (simp add: changes_def Let_def fold_continuation_actions fold_data_actions fold_join_actions history_view_def
        view_over_def uninstalled_def store_view_def r hot_store_state_default_def fun_eq_iff
        overlaid_as_updates [OF d(1)] overlaid_as_updates [OF d(2)] overlaid_as_updates [OF d(3)])
qed

section \<open>Rows\<close>

lemma bm_get_fold_entry:
  assumes "distinct (map fst es)" "inj g"
  shows "bm_get (fold (\<lambda>(k, v). bm_entry (g k) d (f v)) es m) x =
    (case map_of (map (\<lambda>(k, v). (g k, v)) es) x of
       None \<Rightarrow> bm_get m x | Some v \<Rightarrow> Some (f v (bm_get_or d m x)))"
  using assms(1)
proof (induction es arbitrary: m)
  case (Cons e es)
  obtain k v where e: "e = (k, v)" by fastforce
  have "map_of (map (\<lambda>(k, v). (g k, v)) es) (g k) = None"
    using Cons.prems e assms(2) by (force simp: map_of_eq_None_iff inj_eq)
  then show ?case using Cons e by (auto simp: bm_get_or_def split: option.splits)
qed simp

definition row_of :: "('c::linorder, 'p, 'a, 'k) hot_store_state \<Rightarrow> 'c list \<Rightarrow> ('p, 'a, 'k) row" where
  "row_of st channels =
     \<lparr>row_data = (case channels of [c] \<Rightarrow> bm_get_or [] (st_data st) c | _ \<Rightarrow> []),
      row_wks = installed_first st channels (bm_get_or [] (st_continuations st) channels)\<rparr>"

lemma map_of_singletons: "map_of (map (\<lambda>(k, v). ([k], v)) es) x = (case x of [c] \<Rightarrow> map_of es c | _ \<Rightarrow> None)"
  by (induction es) (auto split: list.splits)

lemma bm_get_filter_row:
  "distinct (map fst m) \<Longrightarrow>
     bm_get (filter (\<lambda>(k, r). P r) m) x = (case bm_get m x of None \<Rightarrow> None | Some r \<Rightarrow> if P r then Some r else None)"
proof (induction m)
  case (Cons e m)
  obtain k v where e: "e = (k, v)" by fastforce
  have "bm_get m k = None" using Cons.prems e by (simp add: map_of_eq_None_iff)
  then show ?case using Cons e by auto
qed simp

lemma btmap_ok_fold_entry: "btmap_ok m \<Longrightarrow> btmap_ok (fold (\<lambda>(k, v). bm_entry (g k) d (f v)) es m)"
  by (induction es arbitrary: m) auto

lemma row_default_iff: "r = row_default \<longleftrightarrow> row_data r = [] \<and> row_wks r = []"
  by (cases r) (simp add: row_default_def)

lemma to_map_rows:
  assumes ok: "state_ok (hs_state hs)"
  shows "bm_get (to_map hs) channels =
    (let r = row_of (hs_state hs) channels in if r = row_default then None else Some r)"
proof -
  let ?st = "hs_state hs"
  let ?m1 = "fold (\<lambda>(k, v). bm_entry [k] row_default (\<lambda>r. r\<lparr>row_data := v\<rparr>)) (st_data ?st) []"
  let ?m2 = "fold (\<lambda>(k, v). bm_entry k row_default (\<lambda>r. r\<lparr>row_wks := row_wks r @ v\<rparr>)) (st_continuations ?st) ?m1"
  let ?m3 = "fold (\<lambda>(k, v). bm_entry k row_default (\<lambda>r. r\<lparr>row_wks := v # row_wks r\<rparr>)) (st_installed_continuations ?st) ?m2"
  have d: "distinct (map fst (st_data ?st))" "distinct (map fst (st_continuations ?st))"
    "distinct (map fst (st_installed_continuations ?st))"
    using ok by (simp_all add: state_ok_def btmap_ok_iff)
  have "btmap_ok ?m3"
    by (intro btmap_ok_fold_entry [where g = "\<lambda>k. k"] btmap_ok_fold_entry [where g = "\<lambda>k. [k]"]) simp
  then have "distinct (map fst ?m3)" by (simp add: btmap_ok_iff)
  note m3 = bm_get_fold_entry [where g = "\<lambda>k. k", OF d(3)] and m2 = bm_get_fold_entry [where g = "\<lambda>k. k", OF d(2)]
    and m1 = bm_get_fold_entry [where g = "\<lambda>k. [k]", OF d(1)]
  show ?thesis
    unfolding to_map_def Let_def
    by (subst bm_get_filter_row [OF \<open>distinct (map fst ?m3)\<close>, of "\<lambda>r. \<not> (row_data r = [] \<and> row_wks r = [])"])
      (auto simp: m3 m2 m1 map_of_singletons inj_def bm_get_or_def row_of_def installed_first_def row_default_iff
        split: option.splits list.splits, simp_all add: row_default_def)
qed

end
