(* ===== verification/Native_Store.thy ===== *)
theory Native_Store
  imports Refined
begin

text \<open>
  The store of the native system contracts (\<^verbatim>\<open>rspace/src/native_store.rs\<close>): an overlay of written values
  and tombstones over a reader of the committed state. \<open>native_view\<close> is what a read returns; writes and
  deletions update it at one key, and the drained actions carry the committed state to it.
\<close>

definition PREFIX_REGISTRY :: byte where "PREFIX_REGISTRY = 3"
definition PREFIX_POS :: byte where "PREFIX_POS = 4"
definition PREFIX_VAULT :: byte where "PREFIX_VAULT = 5"

datatype native_store_action = NativePut byte hash32 bytes | NativeDelete byte hash32

type_synonym 'e native_reader = "byte \<Rightarrow> hash32 \<Rightarrow> 'e + bytes option"

definition noop_native_reader :: "'e native_reader" where
  "noop_native_reader prefix key = Inr None"

type_synonym native_store_state = "(byte \<times> hash32, bytes option) btmap"

record 'e native_store =
  ns_overlay :: native_store_state
  ns_reader :: "'e native_reader"

definition native_new :: "'e native_reader \<Rightarrow> 'e native_store" where
  "native_new reader = \<lparr>ns_overlay = [], ns_reader = reader\<rparr>"

definition native_empty :: "'e native_store" where
  "native_empty = native_new noop_native_reader"

definition native_get :: "'e native_store \<Rightarrow> byte \<Rightarrow> hash32 \<Rightarrow> 'e + bytes option" where
  "native_get s prefix key =
     (case bm_get (ns_overlay s) (prefix, key) of Some v \<Rightarrow> Inr v | None \<Rightarrow> ns_reader s prefix key)"

definition native_put :: "byte \<Rightarrow> hash32 \<Rightarrow> bytes \<Rightarrow> 'e native_store \<Rightarrow> 'e native_store" where
  "native_put prefix key v s = s\<lparr>ns_overlay := bm_insert (prefix, key) (Some v) (ns_overlay s)\<rparr>"

definition native_delete :: "byte \<Rightarrow> hash32 \<Rightarrow> 'e native_store \<Rightarrow> 'e native_store" where
  "native_delete prefix key s = s\<lparr>ns_overlay := bm_insert (prefix, key) None (ns_overlay s)\<rparr>"

definition drain_changes :: "'e native_store \<Rightarrow> 'e native_store \<times> native_store_action list" where
  "drain_changes s =
     (s\<lparr>ns_overlay := []\<rparr>,
      map (\<lambda>((prefix, key), v). case v of Some b \<Rightarrow> NativePut prefix key b | None \<Rightarrow> NativeDelete prefix key) (ns_overlay s))"

definition native_snapshot :: "'e native_store \<Rightarrow> native_store_state" where
  "native_snapshot s = ns_overlay s"

definition native_revert :: "native_store_state \<Rightarrow> 'e native_store \<Rightarrow> 'e native_store" where
  "native_revert st s = s\<lparr>ns_overlay := st\<rparr>"

definition set_reader :: "'e native_reader \<Rightarrow> 'e native_store \<Rightarrow> 'e native_store" where
  "set_reader reader s = s\<lparr>ns_reader := reader\<rparr>"

section \<open>What a store holds\<close>

fun apply_native :: "native_store_action \<Rightarrow> 'e native_reader \<Rightarrow> 'e native_reader" where
  "apply_native (NativePut prefix key v) f = f(prefix := (f prefix)(key := Inr (Some v)))"
| "apply_native (NativeDelete prefix key) f = f(prefix := (f prefix)(key := Inr None))"

lemma native_get_put:
  "native_get (native_put p k v s) q l = (if (q, l) = (p, k) then Inr (Some v) else native_get s q l)"
  by (simp add: native_get_def native_put_def split: option.split)

lemma native_get_delete:
  "native_get (native_delete p k s) q l = (if (q, l) = (p, k) then Inr None else native_get s q l)"
  by (simp add: native_get_def native_delete_def split: option.split)

lemma native_revert_snapshot: "native_revert (native_snapshot s) s' = s'\<lparr>ns_overlay := ns_overlay s\<rparr>"
  by (simp add: native_revert_def native_snapshot_def)

lemma fold_native_actions:
  "distinct (map fst m) \<Longrightarrow>
     fold apply_native
       (map (\<lambda>((p, k), v). case v of Some b \<Rightarrow> NativePut p k b | None \<Rightarrow> NativeDelete p k) m) f q l =
     (case bm_get m (q, l) of Some v \<Rightarrow> Inr v | None \<Rightarrow> f q l)"
proof (induction m arbitrary: f)
  case (Cons e m)
  obtain p k v where e: "e = ((p, k), v)" by (metis prod.collapse)
  have "bm_get m (p, k) = None" using Cons.prems e by (simp add: map_of_eq_None_iff)
  then show ?case using Cons e by (auto split: option.splits)
qed simp

lemma drained_actions:
  assumes "btmap_ok (ns_overlay s)"
  shows "fold apply_native (snd (drain_changes s)) (ns_reader s) q l = native_get s q l"
  using assms by (simp add: drain_changes_def native_get_def fold_native_actions btmap_ok_iff)

lemma native_ok:
  "btmap_ok (ns_overlay (native_new r))"
  "btmap_ok (ns_overlay s) \<Longrightarrow> btmap_ok (ns_overlay (native_put p k v s))"
  "btmap_ok (ns_overlay s) \<Longrightarrow> btmap_ok (ns_overlay (native_delete p k s))"
  "btmap_ok (ns_overlay (fst (drain_changes s)))"
  by (simp_all add: native_new_def native_put_def native_delete_def drain_changes_def)

end
