(* ===== verification/Matcher.thy ===== *)
theory Matcher
  imports Tuple_Types
begin

text \<open>
  The search for matching data (\<^verbatim>\<open>rspace/src/space_matcher.rs\<close>). The \<^verbatim>\<open>Match\<close> instance, which says whether
  a datum matches a pattern and what the match yields, is the parameter \<open>m\<close>.
\<close>

type_synonym 'a indexed = "('a datum \<times> int) list"

text \<open>
  The loop of \<^verbatim>\<open>find_matching_data_candidate\<close>: \<open>prefix\<close> holds the data passed over, last one first.
\<close>

fun find_loop ::
  "'c \<Rightarrow> 'a indexed \<Rightarrow> 'p \<Rightarrow> ('p \<Rightarrow> 'a \<Rightarrow> 'a option) \<Rightarrow> 'a indexed \<Rightarrow> 'a indexed \<Rightarrow>
   (('c, 'a) consume_candidate \<times> 'a indexed) option" where
  "find_loop channel data pattern m prefix [] = None"
| "find_loop channel data pattern m prefix ((d, data_index) # rest) =
     (case m pattern (dt_a d) of
        None \<Rightarrow> find_loop channel data pattern m ((d, data_index) # prefix) rest
      | Some mat \<Rightarrow>
          Some (\<lparr>cc_channel = channel,
                 cc_datum = \<lparr>dt_a = mat, dt_persist = dt_persist d, dt_source = dt_source d\<rparr>,
                 cc_removed_datum = dt_a d, cc_datum_index = data_index\<rparr>,
                if dt_persist d then data else prefix @ rest))"

definition find_matching_data_candidate ::
  "'c \<Rightarrow> 'a indexed \<Rightarrow> 'p \<Rightarrow> ('p \<Rightarrow> 'a \<Rightarrow> 'a option) \<Rightarrow> (('c, 'a) consume_candidate \<times> 'a indexed) option" where
  "find_matching_data_candidate channel data pattern m = find_loop channel data pattern m [] data"

fun extract_data_candidates ::
  "('c::linorder \<times> 'p) list \<Rightarrow> ('c, 'a indexed) btmap \<Rightarrow> ('p \<Rightarrow> 'a \<Rightarrow> 'a option) \<Rightarrow>
   ('c, 'a) consume_candidate option list" where
  "extract_data_candidates [] mp m = []"
| "extract_data_candidates ((channel, pattern) # rest) mp m =
     (case (case bm_get mp channel of
              Some indexed_data \<Rightarrow> find_matching_data_candidate channel indexed_data pattern m
            | None \<Rightarrow> None) of
        Some (candidate, rm) \<Rightarrow> Some candidate # extract_data_candidates rest (bm_insert channel rm mp) m
      | None \<Rightarrow> None # extract_data_candidates rest mp m)"

text \<open>The continuations are tried in the order of their consume hashes.\<close>

fun first_match_loop ::
  "'c::linorder list \<Rightarrow> (('p, 'k) waiting_continuation \<times> nat) list \<Rightarrow> ('c, 'a indexed) btmap \<Rightarrow>
   ('p \<Rightarrow> 'a \<Rightarrow> 'a option) \<Rightarrow> ('c, 'p, 'a, 'k) produce_candidate option" where
  "first_match_loop channels [] mp m = None"
| "first_match_loop channels ((wc, index) # rest) mp m =
     (let data_candidates = extract_data_candidates (zip channels (wc_patterns wc)) mp m in
      if \<forall>c \<in> set data_candidates. c \<noteq> None
      then Some \<lparr>pc_channels = channels, pc_continuation = wc, pc_continuation_index = index,
                 pc_data_candidates = map the data_candidates\<rparr>
      else first_match_loop channels rest mp m)"

definition extract_first_match ::
  "'c::linorder list \<Rightarrow> (('p, 'k) waiting_continuation \<times> nat) list \<Rightarrow> ('c, 'a indexed) btmap \<Rightarrow>
   ('p \<Rightarrow> 'a \<Rightarrow> 'a option) \<Rightarrow> ('c, 'p, 'a, 'k) produce_candidate option" where
  "extract_first_match channels match_candidates mp m =
     first_match_loop channels (sort_key (\<lambda>(wc, i). cs_hash (wc_source wc)) match_candidates) mp m"

section \<open>What a candidate says\<close>

text \<open>A candidate drawn from an indexed list for a pattern.\<close>

definition candidate_from ::
  "('p \<Rightarrow> 'a \<Rightarrow> 'a option) \<Rightarrow> 'p \<Rightarrow> 'c \<Rightarrow> 'a datum \<times> int \<Rightarrow> ('c, 'a) consume_candidate \<Rightarrow> bool" where
  "candidate_from m p ch e c \<longleftrightarrow>
     cc_channel c = ch \<and> cc_removed_datum c = dt_a (fst e) \<and> cc_datum_index c = snd e \<and>
     m p (dt_a (fst e)) = Some (dt_a (cc_datum c)) \<and> dt_persist (cc_datum c) = dt_persist (fst e) \<and>
     dt_source (cc_datum c) = dt_source (fst e)"

lemma find_loop_Some:
  assumes "find_loop ch data p m pre rest = Some (c, rm)"
  shows "\<exists>xs e ys. rest = xs @ e # ys \<and> (\<forall>x \<in> set xs. m p (dt_a (fst x)) = None) \<and> candidate_from m p ch e c \<and>
    rm = (if dt_persist (fst e) then data else rev xs @ pre @ ys)"
  using assms
proof (induction ch data p m pre rest rule: find_loop.induct)
  case (2 ch data p m pre d i rest)
  show ?case
  proof (cases "m p (dt_a d)")
    case None
    then obtain xs e ys where "rest = xs @ e # ys" "\<forall>x \<in> set xs. m p (dt_a (fst x)) = None" "candidate_from m p ch e c"
      "rm = (if dt_persist (fst e) then data else rev xs @ ((d, i) # pre) @ ys)"
      using 2 by auto
    then show ?thesis using None by (intro exI [of _ "(d, i) # xs"] exI [of _ e] exI [of _ ys]) simp
  next
    case (Some v)
    then show ?thesis
      using "2.prems" by (intro exI [of _ "[]"] exI [of _ "(d, i)"] exI [of _ rest]) (auto simp: candidate_from_def)
  qed
qed simp

lemma find_loop_None: "find_loop ch data p m pre rest = None \<longleftrightarrow> (\<forall>x \<in> set rest. m p (dt_a (fst x)) = None)"
  by (induction ch data p m pre rest rule: find_loop.induct) (auto split: option.splits)

lemma find_Some:
  assumes "find_matching_data_candidate ch data p m = Some (c, rm)"
  obtains xs e ys where "data = xs @ e # ys" "\<forall>x \<in> set xs. m p (dt_a (fst x)) = None" "candidate_from m p ch e c"
    "rm = (if dt_persist (fst e) then data else rev xs @ ys)"
  using find_loop_Some [OF assms [unfolded find_matching_data_candidate_def]] by auto

lemma find_None:
  "find_matching_data_candidate ch data p m = None \<longleftrightarrow> (\<forall>x \<in> set data. m p (dt_a (fst x)) = None)"
  by (simp add: find_matching_data_candidate_def find_loop_None)

lemma find_Some_mem:
  assumes "find_matching_data_candidate ch data p m = Some (c, rm)"
  obtains e where "e \<in> set data" "candidate_from m p ch e c" "set rm \<subseteq> set data"
  using assms by (elim find_Some) (auto split: if_splits)

lemma extract_length [simp]: "length (extract_data_candidates pairs mp m) = length pairs"
  by (induction pairs mp m rule: extract_data_candidates.induct) (auto split: option.splits prod.splits)

lemma extract_Cons:
  assumes "extract_data_candidates ((ch, p) # pairs) mp m = map Some cs"
  obtains data c rm cs' where "bm_get mp ch = Some data" "find_matching_data_candidate ch data p m = Some (c, rm)"
    "cs = c # cs'" "extract_data_candidates pairs (bm_insert ch rm mp) m = map Some cs'"
  using assms by (auto split: option.splits prod.splits simp: Cons_eq_map_conv)

text \<open>Every candidate is a datum of its channel that its pattern matches.\<close>

lemma extract_sound:
  assumes "extract_data_candidates pairs mp m = map Some cs"
  shows "list_all2 (\<lambda>(ch, p) c. \<exists>data. bm_get mp ch = Some data \<and> (\<exists>e \<in> set data. candidate_from m p ch e c)) pairs cs"
  using assms
proof (induction pairs arbitrary: mp cs)
  case (Cons pair pairs)
  obtain ch p where pair: "pair = (ch, p)" by fastforce
  obtain data c rm cs' where 1: "bm_get mp ch = Some data" "find_matching_data_candidate ch data p m = Some (c, rm)"
    "cs = c # cs'" "extract_data_candidates pairs (bm_insert ch rm mp) m = map Some cs'"
    using Cons.prems unfolding pair by (rule extract_Cons)
  obtain e where e: "e \<in> set data" "candidate_from m p ch e c" "set rm \<subseteq> set data" using 1(2) by (rule find_Some_mem)
  have "list_all2 (\<lambda>(ch, p) c. \<exists>data. bm_get mp ch = Some data \<and> (\<exists>e \<in> set data. candidate_from m p ch e c)) pairs cs'"
    by (rule list_all2_mono [OF Cons.IH [OF 1(4)]]) (use 1(1) e(3) in \<open>fastforce split: if_splits\<close>)
  then show ?case using 1 e pair by auto
qed simp

text \<open>The indices of the data a match takes from a channel.\<close>

definition taken :: "('c, 'a) consume_candidate list \<Rightarrow> 'c \<Rightarrow> int list" where
  "taken cs ch = map cc_datum_index (filter (\<lambda>c. cc_channel c = ch \<and> \<not> dt_persist (cc_datum c)) cs)"

lemma taken_simps [simp]:
  "taken [] ch = []"
  "taken (c # cs) ch =
     (if cc_channel c = ch \<and> \<not> dt_persist (cc_datum c) then cc_datum_index c # taken cs ch else taken cs ch)"
  by (simp_all add: taken_def)

definition indices_ok :: "('c, 'a indexed) btmap \<Rightarrow> bool" where
  "indices_ok mp \<longleftrightarrow> (\<forall>ch data. bm_get mp ch = Some data \<longrightarrow> distinct (map snd data))"

lemma extract_taken:
  assumes "extract_data_candidates pairs mp m = map Some cs" "indices_ok mp"
  shows "distinct (taken cs ch) \<and> set (taken cs ch) \<subseteq> snd ` set (bm_get_or [] mp ch)"
  using assms
proof (induction pairs arbitrary: mp cs)
  case Nil
  then show ?case by simp
next
  case (Cons pair pairs)
  obtain d p where pair: "pair = (d, p)" by fastforce
  obtain data c rm cs' where 1: "bm_get mp d = Some data" "find_matching_data_candidate d data p m = Some (c, rm)"
    "cs = c # cs'" "extract_data_candidates pairs (bm_insert d rm mp) m = map Some cs'"
    using Cons.prems(1) unfolding pair by (rule extract_Cons)
  obtain xs e ys where f: "data = xs @ e # ys" "candidate_from m p d e c"
    "rm = (if dt_persist (fst e) then data else rev xs @ ys)"
    using 1(2) by (rule find_Some)
  have dd: "distinct (map snd data)" using Cons.prems(2) 1(1) by (simp add: indices_ok_def)
  then have rm: "distinct (map snd rm)" "set rm \<subseteq> set data" "\<not> dt_persist (fst e) \<Longrightarrow> snd e \<notin> snd ` set rm"
    using f(1,3) by (auto simp: rev_map [symmetric])
  have "indices_ok (bm_insert d rm mp)" using Cons.prems(2) rm(1) by (simp add: indices_ok_def)
  then have IH: "distinct (taken cs' ch)" "set (taken cs' ch) \<subseteq> snd ` set (bm_get_or [] (bm_insert d rm mp) ch)"
    using Cons.IH [OF 1(4)] by simp_all
  have c: "cc_channel c = d" "dt_persist (cc_datum c) = dt_persist (fst e)" "cc_datum_index c = snd e" "snd e \<in> snd ` set data"
    using f(1,2) by (auto simp: candidate_from_def)
  show ?case
  proof (cases "ch = d")
    case True
    have "set (taken cs' ch) \<subseteq> snd ` set rm" using IH(2) True by simp
    moreover have "snd ` set rm \<subseteq> snd ` set data" using rm(2) by blast
    ultimately show ?thesis
      using IH(1) rm(3) c True 1(1,3) by (auto simp: bm_get_or_def)
  next
    case False
    then show ?thesis using IH c 1(3) by simp
  qed
qed

section \<open>A match that exists is found\<close>

text \<open>On distinct channels each pattern is tried against the data of its own channel.\<close>

lemma extract_distinct:
  assumes "distinct (map fst pairs)"
  shows "(\<forall>c \<in> set (extract_data_candidates pairs mp m). c \<noteq> None) \<longleftrightarrow>
    (\<forall>q \<in> set pairs. \<exists>x \<in> set (bm_get_or [] mp (fst q)). m (snd q) (dt_a (fst x)) \<noteq> None)"
  using assms
proof (induction pairs arbitrary: mp)
  case (Cons pair pairs)
  obtain ch p where pair: "pair = (ch, p)" by fastforce
  have other: "bm_get_or [] (bm_insert ch rm mp) (fst q) = bm_get_or [] mp (fst q)" if "q \<in> set pairs" for q rm
    using Cons.prems pair that by (auto simp: bm_get_or_def)
  show ?case
  proof (cases "bm_get mp ch")
    case None
    then show ?thesis using pair by (simp add: bm_get_or_def)
  next
    case (Some data)
    show ?thesis
    proof (cases "find_matching_data_candidate ch data p m")
      case None
      then have "\<not> (\<exists>x \<in> set (bm_get_or [] mp ch). m p (dt_a (fst x)) \<noteq> None)"
        using Some by (simp add: find_None bm_get_or_def)
      then have "\<not> (\<forall>q \<in> set (pair # pairs). \<exists>x \<in> set (bm_get_or [] mp (fst q)). m (snd q) (dt_a (fst x)) \<noteq> None)"
        unfolding pair list.set ball_simps(7) fst_conv snd_conv by blast
      moreover have "extract_data_candidates (pair # pairs) mp m = None # extract_data_candidates pairs mp m"
        using pair Some None by simp
      ultimately show ?thesis by (metis list.set_intros(1))
    next
      case (Some cr)
      let ?mp = "bm_insert ch (snd cr) mp"
      let ?E = "extract_data_candidates pairs ?mp m"
      have hd: "\<exists>x \<in> set (bm_get_or [] mp ch). m p (dt_a (fst x)) \<noteq> None"
        using Some find_None [of ch data p m] \<open>bm_get mp ch = Some data\<close> by (auto simp: bm_get_or_def)
      have "extract_data_candidates (pair # pairs) mp m = Some (fst cr) # ?E"
        using pair Some \<open>bm_get mp ch = Some data\<close> by (simp add: split_beta)
      then have "(\<forall>c \<in> set (extract_data_candidates (pair # pairs) mp m). c \<noteq> None) \<longleftrightarrow> (\<forall>c \<in> set ?E. c \<noteq> None)"
        by (simp only: list.set ball_simps(7) option.distinct not_False_eq_True simp_thms)
      also have "\<dots> \<longleftrightarrow> (\<forall>q \<in> set pairs. \<exists>x \<in> set (bm_get_or [] ?mp (fst q)). m (snd q) (dt_a (fst x)) \<noteq> None)"
        using Cons.prems by (intro Cons.IH) simp
      also have "\<dots> \<longleftrightarrow> (\<forall>q \<in> set pairs. \<exists>x \<in> set (bm_get_or [] mp (fst q)). m (snd q) (dt_a (fst x)) \<noteq> None)"
        using other by simp
      also have "\<dots> \<longleftrightarrow> (\<forall>q \<in> set (pair # pairs). \<exists>x \<in> set (bm_get_or [] mp (fst q)). m (snd q) (dt_a (fst x)) \<noteq> None)"
        using hd unfolding pair list.set ball_simps(7) fst_conv snd_conv by blast
      finally show ?thesis .
    qed
  qed
qed simp

lemma first_match_skip:
  "\<not> (\<forall>c \<in> set (extract_data_candidates (zip channels (wc_patterns wc)) mp m). c \<noteq> None) \<Longrightarrow>
     first_match_loop channels ((wc, i) # rest) mp m = first_match_loop channels rest mp m"
  by (simp only: first_match_loop.simps Let_def if_False)

lemma first_match_Some:
  assumes "first_match_loop channels wcs mp m = Some pc"
  shows "\<exists>wc i. (wc, i) \<in> set wcs \<and> pc_channels pc = channels \<and> pc_continuation pc = wc \<and> pc_continuation_index pc = i \<and>
    extract_data_candidates (zip channels (wc_patterns wc)) mp m = map Some (pc_data_candidates pc)"
  using assms
proof (induction channels wcs mp m rule: first_match_loop.induct)
  case (2 channels wc i rest mp m)
  let ?cs = "extract_data_candidates (zip channels (wc_patterns wc)) mp m"
  show ?case
  proof (cases "\<forall>c \<in> set ?cs. c \<noteq> None")
    case True
    then have "?cs = map Some (map the ?cs)" by (auto intro: map_idI [symmetric])
    moreover have "pc = \<lparr>pc_channels = channels, pc_continuation = wc, pc_continuation_index = i, pc_data_candidates = map the ?cs\<rparr>"
      using "2.prems" True by (simp add: Let_def)
    ultimately show ?thesis by (intro exI [of _ wc] exI [of _ i]) simp
  next
    case False
    then have "first_match_loop channels rest mp m = Some pc" using "2.prems" first_match_skip [OF False] by simp
    then show ?thesis using "2.IH" [OF refl False] by auto
  qed
qed simp

lemma first_match_None:
  "first_match_loop channels wcs mp m = None \<longleftrightarrow>
     (\<forall>(wc, i) \<in> set wcs. \<exists>c \<in> set (extract_data_candidates (zip channels (wc_patterns wc)) mp m). c = None)"
  by (induction channels wcs mp m rule: first_match_loop.induct) (auto simp: Let_def)

text \<open>
  The continuation that is chosen has the least consume hash of those that match.
\<close>

lemma first_match_least:
  assumes "first_match_loop channels wcs mp m = Some pc" "sorted (map (\<lambda>(wc, i). cs_hash (wc_source wc)) wcs)"
    "(wc, i) \<in> set wcs" "\<forall>c \<in> set (extract_data_candidates (zip channels (wc_patterns wc)) mp m). c \<noteq> None"
  shows "cs_hash (wc_source (pc_continuation pc)) \<le> cs_hash (wc_source wc)"
  using assms
proof (induction channels wcs mp m rule: first_match_loop.induct)
  case (2 channels wc' i' rest mp m)
  show ?case
  proof (cases "\<forall>c \<in> set (extract_data_candidates (zip channels (wc_patterns wc')) mp m). c \<noteq> None")
    case True
    then have "pc_continuation pc = wc'" using "2.prems"(1) by (auto simp: Let_def)
    then show ?thesis using "2.prems"(2,3) by auto
  next
    case False
    then have "(wc, i) \<in> set rest" using "2.prems"(3,4) by auto
    moreover have "first_match_loop channels rest mp m = Some pc"
      using "2.prems"(1) first_match_skip [OF False] by simp
    ultimately show ?thesis using "2.IH" [OF refl False] "2.prems"(2,4) by simp
  qed
qed simp

section \<open>The order of arrival does not matter\<close>

text \<open>
  A candidate without its position. Two channel maps that agree up to positions give candidates that
  agree up to positions.
\<close>

definition unplaced :: "('c, 'a) consume_candidate \<Rightarrow> 'c \<times> 'a datum \<times> 'a" where
  "unplaced c = (cc_channel c, cc_datum c, cc_removed_datum c)"

definition same_data :: "('c, 'a indexed) btmap \<Rightarrow> ('c, 'a indexed) btmap \<Rightarrow> bool" where
  "same_data mp mp' \<longleftrightarrow> (\<forall>ch. map_option (map fst) (bm_get mp ch) = map_option (map fst) (bm_get mp' ch))"

lemma find_loop_unplaced:
  assumes "map fst rest = map fst rest'" "map fst pre = map fst pre'" "map fst data = map fst data'"
  shows "map_option (\<lambda>(c, rm). (unplaced c, map fst rm)) (find_loop ch data p m pre rest) =
    map_option (\<lambda>(c, rm). (unplaced c, map fst rm)) (find_loop ch data' p m pre' rest')"
  using assms
proof (induction rest arbitrary: rest' pre pre')
  case (Cons x rest)
  then obtain d i i' rest'' where x: "x = (d, i)" "rest' = (d, i') # rest''" "map fst rest = map fst rest''"
    by (cases x) (auto simp: Cons_eq_map_conv)
  have "map fst ((d, i) # pre) = map fst ((d, i') # pre')" using Cons.prems(2) by simp
  then show ?case
    using Cons.IH [OF x(3) _ Cons.prems(3), of "(d, i) # pre" "(d, i') # pre'"] Cons.prems(2,3) x
    by (auto simp: unplaced_def split: option.split)
qed simp

lemma extract_unplaced:
  assumes "same_data mp mp'"
  shows "map (map_option unplaced) (extract_data_candidates pairs mp m) =
    map (map_option unplaced) (extract_data_candidates pairs mp' m)"
  using assms
proof (induction pairs arbitrary: mp mp')
  case (Cons pair pairs)
  obtain ch p where pair: "pair = (ch, p)" by fastforce
  let ?f = "\<lambda>mp. case bm_get mp ch of Some data \<Rightarrow> find_matching_data_candidate ch data p m | None \<Rightarrow> None"
  have f: "map_option (\<lambda>(c, rm). (unplaced c, map fst rm)) (?f mp) = map_option (\<lambda>(c, rm). (unplaced c, map fst rm)) (?f mp')"
  proof (cases "bm_get mp ch")
    case None
    then have "bm_get mp' ch = None" using Cons.prems unfolding same_data_def by (metis map_option_is_None)
    then show ?thesis using None by simp
  next
    case (Some data)
    then obtain data' where d: "bm_get mp' ch = Some data'" "map fst data = map fst data'"
      using Cons.prems unfolding same_data_def by (metis map_option_eq_Some)
    show ?thesis
      using find_loop_unplaced [OF d(2) refl d(2), of ch p m "[]"] Some d(1) by (simp add: find_matching_data_candidate_def)
  qed
  show ?case
  proof (cases "?f mp")
    case None
    then have "?f mp' = None" using f by simp
    then show ?thesis using None Cons pair by simp
  next
    case (Some cr)
    then obtain c rm c' rm' where cr: "?f mp = Some (c, rm)" "?f mp' = Some (c', rm')" "unplaced c = unplaced c'" "map fst rm = map fst rm'"
      using f [symmetric] by (cases cr) (auto simp: map_option_eq_Some)
    have "same_data (bm_insert ch rm mp) (bm_insert ch rm' mp')" using Cons.prems cr(4) by (simp add: same_data_def)
    then show ?thesis using cr Cons.IH pair by simp
  qed
qed simp

end
