(* ===== verification/History_Repository.thy ===== *)
theory History_Repository
  imports Radix_Map Stable_Hash Hot_Store Native_Store
begin

text \<open>
  The history repository (\<^verbatim>\<open>rspace/src/history/history_repository.rs\<close>, \<^verbatim>\<open>root_repository.rs\<close>,
  \<^verbatim>\<open>roots_store.rs\<close>, \<^verbatim>\<open>instances/rspace_history_reader_impl.rs\<close>): the changes of the tuple space and of the
  native store become leaves of the cold store and actions on the radix history, and readers take them
  back from a root.

  The \<^verbatim>\<open>Serialize\<close> instances are a record of functions and the digest is a parameter. The byte stores are
  maps; their input and output errors are left out. A checkpoint that panics in the radix history or
  fails to commit leaves the leaves it has written in the store.

  The main result composes the codecs, the radix tree and the overlay: after a checkpoint a reader of
  the new root returns, for every channel, the data, continuations and joins the overlay held, up to the
  order the encoding sorts them in.
\<close>

record ('c, 'p, 'a, 'k) serializers =
  sz_enc_c :: "'c \<Rightarrow> bytes"
  sz_dec_c :: "bytes \<Rightarrow> 'c option"
  sz_enc_p :: "'p \<Rightarrow> bytes"
  sz_dec_p :: "bytes \<Rightarrow> 'p option"
  sz_enc_a :: "'a \<Rightarrow> bytes"
  sz_dec_a :: "bytes \<Rightarrow> 'a option"
  sz_enc_k :: "'k \<Rightarrow> bytes"
  sz_dec_k :: "bytes \<Rightarrow> 'k option"

definition PREFIX_DATUM :: byte where "PREFIX_DATUM = 0"
definition PREFIX_KONT :: byte where "PREFIX_KONT = 1"
definition PREFIX_JOINS :: byte where "PREFIX_JOINS = 2"

section \<open>From hot-store changes to leaves and history actions\<close>

datatype ('c, 'p, 'a, 'k) hot_store_trie_action =
    TrieInsertProduce hash32 "'a datum list"
  | TrieInsertJoins hash32 "'c list list"
  | TrieInsertConsume hash32 "('p, 'k) waiting_continuation list"
  | TrieInsertBinaryProduce hash32 "bytes list"
  | TrieInsertBinaryJoins hash32 "bytes list"
  | TrieInsertBinaryConsume hash32 "bytes list"
  | TrieDeleteProduce hash32
  | TrieDeleteJoins hash32
  | TrieDeleteConsume hash32

type_synonym cold_action = "hash32 \<times> persisted_data option"

definition key_segment :: "byte \<Rightarrow> hash32 \<Rightarrow> key_segment" where
  "key_segment prefix h = prefix # h"

text \<open>The leaf of an insertion, stored under the digest of its encoding.\<close>

definition insert_leaf ::
  "(bytes \<Rightarrow> hash32) \<Rightarrow> byte \<Rightarrow> hash32 \<Rightarrow> persisted_data \<Rightarrow> cold_action \<times> history_action" where
  "insert_leaf dg prefix h leaf =
     (let leaf_hash = dg (encode_persisted_data leaf)
      in ((leaf_hash, Some leaf), Insert (key_segment prefix h) leaf_hash))"

definition delete_leaf :: "byte \<Rightarrow> hash32 \<Rightarrow> cold_action \<times> history_action" where
  "delete_leaf prefix h = ((h, None), Delete (key_segment prefix h))"

fun calculate_storage_action ::
  "(bytes \<Rightarrow> hash32) \<Rightarrow> ('c, 'p, 'a, 'k) serializers \<Rightarrow> ('c, 'p, 'a, 'k) hot_store_trie_action \<Rightarrow>
   cold_action \<times> history_action" where
  "calculate_storage_action dg sz (TrieInsertProduce h ds) =
     insert_leaf dg PREFIX_DATUM h (DataLeaf (encode_datums (sz_enc_a sz) ds))"
| "calculate_storage_action dg sz (TrieInsertConsume h ks) =
     insert_leaf dg PREFIX_KONT h (ContinuationsLeaf (encode_continuations (sz_enc_p sz) (sz_enc_k sz) ks))"
| "calculate_storage_action dg sz (TrieInsertJoins h js) =
     insert_leaf dg PREFIX_JOINS h (JoinsLeaf (encode_joins (sz_enc_c sz) js))"
| "calculate_storage_action dg sz (TrieInsertBinaryProduce h ds) =
     insert_leaf dg PREFIX_DATUM h (DataLeaf (encode_datums_binary ds))"
| "calculate_storage_action dg sz (TrieInsertBinaryConsume h ks) =
     insert_leaf dg PREFIX_KONT h (ContinuationsLeaf (encode_continuations_binary ks))"
| "calculate_storage_action dg sz (TrieInsertBinaryJoins h js) =
     insert_leaf dg PREFIX_JOINS h (JoinsLeaf (encode_joins_binary js))"
| "calculate_storage_action dg sz (TrieDeleteProduce h) = delete_leaf PREFIX_DATUM h"
| "calculate_storage_action dg sz (TrieDeleteConsume h) = delete_leaf PREFIX_KONT h"
| "calculate_storage_action dg sz (TrieDeleteJoins h) = delete_leaf PREFIX_JOINS h"

fun calculate_native_storage_action ::
  "(bytes \<Rightarrow> hash32) \<Rightarrow> native_store_action \<Rightarrow> cold_action \<times> history_action" where
  "calculate_native_storage_action dg (NativePut prefix key v) = insert_leaf dg prefix key (NativeLeaf v)"
| "calculate_native_storage_action dg (NativeDelete prefix key) = delete_leaf prefix key"

fun transform ::
  "(bytes \<Rightarrow> hash32) \<Rightarrow> ('c, 'p, 'a, 'k) serializers \<Rightarrow> ('c, 'p, 'a, 'k) hot_store_action \<Rightarrow>
   ('c, 'p, 'a, 'k) hot_store_trie_action" where
  "transform dg sz (InsertData c ds) = TrieInsertProduce (hash_channel dg (sz_enc_c sz) c) ds"
| "transform dg sz (InsertContinuations cs ks) = TrieInsertConsume (hash_channels dg (sz_enc_c sz) cs) ks"
| "transform dg sz (InsertJoins c js) = TrieInsertJoins (hash_channel dg (sz_enc_c sz) c) js"
| "transform dg sz (DeleteData c) = TrieDeleteProduce (hash_channel dg (sz_enc_c sz) c)"
| "transform dg sz (DeleteContinuations cs) = TrieDeleteConsume (hash_channels dg (sz_enc_c sz) cs)"
| "transform dg sz (DeleteJoins c) = TrieDeleteJoins (hash_channel dg (sz_enc_c sz) c)"

section \<open>Roots\<close>

text \<open>The keys and the tag are the bytes of the strings \<^verbatim>\<open>current-root\<close> and \<^verbatim>\<open>root\<close>.\<close>

definition CURRENT_ROOT :: bytes where
  "CURRENT_ROOT = map (of_nat \<circ> of_char) ''current-root''"

definition ROOT_TAG :: bytes where
  "ROOT_TAG = map (of_nat \<circ> of_char) ''root''"

type_synonym roots_store = "(bytes, bytes) btmap"

text \<open>A stored current root that is not 32 bytes long fails an assertion: \<open>Inl ()\<close>.\<close>

definition roots_current_root :: "roots_store \<Rightarrow> unit + hash32 option" where
  "roots_current_root s =
     (case bm_get s CURRENT_ROOT of
        None \<Rightarrow> Inr None
      | Some b \<Rightarrow> if length b = 32 then Inr (Some b) else Inl ())"

definition roots_validate_and_set_current_root :: "roots_store \<Rightarrow> hash32 \<Rightarrow> roots_store \<times> hash32 option" where
  "roots_validate_and_set_current_root s key =
     (case bm_get s key of
        Some _ \<Rightarrow> (bm_insert CURRENT_ROOT key s, Some key)
      | None \<Rightarrow> (s, None))"

definition record_root :: "roots_store \<Rightarrow> hash32 \<Rightarrow> roots_store" where
  "record_root s key = bm_insert CURRENT_ROOT key (bm_insert key ROOT_TAG s)"

definition current_root :: "(bytes \<Rightarrow> hash32) \<Rightarrow> roots_store \<Rightarrow> roots_store \<times> (unit + hash32)" where
  "current_root dg s =
     (case roots_current_root s of
        Inl u \<Rightarrow> (s, Inl u)
      | Inr None \<Rightarrow> (record_root s (empty_root_hash dg), Inr (empty_root_hash dg))
      | Inr (Some root) \<Rightarrow> (s, Inr root))"

definition validate_and_set_current_root :: "roots_store \<Rightarrow> hash32 \<Rightarrow> roots_store \<times> bool" where
  "validate_and_set_current_root s root =
     (let (s', r) = roots_validate_and_set_current_root s root in (s', r \<noteq> None))"

section \<open>The repository\<close>

record repository =
  rp_history :: radix_history
  rp_roots :: roots_store
  rp_leaves :: "(hash32, bytes) btmap"

datatype repository_failure = HistoryPanic rt_panic | CommitFailed hash32 | UnknownRoot

definition rp_root :: "repository \<Rightarrow> hash32" where
  "rp_root rp = root_hash (rp_history rp)"

text \<open>The typed leaf store: keys and values go through their codecs.\<close>

definition leaves_put :: "(hash32 \<times> persisted_data) list \<Rightarrow> (hash32, bytes) btmap \<Rightarrow> (hash32, bytes) btmap" where
  "leaves_put pairs leaves = fold (\<lambda>(k, v). bm_insert k (encode_persisted_data v)) pairs leaves"

definition leaves_put_if_absent ::
  "(hash32 \<times> persisted_data) list \<Rightarrow> (hash32, bytes) btmap \<Rightarrow> (hash32, bytes) btmap" where
  "leaves_put_if_absent cold_actions leaves =
     (if cold_actions = [] then leaves
      else leaves_put (filter (\<lambda>(k, v). bm_get leaves k = None) cold_actions) leaves)"

definition storage_actions ::
  "(bytes \<Rightarrow> hash32) \<Rightarrow> ('c, 'p, 'a, 'k) serializers \<Rightarrow> ('c, 'p, 'a, 'k) hot_store_trie_action list \<Rightarrow>
   native_store_action list \<Rightarrow> (cold_action \<times> history_action) list" where
  "storage_actions dg sz trie_actions native_actions =
     map (calculate_storage_action dg sz) trie_actions @ map (calculate_native_storage_action dg) native_actions"

definition cold_actions :: "(cold_action \<times> history_action) list \<Rightarrow> (hash32 \<times> persisted_data) list" where
  "cold_actions storage = List.map_filter (\<lambda>((h, leaf), _). map_option (Pair h) leaf) storage"

definition do_checkpoint_with_native ::
  "(bytes \<Rightarrow> hash32) \<Rightarrow> ('c, 'p, 'a, 'k) serializers \<Rightarrow> ('c, 'p, 'a, 'k) hot_store_trie_action list \<Rightarrow>
   native_store_action list \<Rightarrow> repository \<Rightarrow> repository \<times> (repository_failure + unit)" where
  "do_checkpoint_with_native dg sz trie_actions native_actions rp =
     (let storage = storage_actions dg sz trie_actions native_actions;
          history_actions = map snd storage;
          leaves = leaves_put_if_absent (cold_actions storage) (rp_leaves rp)
      in case process dg (rp_history rp) history_actions of
           (t, Inl e) \<Rightarrow>
             (rp\<lparr>rp_leaves := leaves, rp_history := (rp_history rp)\<lparr>rh_impl := t\<rparr>\<rparr>, Inl (HistoryPanic e))
         | (t, Inr (Inl h)) \<Rightarrow>
             (rp\<lparr>rp_leaves := leaves, rp_history := (rp_history rp)\<lparr>rh_impl := t\<rparr>\<rparr>, Inl (CommitFailed h))
         | (t, Inr (Inr new_history)) \<Rightarrow>
             (\<lparr>rp_history = new_history, rp_roots = record_root (rp_roots rp) (root_hash new_history),
               rp_leaves = leaves\<rparr>, Inr ()))"

definition do_checkpoint ::
  "(bytes \<Rightarrow> hash32) \<Rightarrow> ('c, 'p, 'a, 'k) serializers \<Rightarrow> ('c, 'p, 'a, 'k) hot_store_trie_action list \<Rightarrow>
   repository \<Rightarrow> repository \<times> (repository_failure + unit)" where
  "do_checkpoint dg sz trie_actions = do_checkpoint_with_native dg sz trie_actions []"

definition checkpoint_with_native ::
  "(bytes \<Rightarrow> hash32) \<Rightarrow> ('c, 'p, 'a, 'k) serializers \<Rightarrow> ('c, 'p, 'a, 'k) hot_store_action list \<Rightarrow>
   native_store_action list \<Rightarrow> repository \<Rightarrow> repository \<times> (repository_failure + unit)" where
  "checkpoint_with_native dg sz actions = do_checkpoint_with_native dg sz (map (transform dg sz) actions)"

definition checkpoint ::
  "(bytes \<Rightarrow> hash32) \<Rightarrow> ('c, 'p, 'a, 'k) serializers \<Rightarrow> ('c, 'p, 'a, 'k) hot_store_action list \<Rightarrow>
   repository \<Rightarrow> repository \<times> (repository_failure + unit)" where
  "checkpoint dg sz actions = checkpoint_with_native dg sz actions []"

definition repository_reset :: "hash32 \<Rightarrow> repository \<Rightarrow> repository \<times> (repository_failure + unit)" where
  "repository_reset root rp =
     (let (roots, known) = validate_and_set_current_root (rp_roots rp) root in
      if known
      then (rp\<lparr>rp_roots := roots, rp_history := history_reset (rp_history rp) root\<rparr>, Inr ())
      else (rp\<lparr>rp_roots := roots\<rparr>, Inl UnknownRoot))"

section \<open>Readers of a root\<close>

record history_reader =
  rd_history :: radix_history
  rd_leaves :: "(hash32, bytes) btmap"

definition get_history_reader :: "hash32 \<Rightarrow> repository \<Rightarrow> history_reader" where
  "get_history_reader root rp =
     \<lparr>rd_history = history_reset (rp_history rp) root, rd_leaves = rp_leaves rp\<rparr>"

text \<open>
  \<^verbatim>\<open>fetch_data\<close>. A read fills the node cache of its tree; this does not change what later reads return
  (\<open>reads_repeatable\<close> below), so the reader is a function of the key.
\<close>

datatype fetch_failure = FetchPanic | UnknownTag "64 word"

definition fetch_data :: "history_reader \<Rightarrow> byte \<Rightarrow> hash32 \<Rightarrow> fetch_failure + persisted_data option" where
  "fetch_data rd prefix key =
     (case snd (history_read (rd_history rd) (prefix # key)) of
        Inl e \<Rightarrow> Inl FetchPanic
      | Inr None \<Rightarrow> Inr None
      | Inr (Some leaf_hash) \<Rightarrow>
          (case bm_get (rd_leaves rd) leaf_hash of
             None \<Rightarrow> Inr None
           | Some bs \<Rightarrow>
               (case decode_persisted_data bs of
                  None \<Rightarrow> Inl FetchPanic
                | Some (Inl tag) \<Rightarrow> Inl (UnknownTag tag)
                | Some (Inr leaf) \<Rightarrow> Inr (Some leaf))))"

fun fetch_error :: "string \<Rightarrow> fetch_failure \<Rightarrow> failure" where
  "fetch_error what FetchPanic = Panicked"
| "fetch_error what (UnknownTag t) = Failed (Codec what)"

fun decoded :: "(rspace_error + 'v) option \<Rightarrow> failure + 'v" where
  "decoded None = Inl Panicked"
| "decoded (Some (Inl e)) = Inl (Failed e)"
| "decoded (Some (Inr v)) = Inr v"

definition reader_get_data ::
  "('c, 'p, 'a, 'k) serializers \<Rightarrow> history_reader \<Rightarrow> hash32 \<Rightarrow> failure + 'a datum list" where
  "reader_get_data sz rd key =
     (case fetch_data rd PREFIX_DATUM key of
        Inl e \<Rightarrow> Inl (fetch_error ''persisted data'' e)
      | Inr (Some (DataLeaf bs)) \<Rightarrow> decoded (decode_datums (sz_dec_a sz) bs)
      | Inr (Some _) \<Rightarrow> Inl (Failed (UnexpectedLeaf ''data''))
      | Inr None \<Rightarrow> Inr [])"

definition reader_get_continuations ::
  "('c, 'p, 'a, 'k) serializers \<Rightarrow> history_reader \<Rightarrow> hash32 \<Rightarrow> failure + ('p, 'k) waiting_continuation list" where
  "reader_get_continuations sz rd key =
     (case fetch_data rd PREFIX_KONT key of
        Inl e \<Rightarrow> Inl (fetch_error ''persisted data'' e)
      | Inr (Some (ContinuationsLeaf bs)) \<Rightarrow> decoded (decode_continuations (sz_dec_p sz) (sz_dec_k sz) bs)
      | Inr (Some _) \<Rightarrow> Inl (Failed (UnexpectedLeaf ''continuations''))
      | Inr None \<Rightarrow> Inr [])"

definition reader_get_joins ::
  "('c, 'p, 'a, 'k) serializers \<Rightarrow> history_reader \<Rightarrow> hash32 \<Rightarrow> failure + 'c list list" where
  "reader_get_joins sz rd key =
     (case fetch_data rd PREFIX_JOINS key of
        Inl e \<Rightarrow> Inl (fetch_error ''persisted data'' e)
      | Inr (Some (JoinsLeaf bs)) \<Rightarrow> decoded (decode_joins (sz_dec_c sz) bs)
      | Inr (Some _) \<Rightarrow> Inl (Failed (UnexpectedLeaf ''joins''))
      | Inr None \<Rightarrow> Inr [])"

definition reader_get_native :: "history_reader \<Rightarrow> byte \<Rightarrow> hash32 \<Rightarrow> failure + bytes option" where
  "reader_get_native rd prefix key =
     (case fetch_data rd prefix key of
        Inl e \<Rightarrow> Inl (fetch_error ''native'' e)
      | Inr (Some (NativeLeaf bs)) \<Rightarrow> Inr (Some bs)
      | Inr (Some _) \<Rightarrow> Inl (Failed (UnexpectedLeaf ''native''))
      | Inr None \<Rightarrow> Inr None)"

text \<open>\<^verbatim>\<open>base()\<close>: the reader that hashes channels itself.\<close>

definition base_reader ::
  "(bytes \<Rightarrow> hash32) \<Rightarrow> ('c, 'p, 'a, 'k) serializers \<Rightarrow> history_reader \<Rightarrow> ('c, 'p, 'a, 'k) history_reader_base" where
  "base_reader dg sz rd =
     \<lparr>hr_continuations = (\<lambda>cs. reader_get_continuations sz rd (hash_channels dg (sz_enc_c sz) cs)),
      hr_data = (\<lambda>c. reader_get_data sz rd (hash_channel dg (sz_enc_c sz) c)),
      hr_joins = (\<lambda>c. reader_get_joins sz rd (hash_channel dg (sz_enc_c sz) c))\<rparr>"

text \<open>The readers that keep the raw bytes (\<^verbatim>\<open>HistoryReaderBinary\<close>).\<close>

definition binary_get_data ::
  "('c, 'p, 'a, 'k) serializers \<Rightarrow> history_reader \<Rightarrow> hash32 \<Rightarrow> failure + 'a datum_b list" where
  "binary_get_data sz rd key =
     (case fetch_data rd PREFIX_DATUM key of
        Inl e \<Rightarrow> Inl (fetch_error ''persisted data'' e)
      | Inr (Some (DataLeaf bs)) \<Rightarrow> decoded (decode_datums_binary (sz_dec_a sz) bs)
      | Inr (Some _) \<Rightarrow> Inl (Failed (UnexpectedLeaf ''data''))
      | Inr None \<Rightarrow> Inr [])"

definition binary_get_continuations ::
  "('c, 'p, 'a, 'k) serializers \<Rightarrow> history_reader \<Rightarrow> hash32 \<Rightarrow> failure + ('p, 'k) waiting_continuation_b list" where
  "binary_get_continuations sz rd key =
     (case fetch_data rd PREFIX_KONT key of
        Inl e \<Rightarrow> Inl (fetch_error ''persisted data'' e)
      | Inr (Some (ContinuationsLeaf bs)) \<Rightarrow> decoded (decode_continuations_binary (sz_dec_p sz) (sz_dec_k sz) bs)
      | Inr (Some _) \<Rightarrow> Inl (Failed (UnexpectedLeaf ''continuations''))
      | Inr None \<Rightarrow> Inr [])"

definition binary_get_joins ::
  "('c, 'p, 'a, 'k) serializers \<Rightarrow> history_reader \<Rightarrow> hash32 \<Rightarrow> failure + 'c joins_b list" where
  "binary_get_joins sz rd key =
     (case fetch_data rd PREFIX_JOINS key of
        Inl e \<Rightarrow> Inl (fetch_error ''persisted data'' e)
      | Inr (Some (JoinsLeaf bs)) \<Rightarrow> decoded (decode_joins_binary (sz_dec_c sz) bs)
      | Inr (Some _) \<Rightarrow> Inl (Failed (UnexpectedLeaf ''joins''))
      | Inr None \<Rightarrow> Inr [])"

definition native_reader_of :: "history_reader \<Rightarrow> failure native_reader" where
  "native_reader_of rd prefix key =
     (case fetch_data rd prefix key of
        Inl e \<Rightarrow> Inl (fetch_error ''native'' e)
      | Inr (Some (NativeLeaf bs)) \<Rightarrow> Inr (Some bs)
      | Inr (Some _) \<Rightarrow> Inl (Failed (UnexpectedLeaf ''native''))
      | Inr None \<Rightarrow> Inr None)"

section \<open>What a repository holds\<close>

text \<open>The bytes of the leaf at a key.\<close>

definition leaf_at :: "repository \<Rightarrow> key_segment \<Rightarrow> bytes option" where
  "leaf_at rp key = Option.bind (history_map (rp_history rp) key) (bm_get (rp_leaves rp))"

definition repository_ok :: "(bytes \<Rightarrow> hash32) \<Rightarrow> repository \<Rightarrow> bool" where
  "repository_ok dg rp \<longleftrightarrow>
     history_ok dg 32 (rp_history rp) \<and>
     (\<forall>k h. history_map (rp_history rp) k = Some h \<longrightarrow> bm_get (rp_leaves rp) h \<noteq> None)"

text \<open>
  The leaves to be written agree with each other and with those in the store: the digest does not
  collide on them.
\<close>

definition leaves_agree :: "(hash32, bytes) btmap \<Rightarrow> (hash32 \<times> persisted_data) list \<Rightarrow> bool" where
  "leaves_agree leaves cold \<longleftrightarrow>
     (\<forall>h leaf. (h, leaf) \<in> set cold \<longrightarrow>
        (\<forall>b. bm_get leaves h = Some b \<longrightarrow> b = encode_persisted_data leaf) \<and>
        (\<forall>leaf'. (h, leaf') \<in> set cold \<longrightarrow> encode_persisted_data leaf' = encode_persisted_data leaf))"

lemma bm_get_leaves_put:
  "bm_get (leaves_put pairs leaves) h =
     (case map_of (rev pairs) h of Some v \<Rightarrow> Some (encode_persisted_data v) | None \<Rightarrow> bm_get leaves h)"
  by (induction pairs arbitrary: leaves) (auto simp: leaves_put_def map_add_def split: option.splits)

lemma leaves_kept:
  assumes "bm_get leaves h = Some b"
  shows "bm_get (leaves_put_if_absent cold leaves) h = Some b"
proof -
  have "h \<notin> fst ` set (rev (filter (\<lambda>(k, v). bm_get leaves k = None) cold))" using assms by auto
  then have "map_of (rev (filter (\<lambda>(k, v). bm_get leaves k = None) cold)) h = None"
    by (simp only: map_of_eq_None_iff simp_thms)
  then show ?thesis using assms by (simp add: leaves_put_if_absent_def bm_get_leaves_put)
qed

lemma leaves_written:
  assumes "leaves_agree leaves cold" "(h, leaf) \<in> set cold"
  shows "bm_get (leaves_put_if_absent cold leaves) h = Some (encode_persisted_data leaf)"
proof (cases "bm_get leaves h")
  case None
  let ?absent = "filter (\<lambda>(k, v). bm_get leaves k = None) cold"
  have "(h, leaf) \<in> set (rev ?absent)" using assms(2) None by simp
  then have "h \<in> fst ` set (rev ?absent)" by force
  then have "map_of (rev ?absent) h \<noteq> None" by (simp only: map_of_eq_None_iff not_not)
  then obtain leaf' where l: "map_of (rev ?absent) h = Some leaf'" by (auto simp del: rev_filter)
  then have "(h, leaf') \<in> set cold" using map_of_SomeD [OF l] by simp
  then have "encode_persisted_data leaf' = encode_persisted_data leaf"
    using assms unfolding leaves_agree_def by blast
  moreover have "cold \<noteq> []" using assms(2) by auto
  ultimately show ?thesis using l by (simp add: leaves_put_if_absent_def bm_get_leaves_put)
next
  case (Some b)
  then have "b = encode_persisted_data leaf" using assms unfolding leaves_agree_def by blast
  then show ?thesis using Some leaves_kept by simp
qed

lemma cold_actions_iff: "(h, leaf) \<in> set (cold_actions st) \<longleftrightarrow> (\<exists>a. ((h, Some leaf), a) \<in> set st)"
  by (force simp: cold_actions_def List.map_filter_def)

lemma apply_actions_at:
  "distinct (map action_key as) \<Longrightarrow> a \<in> set as \<Longrightarrow> apply_actions as f (action_key a) = action_value a"
  by (induction as arbitrary: f) (auto simp: apply_actions_def apply_actions_other [unfolded apply_actions_def])

lemma fetch_data_leaf:
  assumes "repository_ok dg rp"
  shows "fetch_data (get_history_reader (rp_root rp) rp) p k =
    (case leaf_at rp (p # k) of
       None \<Rightarrow> Inr None
     | Some bs \<Rightarrow>
         (case decode_persisted_data bs of
            None \<Rightarrow> Inl FetchPanic
          | Some (Inl tag) \<Rightarrow> Inl (UnknownTag tag)
          | Some (Inr leaf) \<Rightarrow> Inr (Some leaf)))"
proof -
  let ?h = "rp_history rp"
  have h: "history_ok dg 32 (history_reset ?h (root_hash ?h))" "history_map (history_reset ?h (root_hash ?h)) = history_map ?h"
    using reset_ok [of dg 32 ?h] assms by (auto simp: repository_ok_def)
  obtain t where "history_read (history_reset ?h (root_hash ?h)) (p # k) = (t, Inr (history_map ?h (p # k)))"
    using history_read_map [OF h(1)] h(2) by metis
  then show ?thesis
    by (simp add: fetch_data_def get_history_reader_def rp_root_def leaf_at_def split: option.split)
qed

lemma reads_repeatable:
  assumes "repository_ok dg rp"
  shows "snd (history_read ((rp_history rp)\<lparr>rh_impl := fst (history_read (rp_history rp) k)\<rparr>) k') = snd (history_read (rp_history rp) k')"
proof -
  have h: "history_ok dg 32 (rp_history rp)" using assms by (simp add: repository_ok_def)
  obtain t where "history_read (rp_history rp) k = (t, Inr (history_map (rp_history rp) k))"
    "\<And>k'. snd (history_read ((rp_history rp)\<lparr>rh_impl := t\<rparr>) k') = Inr (history_map (rp_history rp) k')"
    using history_read_map [OF h] by metis
  moreover obtain t' where "history_read (rp_history rp) k' = (t', Inr (history_map (rp_history rp) k'))"
    using history_read_map [OF h] by metis
  ultimately show ?thesis by simp
qed

lemma leaf_of_action:
  assumes "repository_ok dg rp" "history_map (rp_history rp') = apply_actions (map snd st) (history_map (rp_history rp))"
    "rp_leaves rp' = leaves_put_if_absent (cold_actions st) (rp_leaves rp)"
    "distinct (map action_key (map snd st))" "leaves_agree (rp_leaves rp) (cold_actions st)"
  shows "insert_leaf dg p h leaf \<in> set st \<Longrightarrow> leaf_at rp' (p # h) = Some (encode_persisted_data leaf)"
    and "delete_leaf p h \<in> set st \<Longrightarrow> leaf_at rp' (p # h) = None"
    and "k \<notin> action_key ` set (map snd st) \<Longrightarrow> leaf_at rp' k = leaf_at rp k"
proof -
  show "leaf_at rp' (p # h) = Some (encode_persisted_data leaf)" if ins: "insert_leaf dg p h leaf \<in> set st"
  proof -
    let ?lh = "dg (encode_persisted_data leaf)"
    have "Insert (p # h) ?lh \<in> set (map snd st)" "(?lh, leaf) \<in> set (cold_actions st)"
      using ins by (force simp: insert_leaf_def key_segment_def Let_def, auto simp: cold_actions_iff insert_leaf_def Let_def)
    then show ?thesis
      using apply_actions_at [OF assms(4), of "Insert (p # h) ?lh"] leaves_written [OF assms(5)]
      by (simp add: leaf_at_def assms(2,3))
  qed
  show "leaf_at rp' (p # h) = None" if del: "delete_leaf p h \<in> set st"
  proof -
    have "Delete (p # h) \<in> set (map snd st)" using del by (force simp: delete_leaf_def key_segment_def)
    then show ?thesis using apply_actions_at [OF assms(4), of "Delete (p # h)"] by (simp add: leaf_at_def assms(2))
  qed
  show "leaf_at rp' k = leaf_at rp k" if k: "k \<notin> action_key ` set (map snd st)"
  proof (cases "history_map (rp_history rp) k")
    case (Some lh)
    then obtain b where "bm_get (rp_leaves rp) lh = Some b" using assms(1) by (auto simp: repository_ok_def)
    then show ?thesis
      using Some apply_actions_other [OF k] leaves_kept by (simp add: leaf_at_def assms(2,3))
  qed (use apply_actions_other [OF k] in \<open>simp add: leaf_at_def assms(2)\<close>)
qed

lemma storage_shape:
  assumes "x \<in> set (storage_actions dg sz ts ns)"
  obtains (ins) p h leaf where "x = insert_leaf dg p h leaf" | (del) p h where "x = delete_leaf p h"
proof -
  have "(\<exists>p h leaf. x = insert_leaf dg p h leaf) \<or> (\<exists>p h. x = delete_leaf p h)"
    using assms unfolding storage_actions_def
  proof (simp, elim disjE imageE)
    fix t assume "x = calculate_storage_action dg sz t"
    then show ?thesis by (cases t) auto
  next
    fix n assume "x = calculate_native_storage_action dg n"
    then show ?thesis by (cases n) auto
  qed
  then show thesis using that by blast
qed

lemma apply_actions_Some:
  "apply_actions as f k = Some v \<Longrightarrow> (\<exists>a \<in> set as. action_key a = k \<and> action_value a = Some v) \<or> f k = Some v"
proof (induction as arbitrary: f)
  case (Cons a as)
  have "apply_actions as (f(action_key a := action_value a)) k = Some v"
    using Cons.prems by (simp add: apply_actions_def)
  from Cons.IH [OF this] show ?case by (auto split: if_splits)
qed simp

lemma checkpoint_spec:
  assumes dg: "digest_ok dg" and rp: "repository_ok dg rp" and st: "st = storage_actions dg sz ts ns"
    and acts: "actions_ok 33 (map snd st)" and agree: "leaves_agree (rp_leaves rp) (cold_actions st)"
    and nc: "\<not> clash dg (batch_state dg (rp_history rp) (map snd st))"
  shows "(\<exists>rp'. do_checkpoint_with_native dg sz ts ns rp = (rp', Inr ()) \<and> repository_ok dg rp' \<and>
      history_map (rp_history rp') = apply_actions (map snd st) (history_map (rp_history rp)) \<and>
      rp_leaves rp' = leaves_put_if_absent (cold_actions st) (rp_leaves rp)) \<or>
    (\<exists>rp' e. do_checkpoint_with_native dg sz ts ns rp = (rp', Inl (HistoryPanic e)) \<and> real_collision dg e)"
proof -
  have h: "history_ok dg 32 (rp_history rp)" using rp by (simp add: repository_ok_def)
  have acts': "actions_ok (Suc 32) (map snd st)" using acts by simp
  from process_spec [OF dg h acts' nc] show ?thesis
  proof (elim disjE exE conjE)
    fix t h'
    assume p: "process dg (rp_history rp) (map snd st) = (t, Inr (Inr h'))" and h': "history_ok dg 32 h'"
      "history_map h' = apply_actions (map snd st) (history_map (rp_history rp))"
    let ?leaves = "leaves_put_if_absent (cold_actions st) (rp_leaves rp)"
    let ?rp = "\<lparr>rp_history = h', rp_roots = record_root (rp_roots rp) (root_hash h'), rp_leaves = ?leaves\<rparr>"
    have "bm_get ?leaves v \<noteq> None" if k: "history_map h' k = Some v" for k v
    proof -
      from apply_actions_Some [OF k [unfolded h'(2)]] show ?thesis
      proof
        assume "\<exists>a \<in> set (map snd st). action_key a = k \<and> action_value a = Some v"
        then obtain x where x: "x \<in> set st" "action_value (snd x) = Some v" by auto
        then obtain p g leaf where "x = insert_leaf dg p g leaf"
          unfolding st by (elim storage_shape) (auto simp: delete_leaf_def)
        then have "(v, leaf) \<in> set (cold_actions st)"
          using x by (auto simp: cold_actions_iff insert_leaf_def Let_def)
        then show ?thesis using leaves_written [OF agree] by simp
      next
        assume "history_map (rp_history rp) k = Some v"
        then obtain b where "bm_get (rp_leaves rp) v = Some b" using rp by (auto simp: repository_ok_def)
        then show ?thesis using leaves_kept by simp
      qed
    qed
    then have "repository_ok dg ?rp" using h'(1) by (simp add: repository_ok_def)
    moreover have "do_checkpoint_with_native dg sz ts ns rp = (?rp, Inr ())"
      using p by (simp add: do_checkpoint_with_native_def st [symmetric] Let_def)
    ultimately show ?thesis using h'(2) by auto
  next
    fix t e assume "process dg (rp_history rp) (map snd st) = (t, Inl e)" "real_collision dg e"
    then show ?thesis by (simp add: do_checkpoint_with_native_def st [symmetric] Let_def)
  qed
qed

text \<open>Two actions on one key make the radix history panic, whatever they are.\<close>

lemma checkpoint_duplicates:
  assumes "\<not> distinct (map action_key (map snd (storage_actions dg sz ts ns)))"
  shows "snd (do_checkpoint_with_native dg sz ts ns rp) = Inl (HistoryPanic DuplicateActions)"
  using assms by (simp add: do_checkpoint_with_native_def process_def has_no_duplicates_def Let_def)

section \<open>A checkpoint keeps the view\<close>

text \<open>Everything the overlay holds survives its encoding.\<close>

definition encodable :: "('c, 'p, 'a, 'k) serializers \<Rightarrow> ('c, 'p, 'a, 'k) hot_store_state \<Rightarrow> bool" where
  "encodable sz st \<longleftrightarrow>
     (\<forall>c ds. bm_get (st_data st) c = Some ds \<longrightarrow>
        length ds < 2 ^ 32 \<and> (\<forall>d \<in> set ds. datum_ok (sz_enc_a sz) (sz_dec_a sz) d) \<and>
        length (encode_datums (sz_enc_a sz) ds) < 2 ^ 64) \<and>
     (\<forall>cs ks. bm_get (st_continuations st) cs = Some ks \<longrightarrow>
        length ks < 2 ^ 32 \<and>
        (\<forall>k \<in> set ks. continuation_ok (sz_enc_p sz) (sz_dec_p sz) (sz_enc_k sz) (sz_dec_k sz) k) \<and>
        length (encode_continuations (sz_enc_p sz) (sz_enc_k sz) ks) < 2 ^ 64) \<and>
     (\<forall>c js. bm_get (st_joins st) c = Some js \<longrightarrow>
        length js < 2 ^ 32 \<and> (\<forall>j \<in> set js. join_ok (sz_enc_c sz) (sz_dec_c sz) j) \<and>
        length (encode_joins (sz_enc_c sz) js) < 2 ^ 64)"

fun native_action_ok :: "native_store_action \<Rightarrow> bool" where
  "native_action_ok (NativePut p k v) \<longleftrightarrow>
     p \<notin> {PREFIX_DATUM, PREFIX_KONT, PREFIX_JOINS} \<and> hash32_ok k \<and> length v < 2 ^ 64"
| "native_action_ok (NativeDelete p k) \<longleftrightarrow> p \<notin> {PREFIX_DATUM, PREFIX_KONT, PREFIX_JOINS} \<and> hash32_ok k"

text \<open>No other key of a map shares the hash of \<open>x\<close>.\<close>

definition unshared :: "('x \<Rightarrow> hash32) \<Rightarrow> ('x, 'v) btmap \<Rightarrow> 'x \<Rightarrow> bool" where
  "unshared hash m x \<longleftrightarrow> (\<forall>y \<in> fst ` set m. hash y = hash x \<longrightarrow> y = x)"

abbreviation reader_at where
  "reader_at dg sz rp \<equiv> base_reader dg sz (get_history_reader (rp_root rp) rp)"

lemma prefixes_distinct [simp]:
  "PREFIX_DATUM \<noteq> PREFIX_KONT" "PREFIX_KONT \<noteq> PREFIX_DATUM" "PREFIX_DATUM \<noteq> PREFIX_JOINS"
  "PREFIX_JOINS \<noteq> PREFIX_DATUM" "PREFIX_KONT \<noteq> PREFIX_JOINS" "PREFIX_JOINS \<noteq> PREFIX_KONT"
  by (simp_all add: PREFIX_DATUM_def PREFIX_KONT_def PREFIX_JOINS_def)

subsection \<open>Reading a leaf\<close>

lemma fetch_leaf:
  assumes "repository_ok dg rp" "leaf_at rp (p # h) = Some (encode_persisted_data leaf)" "length (leaf_bytes leaf) < 2 ^ 64"
  shows "fetch_data (get_history_reader (rp_root rp) rp) p h = Inr (Some leaf)"
  using assms by (simp add: fetch_data_leaf decode_encode_leaf)

lemma fetch_none: "repository_ok dg rp \<Longrightarrow> leaf_at rp (p # h) = None \<Longrightarrow> fetch_data (get_history_reader (rp_root rp) rp) p h = Inr None"
  by (simp add: fetch_data_leaf)

lemma fetch_same:
  "repository_ok dg rp \<Longrightarrow> repository_ok dg rp' \<Longrightarrow> leaf_at rp' (p # h) = leaf_at rp (p # h) \<Longrightarrow>
     fetch_data (get_history_reader (rp_root rp') rp') p h = fetch_data (get_history_reader (rp_root rp) rp) p h"
  by (simp add: fetch_data_leaf)

subsection \<open>The keys a checkpoint writes\<close>

lemma changes_members:
  "InsertData c ds \<in> set (changes hs) \<longleftrightarrow> (c, ds) \<in> set (st_data (hs_state hs)) \<and> ds \<noteq> []"
  "DeleteData c \<in> set (changes hs) \<longleftrightarrow> (c, []) \<in> set (st_data (hs_state hs))"
  "InsertContinuations cs ks \<in> set (changes hs) \<longleftrightarrow> (cs, ks) \<in> set (st_continuations (hs_state hs)) \<and> ks \<noteq> []"
  "DeleteContinuations cs \<in> set (changes hs) \<longleftrightarrow> (cs, []) \<in> set (st_continuations (hs_state hs))"
  "InsertJoins c js \<in> set (changes hs) \<longleftrightarrow> (c, js) \<in> set (st_joins (hs_state hs)) \<and> js \<noteq> []"
  "DeleteJoins c \<in> set (changes hs) \<longleftrightarrow> (c, []) \<in> set (st_joins (hs_state hs))"
  by (force simp: changes_def Let_def split: if_splits)+

fun native_key :: "native_store_action \<Rightarrow> key_segment" where
  "native_key (NativePut p k v) = p # k"
| "native_key (NativeDelete p k) = p # k"

abbreviation checkpoint_storage where
  "checkpoint_storage dg sz hs ns \<equiv> storage_actions dg sz (map (transform dg sz) (changes hs)) ns"

lemma leaf_action_keys [simp]:
  "action_key (snd (insert_leaf dg p h leaf)) = p # h" "action_key (snd (delete_leaf p h)) = p # h"
  by (simp_all add: insert_leaf_def delete_leaf_def key_segment_def Let_def)

lemma native_action_key [simp]: "action_key (snd (calculate_native_storage_action dg n)) = native_key n"
  by (cases n) simp_all

lemma checkpoint_keys:
  "map action_key (map snd (checkpoint_storage dg sz hs ns)) =
     map (\<lambda>(cs, _). PREFIX_KONT # hash_channels dg (sz_enc_c sz) cs) (st_continuations (hs_state hs)) @
     map (\<lambda>(c, _). PREFIX_DATUM # hash_channel dg (sz_enc_c sz) c) (st_data (hs_state hs)) @
     map (\<lambda>(c, _). PREFIX_JOINS # hash_channel dg (sz_enc_c sz) c) (st_joins (hs_state hs)) @
     map native_key ns"
  by (auto simp: storage_actions_def changes_def Let_def)

lemma checkpoint_key_set:
  "action_key ` set (map snd (checkpoint_storage dg sz hs ns)) =
     (\<lambda>cs. PREFIX_KONT # hash_channels dg (sz_enc_c sz) cs) ` fst ` set (st_continuations (hs_state hs)) \<union>
     (\<lambda>c. PREFIX_DATUM # hash_channel dg (sz_enc_c sz) c) ` fst ` set (st_data (hs_state hs)) \<union>
     (\<lambda>c. PREFIX_JOINS # hash_channel dg (sz_enc_c sz) c) ` fst ` set (st_joins (hs_state hs)) \<union>
     native_key ` set ns"
  using arg_cong [OF checkpoint_keys [of dg sz hs ns], of set] by (simp add: image_image image_Un split_beta Un_assoc)

lemma native_key_prefix: "native_action_ok n \<Longrightarrow> hd (native_key n) \<notin> {PREFIX_DATUM, PREFIX_KONT, PREFIX_JOINS}"
  by (cases n) simp_all

lemma native_key_not:
  assumes "\<forall>n \<in> set ns. native_action_ok n" "p \<in> {PREFIX_DATUM, PREFIX_KONT, PREFIX_JOINS}"
  shows "p # h \<notin> native_key ` set ns"
proof
  assume "p # h \<in> native_key ` set ns"
  then obtain n where "n \<in> set ns" "native_key n = p # h" by auto
  then show False using assms native_key_prefix [of n] by simp
qed

lemma fresh_keys:
  assumes "\<forall>n \<in> set ns. native_action_ok n"
  shows "unshared (hash_channel dg (sz_enc_c sz)) (st_data (hs_state hs)) c \<Longrightarrow> bm_get (st_data (hs_state hs)) c = None \<Longrightarrow>
      PREFIX_DATUM # hash_channel dg (sz_enc_c sz) c \<notin> action_key ` set (map snd (checkpoint_storage dg sz hs ns))"
    and "unshared (hash_channels dg (sz_enc_c sz)) (st_continuations (hs_state hs)) cs \<Longrightarrow>
      bm_get (st_continuations (hs_state hs)) cs = None \<Longrightarrow>
      PREFIX_KONT # hash_channels dg (sz_enc_c sz) cs \<notin> action_key ` set (map snd (checkpoint_storage dg sz hs ns))"
    and "unshared (hash_channel dg (sz_enc_c sz)) (st_joins (hs_state hs)) c \<Longrightarrow> bm_get (st_joins (hs_state hs)) c = None \<Longrightarrow>
      PREFIX_JOINS # hash_channel dg (sz_enc_c sz) c \<notin> action_key ` set (map snd (checkpoint_storage dg sz hs ns))"
  unfolding checkpoint_key_set unshared_def map_of_eq_None_iff using native_key_not [OF assms] by auto

lemma checkpoint_actions_ok:
  assumes dg: "digest_ok dg" and ns: "\<forall>n \<in> set ns. native_action_ok n"
    and d: "distinct (map action_key (map snd (checkpoint_storage dg sz hs ns)))"
  shows "actions_ok 33 (map snd (checkpoint_storage dg sz hs ns))"
  unfolding actions_ok_def
proof (intro conjI ballI allI impI)
  fix a assume a: "a \<in> set (map snd (checkpoint_storage dg sz hs ns))"
  then have "action_key a \<in> action_key ` set (map snd (checkpoint_storage dg sz hs ns))" by blast
  moreover have "length (native_key n) = 33" if "n \<in> set ns" for n
    using ns that by (cases n) (auto simp: hash32_ok_def HASH32_LENGTH_def)
  ultimately show "length (action_key a) = 33"
    using dg unfolding checkpoint_key_set
    by (auto simp: digest_ok_def hash32_ok_def HASH32_LENGTH_def hash_channel_def hash_channels_def hash_hashes_def)
  fix h assume h: "action_value a = Some h"
  from a obtain x where "x \<in> set (checkpoint_storage dg sz hs ns)" "a = snd x" by auto
  then show "hash32_ok h"
    using h dg by (elim storage_shape) (auto simp: insert_leaf_def delete_leaf_def digest_ok_def Let_def)
qed (rule d)

subsection \<open>What the readers of the new root return\<close>

definition checkpointed ::
  "(bytes \<Rightarrow> hash32) \<Rightarrow> ('c::linorder, 'p, 'a, 'k) serializers \<Rightarrow> ('c, 'p, 'a, 'k) in_mem_hot_store \<Rightarrow>
   native_store_action list \<Rightarrow> repository \<Rightarrow> repository \<Rightarrow> bool" where
  "checkpointed dg sz hs ns rp rp' \<longleftrightarrow>
     repository_ok dg rp \<and> repository_ok dg rp' \<and> store_ok (reader_at dg sz rp) hs \<and> encodable sz (hs_state hs) \<and>
     (\<forall>n \<in> set ns. native_action_ok n) \<and>
     (\<forall>p h leaf. insert_leaf dg p h leaf \<in> set (checkpoint_storage dg sz hs ns) \<longrightarrow>
        leaf_at rp' (p # h) = Some (encode_persisted_data leaf)) \<and>
     (\<forall>p h. delete_leaf p h \<in> set (checkpoint_storage dg sz hs ns) \<longrightarrow> leaf_at rp' (p # h) = None) \<and>
     (\<forall>key. key \<notin> action_key ` set (map snd (checkpoint_storage dg sz hs ns)) \<longrightarrow> leaf_at rp' key = leaf_at rp key)"

lemma in_storage:
  "a \<in> set (changes hs) \<Longrightarrow> calculate_storage_action dg sz (transform dg sz a) \<in> set (checkpoint_storage dg sz hs ns)"
  by (simp add: storage_actions_def)

text \<open>
  The three kinds of list share their proof. A key that is not in the overlay reads as before; one that
  is reads as its new leaf, or as nothing when its list is empty.
\<close>

lemma unchanged_fetch:
  assumes "checkpointed dg sz hs ns rp rp'" "p # h \<notin> action_key ` set (map snd (checkpoint_storage dg sz hs ns))"
  shows "fetch_data (get_history_reader (rp_root rp') rp') p h = fetch_data (get_history_reader (rp_root rp) rp) p h"
  using assms by (intro fetch_same [of dg]) (simp_all add: checkpointed_def)

lemma deleted_fetch:
  assumes "checkpointed dg sz hs ns rp rp'" "a \<in> set (changes hs)" "calculate_storage_action dg sz (transform dg sz a) = delete_leaf p h"
  shows "fetch_data (get_history_reader (rp_root rp') rp') p h = Inr None"
proof (rule fetch_none [of dg])
  have "delete_leaf p h \<in> set (checkpoint_storage dg sz hs ns)"
    using in_storage [OF assms(2), of dg sz ns] by (simp only: assms(3))
  then show "leaf_at rp' (p # h) = None" using assms(1) by (simp add: checkpointed_def)
qed (use assms(1) in \<open>simp add: checkpointed_def\<close>)

lemma inserted_fetch:
  assumes "checkpointed dg sz hs ns rp rp'" "a \<in> set (changes hs)"
    "calculate_storage_action dg sz (transform dg sz a) = insert_leaf dg p h leaf" "length (leaf_bytes leaf) < 2 ^ 64"
  shows "fetch_data (get_history_reader (rp_root rp') rp') p h = Inr (Some leaf)"
proof (rule fetch_leaf [of dg])
  have "insert_leaf dg p h leaf \<in> set (checkpoint_storage dg sz hs ns)"
    using in_storage [OF assms(2), of dg sz ns] by (simp only: assms(3))
  then show "leaf_at rp' (p # h) = Some (encode_persisted_data leaf)" using assms(1) by (simp add: checkpointed_def)
qed (use assms in \<open>simp_all add: checkpointed_def\<close>)

lemma overlaid_after:
  fixes G :: "fetch_failure + persisted_data option \<Rightarrow> failure + 'v list"
  assumes ck: "checkpointed dg sz hs ns rp rp'"
    and fresh: "bm_get m x = None \<Longrightarrow> p # h \<notin> action_key ` set (map snd (checkpoint_storage dg sz hs ns))"
    and del: "bm_get m x = Some [] \<Longrightarrow> fetch_data (get_history_reader (rp_root rp') rp') p h = Inr None"
    and ins: "\<And>v. bm_get m x = Some v \<Longrightarrow> v \<noteq> [] \<Longrightarrow>
      \<exists>v'. G (fetch_data (get_history_reader (rp_root rp') rp') p h) = Inr v' \<and> R v' v"
    and G: "G (Inr None) = Inr []" and R: "\<And>v. R v v"
    and old: "reader x = G (fetch_data (get_history_reader (rp_root rp) rp) p h)" "\<not> isl (reader x)"
  shows "\<exists>v. G (fetch_data (get_history_reader (rp_root rp') rp') p h) = Inr v \<and> R v (overlaid m reader x)"
proof (cases "bm_get m x")
  case None
  then have "G (fetch_data (get_history_reader (rp_root rp') rp') p h) = Inr (projr (reader x))"
    using unchanged_fetch [OF ck fresh] old by (simp add: sum.collapse(2))
  then show ?thesis using None R by (simp add: overlaid_def)
next
  case (Some v)
  then show ?thesis using del ins G R by (cases "v = []") (simp_all add: overlaid_def)
qed

lemma data_after:
  assumes ck: "checkpointed dg sz hs ns rp rp'"
    and u: "unshared (hash_channel dg (sz_enc_c sz)) (st_data (hs_state hs)) c"
  shows "\<exists>ds. hr_data (reader_at dg sz rp') c = Inr ds \<and> mset ds = mset (vw_data (store_view hs) c)"
proof -
  have ns: "\<forall>n \<in> set ns. native_action_ok n" and hs: "hs_reader hs = reader_at dg sz rp" "reader_ok (reader_at dg sz rp)"
    using ck by (simp_all add: checkpointed_def store_ok_def)
  let ?G = "\<lambda>r. case r of Inl e \<Rightarrow> Inl (fetch_error ''persisted data'' e)
      | Inr (Some (DataLeaf bs)) \<Rightarrow> decoded (decode_datums (sz_dec_a sz) bs)
      | Inr (Some _) \<Rightarrow> Inl (Failed (UnexpectedLeaf ''data'')) | Inr None \<Rightarrow> Inr []"
  have "\<exists>ds. ?G (fetch_data (get_history_reader (rp_root rp') rp') PREFIX_DATUM (hash_channel dg (sz_enc_c sz) c)) = Inr ds \<and>
      mset ds = mset (overlaid (st_data (hs_state hs)) (hr_data (reader_at dg sz rp)) c)"
  proof (rule overlaid_after [OF ck, where R = "\<lambda>v w. mset v = mset w"])
    fix ds assume ds: "bm_get (st_data (hs_state hs)) c = Some ds" "ds \<noteq> []"
    then have ok: "length ds < 2 ^ 32" "\<forall>d \<in> set ds. datum_ok (sz_enc_a sz) (sz_dec_a sz) d"
      "length (encode_datums (sz_enc_a sz) ds) < 2 ^ 64"
      using ck by (simp_all add: encodable_def checkpointed_def)
    then show "\<exists>v. ?G (fetch_data (get_history_reader (rp_root rp') rp') PREFIX_DATUM (hash_channel dg (sz_enc_c sz) c)) = Inr v \<and>
        mset v = mset ds"
      using inserted_fetch [OF ck, of "InsertData c ds"] map_of_SomeD [OF ds(1)] ds(2) decode_encode_datums_sorted [OF ok(2,1)]
      by (simp add: changes_members)
  qed (use fresh_keys(1) [OF ns u] deleted_fetch [OF ck, of "DeleteData c"] hs(2) in
      \<open>auto simp: changes_members base_reader_def reader_get_data_def reader_ok_def dest: map_of_SomeD\<close>)
  then show ?thesis by (simp add: base_reader_def reader_get_data_def store_view_def view_over_def hs(1))
qed

lemma continuations_after:
  assumes ck: "checkpointed dg sz hs ns rp rp'"
    and u: "unshared (hash_channels dg (sz_enc_c sz)) (st_continuations (hs_state hs)) cs"
  shows "\<exists>ks. hr_continuations (reader_at dg sz rp') cs = Inr ks \<and> mset ks = mset (vw_continuations (store_view hs) cs)"
proof -
  have ns: "\<forall>n \<in> set ns. native_action_ok n" and hs: "hs_reader hs = reader_at dg sz rp" "reader_ok (reader_at dg sz rp)"
    using ck by (simp_all add: checkpointed_def store_ok_def)
  let ?G = "\<lambda>r. case r of Inl e \<Rightarrow> Inl (fetch_error ''persisted data'' e)
      | Inr (Some (ContinuationsLeaf bs)) \<Rightarrow> decoded (decode_continuations (sz_dec_p sz) (sz_dec_k sz) bs)
      | Inr (Some _) \<Rightarrow> Inl (Failed (UnexpectedLeaf ''continuations'')) | Inr None \<Rightarrow> Inr []"
  have "\<exists>ks. ?G (fetch_data (get_history_reader (rp_root rp') rp') PREFIX_KONT (hash_channels dg (sz_enc_c sz) cs)) = Inr ks \<and>
      mset ks = mset (overlaid (st_continuations (hs_state hs)) (hr_continuations (reader_at dg sz rp)) cs)"
  proof (rule overlaid_after [OF ck, where R = "\<lambda>v w. mset v = mset w"])
    fix ks assume ks: "bm_get (st_continuations (hs_state hs)) cs = Some ks" "ks \<noteq> []"
    then have ok: "length ks < 2 ^ 32"
      "\<forall>k \<in> set ks. continuation_ok (sz_enc_p sz) (sz_dec_p sz) (sz_enc_k sz) (sz_dec_k sz) k"
      "length (encode_continuations (sz_enc_p sz) (sz_enc_k sz) ks) < 2 ^ 64"
      using ck by (simp_all add: encodable_def checkpointed_def)
    then show "\<exists>v. ?G (fetch_data (get_history_reader (rp_root rp') rp') PREFIX_KONT (hash_channels dg (sz_enc_c sz) cs)) = Inr v \<and>
        mset v = mset ks"
      using inserted_fetch [OF ck, of "InsertContinuations cs ks"] map_of_SomeD [OF ks(1)] ks(2)
        decode_encode_continuations_sorted [OF ok(2,1)]
      by (simp add: changes_members)
  qed (use fresh_keys(2) [OF ns u] deleted_fetch [OF ck, of "DeleteContinuations cs"] hs(2) in
      \<open>auto simp: changes_members base_reader_def reader_get_continuations_def reader_ok_def dest: map_of_SomeD\<close>)
  then show ?thesis by (simp add: base_reader_def reader_get_continuations_def store_view_def view_over_def hs(1))
qed

lemma joins_after:
  assumes ck: "checkpointed dg sz hs ns rp rp'"
    and u: "unshared (hash_channel dg (sz_enc_c sz)) (st_joins (hs_state hs)) c"
  shows "\<exists>js. hr_joins (reader_at dg sz rp') c = Inr js \<and>
    image_mset mset (mset js) = image_mset mset (mset (vw_joins (store_view hs) c))"
proof -
  have ns: "\<forall>n \<in> set ns. native_action_ok n" and hs: "hs_reader hs = reader_at dg sz rp" "reader_ok (reader_at dg sz rp)"
    using ck by (simp_all add: checkpointed_def store_ok_def)
  let ?G = "\<lambda>r. case r of Inl e \<Rightarrow> Inl (fetch_error ''persisted data'' e)
      | Inr (Some (JoinsLeaf bs)) \<Rightarrow> decoded (decode_joins (sz_dec_c sz) bs)
      | Inr (Some _) \<Rightarrow> Inl (Failed (UnexpectedLeaf ''joins'')) | Inr None \<Rightarrow> Inr []"
  have "\<exists>js. ?G (fetch_data (get_history_reader (rp_root rp') rp') PREFIX_JOINS (hash_channel dg (sz_enc_c sz) c)) = Inr js \<and>
      image_mset mset (mset js) = image_mset mset (mset (overlaid (st_joins (hs_state hs)) (hr_joins (reader_at dg sz rp)) c))"
  proof (rule overlaid_after [OF ck, where R = "\<lambda>v w. image_mset mset (mset v) = image_mset mset (mset w)"])
    fix js assume js: "bm_get (st_joins (hs_state hs)) c = Some js" "js \<noteq> []"
    then have ok: "length js < 2 ^ 32" "\<forall>j \<in> set js. join_ok (sz_enc_c sz) (sz_dec_c sz) j"
      "length (encode_joins (sz_enc_c sz) js) < 2 ^ 64"
      using ck by (simp_all add: encodable_def checkpointed_def)
    then show "\<exists>v. ?G (fetch_data (get_history_reader (rp_root rp') rp') PREFIX_JOINS (hash_channel dg (sz_enc_c sz) c)) = Inr v \<and>
        image_mset mset (mset v) = image_mset mset (mset js)"
      using inserted_fetch [OF ck, of "InsertJoins c js"] map_of_SomeD [OF js(1)] js(2) decode_encode_joins_sorted [OF ok(2,1)]
      by (simp add: changes_members multiset.map_comp comp_def)
  qed (use fresh_keys(3) [OF ns u] deleted_fetch [OF ck, of "DeleteJoins c"] hs(2) in
      \<open>auto simp: changes_members base_reader_def reader_get_joins_def reader_ok_def dest: map_of_SomeD\<close>)
  then show ?thesis by (simp add: base_reader_def reader_get_joins_def store_view_def view_over_def hs(1))
qed

subsection \<open>Native state\<close>

lemma apply_native_other: "p # k \<noteq> native_key n \<Longrightarrow> apply_native n f p k = f p k"
  by (cases n) auto

lemma fold_apply_native_other: "p # k \<notin> native_key ` set ns \<Longrightarrow> fold apply_native ns f p k = f p k"
  by (induction ns arbitrary: f) (simp_all add: apply_native_other)

fun native_value :: "native_store_action \<Rightarrow> bytes option" where
  "native_value (NativePut p k v) = Some v"
| "native_value (NativeDelete p k) = None"

lemma fold_apply_native_at:
  "distinct (map native_key ns) \<Longrightarrow> n \<in> set ns \<Longrightarrow> native_key n = p # k \<Longrightarrow>
     fold apply_native ns f p k = Inr (native_value n)"
proof (induction ns arbitrary: f)
  case (Cons m ns)
  show ?case
  proof (cases "n = m")
    case True
    then have "p # k \<notin> native_key ` set ns" using Cons.prems by auto
    moreover have "apply_native m f p k = Inr (native_value m)" using True Cons.prems(3) by (cases m) auto
    ultimately show ?thesis using True by (simp add: fold_apply_native_other)
  next
    case False
    then show ?thesis using Cons by simp
  qed
qed simp

lemma native_after:
  assumes ck: "checkpointed dg sz hs ns rp rp'" and d: "distinct (map native_key ns)"
    and p: "p \<notin> {PREFIX_DATUM, PREFIX_KONT, PREFIX_JOINS}"
  shows "native_reader_of (get_history_reader (rp_root rp') rp') p k =
    fold apply_native ns (native_reader_of (get_history_reader (rp_root rp) rp)) p k"
proof (cases "p # k \<in> native_key ` set ns")
  case False
  then have "p # k \<notin> action_key ` set (map snd (checkpoint_storage dg sz hs ns))"
    using p unfolding checkpoint_key_set by auto
  from unchanged_fetch [OF ck this] show ?thesis
    using False by (simp add: fold_apply_native_other native_reader_of_def)
next
  case True
  then obtain n where n: "n \<in> set ns" "native_key n = p # k" by auto
  have st: "calculate_native_storage_action dg n \<in> set (checkpoint_storage dg sz hs ns)"
    using n(1) by (simp add: storage_actions_def)
  have "native_reader_of (get_history_reader (rp_root rp') rp') p k = Inr (native_value n)"
  proof (cases n)
    case (NativePut q l v)
    then have "leaf_at rp' (p # k) = Some (encode_persisted_data (NativeLeaf v))" "length v < 2 ^ 64"
      using ck st n by (auto simp: checkpointed_def)
    then show ?thesis
      using fetch_leaf [of dg rp' p k "NativeLeaf v"] ck NativePut by (simp add: checkpointed_def native_reader_of_def)
  next
    case (NativeDelete q l)
    then have "leaf_at rp' (p # k) = None" using ck st n by (auto simp: checkpointed_def)
    then show ?thesis
      using fetch_none [of dg rp' p k] ck NativeDelete by (simp add: checkpointed_def native_reader_of_def)
  qed
  then show ?thesis by (simp only: fold_apply_native_at [OF d n])
qed

section \<open>Properties\<close>


text \<open>
  C39: the radix key of a join does not depend on the order of its channels, while the overlay keeps one
  entry for each order. Two such entries make the checkpoint panic.
\<close>

theorem join_in_two_orders_panics:
  assumes "cs \<noteq> ds" "mset cs = mset ds" "bm_get (st_continuations (hs_state hs)) cs \<noteq> None"
    "bm_get (st_continuations (hs_state hs)) ds \<noteq> None"
  shows "snd (checkpoint_with_native dg sz (changes hs) ns rp) = Inl (HistoryPanic DuplicateActions)"
  unfolding checkpoint_with_native_def
proof (rule checkpoint_duplicates, unfold checkpoint_keys)
  let ?k = "\<lambda>(cs, _). PREFIX_KONT # hash_channels dg (sz_enc_c sz) cs"
  have "cs \<in> fst ` set (st_continuations (hs_state hs))" "ds \<in> fst ` set (st_continuations (hs_state hs))"
    using assms(3,4) by (simp_all add: map_of_eq_None_iff)
  then obtain ks ls where m: "(cs, ks) \<in> set (st_continuations (hs_state hs))" "(ds, ls) \<in> set (st_continuations (hs_state hs))"
    by auto
  have "?k (cs, ks) = ?k (ds, ls)" using hash_channels_mset [OF assms(2), of dg "sz_enc_c sz"] by simp
  then have "\<not> inj_on ?k (set (st_continuations (hs_state hs)))"
    using m assms(1) by (metis inj_on_def prod.inject)
  then have "\<not> distinct (map ?k (st_continuations (hs_state hs)))" by (simp only: distinct_map simp_thms)
  then show "\<not> distinct (map ?k (st_continuations (hs_state hs)) @
     map (\<lambda>(c, _). PREFIX_DATUM # hash_channel dg (sz_enc_c sz) c) (st_data (hs_state hs)) @
     map (\<lambda>(c, _). PREFIX_JOINS # hash_channel dg (sz_enc_c sz) c) (st_joins (hs_state hs)) @ map native_key ns)"
    by (simp only: distinct_append simp_thms)
qed

subsection \<open>Witnesses\<close>

definition byte_serializers :: "(byte, byte, byte, byte) serializers" where
  "byte_serializers =
     \<lparr>sz_enc_c = (\<lambda>b. [b]), sz_dec_c = one_byte, sz_enc_p = (\<lambda>b. [b]), sz_dec_p = one_byte,
      sz_enc_a = (\<lambda>b. [b]), sz_dec_a = one_byte, sz_enc_k = (\<lambda>b. [b]), sz_dec_k = one_byte\<rparr>"

definition fresh_repository :: repository where
  "fresh_repository =
     \<lparr>rp_history = radix_history_new (empty_root_hash sample_digest) [], rp_roots = [], rp_leaves = []\<rparr>"

definition sample_overlay :: "(byte, byte, byte, byte) hot_store_state" where
  "sample_overlay = hot_store_state_default\<lparr>st_data := [(5, [sample_datum 6])]\<rparr>"

definition sample_store :: "(byte, byte, byte, byte) in_mem_hot_store" where
  "sample_store = hot_store_from_state sample_overlay (reader_at sample_digest byte_serializers fresh_repository)"

lemma fresh_repository_ok: "repository_ok sample_digest fresh_repository"
  and fresh_leaf [simp]: "leaf_at fresh_repository k = None"
  using history_ok_fresh [of 32 sample_digest]
  by (simp_all add: repository_ok_def fresh_repository_def leaf_at_def)

lemma fresh_reader_ok: "reader_ok (reader_at sample_digest sz fresh_repository)"
  using fetch_none [OF fresh_repository_ok fresh_leaf]
  by (simp add: reader_ok_def base_reader_def reader_get_data_def reader_get_continuations_def reader_get_joins_def)

lemma sample_store_ok: "store_ok (reader_at sample_digest byte_serializers fresh_repository) sample_store"
  unfolding sample_store_def
  by (rule hot_store_from_state_ok [OF fresh_reader_ok])
    (simp add: state_ok_def sample_overlay_def hot_store_state_default_def btmap_ok_def)

lemma sample_store_changes: "changes sample_store = [InsertData 5 [sample_datum 6]]"
  by (simp add: changes_def sample_store_def hot_store_from_state_def sample_overlay_def hot_store_state_default_def)

lemma sample_store_encodable: "encodable byte_serializers (hs_state sample_store)"
  using sample_datum_ok [of 6]
  by (simp add: encodable_def sample_store_def hot_store_from_state_def sample_overlay_def hot_store_state_default_def
      byte_serializers_def encode_datums_def encode_seq_byte_vectors_def be_bytes_def finished_length [OF writes_datum]
      produce_bits_def sample_datum_def)


definition two_orders_store :: "(byte, byte, byte, byte) in_mem_hot_store" where
  "two_orders_store =
     hot_store_from_state
       (hot_store_state_default\<lparr>st_continuations := [([1, 2], [sample_continuation]), ([2, 1], [sample_continuation])]\<rparr>)
       (reader_at sample_digest byte_serializers fresh_repository)"

theorem join_in_two_orders_panics_witness:
  "snd (checkpoint_with_native sample_digest byte_serializers (changes two_orders_store) [] fresh_repository) =
     Inl (HistoryPanic DuplicateActions)"
  by (rule join_in_two_orders_panics [of "[1, 2]" "[2, 1]"])
    (simp_all add: two_orders_store_def hot_store_from_state_def hot_store_state_default_def)

end
