(* ===== verification/Space.thy ===== *)
theory Space
  imports History_Repository Matcher
begin

text \<open>
  The play tuple space (\<^verbatim>\<open>rspace/src/rspace.rs\<close>): produce, consume and install over the overlay, the event
  log and the produce counters, soft and hard checkpoints and resets. The two-step lock serialises the
  operations that touch a common channel, so an operation is one state transformer; the join lookup that
  the lock makes before a produce is part of it. The matcher is a parameter, as are the serialisers and
  the digest.

  Every operation is shown to implement a function on the view of the overlay (\<open>Hot_Store\<close>), the event log
  and the counters. The properties are stated over these functions.
\<close>

record ('c, 'p, 'a, 'k) rspace =
  rs_repository :: repository
  rs_store :: "('c, 'p, 'a, 'k) in_mem_hot_store"
  rs_event_log :: "event list"
  rs_produce_counter :: "(hash32, nat) btmap"
  rs_installs :: "('c list, ('p, 'k) install) btmap"
  rs_native :: "failure native_store"

type_synonym ('c, 'p, 'a, 'k, 'x) space_op = "(('c, 'p, 'a, 'k) rspace, failure, 'x) op"
type_synonym ('c, 'p, 'a, 'k) action_result = "(('c, 'p, 'k) cont_result \<times> ('c, 'a) match_result list) option"

record ('c, 'p, 'a, 'k) space_env =
  se_digest :: "bytes \<Rightarrow> hash32"
  se_serializers :: "('c, 'p, 'a, 'k) serializers"
  se_matcher :: "'p \<Rightarrow> 'a \<Rightarrow> 'a option"

definition rspace_new :: "repository \<Rightarrow> ('c, 'p, 'a, 'k) in_mem_hot_store \<Rightarrow> ('c, 'p, 'a, 'k) rspace" where
  "rspace_new rp hs =
     \<lparr>rs_repository = rp, rs_store = hs, rs_event_log = [], rs_produce_counter = [], rs_installs = [],
      rs_native = native_empty\<rparr>"

definition on_store :: "('c, 'p, 'a, 'k, 'x) store_op \<Rightarrow> ('c, 'p, 'a, 'k, 'x) space_op" where
  "on_store f rs = (let (hs, r) = f (rs_store rs) in (rs\<lparr>rs_store := hs\<rparr>, r))"

section \<open>Counters and the event log\<close>

definition produce_counters :: "(hash32, nat) btmap \<Rightarrow> produce list \<Rightarrow> (hash32, nat) btmap" where
  "produce_counters counter produce_refs =
     bm_collect (map (\<lambda>p. (pr_hash p, bm_get_or 0 counter (pr_hash p))) produce_refs)"

definition produce_counter_value :: "(hash32, nat) btmap \<Rightarrow> produce \<Rightarrow> nat" where
  "produce_counter_value counter source = bm_get_or 0 counter (pr_hash source)"

definition increment_produce_counter :: "produce \<Rightarrow> ('c, 'p, 'a, 'k, unit) space_op" where
  "increment_produce_counter p rs =
     (rs\<lparr>rs_produce_counter := bm_entry (pr_hash p) 0 Suc (rs_produce_counter rs)\<rparr>, Inr ())"

definition log_comm :: "comm \<Rightarrow> ('c, 'p, 'a, 'k, unit) space_op" where
  "log_comm c rs = (rs\<lparr>rs_event_log := EComm c # rs_event_log rs\<rparr>, Inr ())"

definition log_consume :: "consume \<Rightarrow> ('c, 'p, 'a, 'k, unit) space_op" where
  "log_consume c rs = (rs\<lparr>rs_event_log := EConsume c # rs_event_log rs\<rparr>, Inr ())"

definition log_produce :: "produce \<Rightarrow> bool \<Rightarrow> ('c, 'p, 'a, 'k, unit) space_op" where
  "log_produce p persist rs =
     (rs\<lparr>rs_event_log := EProduce p # rs_event_log rs,
         rs_produce_counter :=
           (if persist then rs_produce_counter rs else bm_entry (pr_hash p) 0 Suc (rs_produce_counter rs))\<rparr>, Inr ())"

section \<open>Fetching candidates\<close>

definition indexed_data :: "'a datum list \<Rightarrow> 'a indexed" where
  "indexed_data ds = map (\<lambda>(i, d). (d, int i)) (enumerate 0 ds)"

definition by_produce_hash :: "'a indexed \<Rightarrow> 'a indexed" where
  "by_produce_hash = sort_key (\<lambda>(d, i). pr_hash (dt_source d))"

primrec fetch_loop ::
  "('c \<Rightarrow> 'a datum list \<Rightarrow> 'a indexed) \<Rightarrow> 'c::linorder list \<Rightarrow> ('c, 'a indexed) btmap \<Rightarrow>
   ('c, 'p, 'a, 'k, ('c, 'a indexed) btmap) space_op" where
  "fetch_loop f [] mp = ret mp"
| "fetch_loop f (c # cs) mp =
     and_then (on_store (get_data c)) (\<lambda>ds. fetch_loop f cs (bm_insert c (f c ds) mp))"

definition fetch_channel_to_index_data ::
  "'c::linorder list \<Rightarrow> ('c, 'p, 'a, 'k, ('c, 'a indexed) btmap) space_op" where
  "fetch_channel_to_index_data channels = fetch_loop (\<lambda>_ ds. by_produce_hash (indexed_data ds)) channels []"

section \<open>Storing and removing\<close>

definition store_waiting_continuation ::
  "'c::linorder list \<Rightarrow> ('p, 'k) waiting_continuation \<Rightarrow> ('c, 'p, 'a, 'k, ('c, 'p, 'a, 'k) action_result) space_op" where
  "store_waiting_continuation channels wc =
     and_then (on_store (put_continuation channels wc)) (\<lambda>_.
     and_then (for_each channels (\<lambda>c. on_store (put_join c channels))) (\<lambda>_. ret None))"

definition store_data ::
  "'c::linorder \<Rightarrow> 'a \<Rightarrow> bool \<Rightarrow> produce \<Rightarrow> ('c, 'p, 'a, 'k, ('c, 'p, 'a, 'k) action_result) space_op" where
  "store_data channel a persist produce_ref =
     and_then (on_store (put_datum channel \<lparr>dt_a = a, dt_persist = persist, dt_source = produce_ref\<rparr>)) (\<lambda>_. ret None)"

text \<open>Candidates by descending datum index: a removal does not shift the indices still to come.\<close>

definition by_descending_index :: "('c, 'a) consume_candidate list \<Rightarrow> ('c, 'a) consume_candidate list" where
  "by_descending_index cs = sort_key (\<lambda>c. - cc_datum_index c) cs"

definition store_persistent_data ::
  "('c::linorder, 'a) consume_candidate list \<Rightarrow> ('c, 'p, 'a, 'k, unit) space_op" where
  "store_persistent_data data_candidates =
     for_each (by_descending_index data_candidates) (\<lambda>c.
       if \<not> dt_persist (cc_datum c) then on_store (remove_datum (cc_channel c) (cc_datum_index c)) else ret ())"

definition remove_matched_datum_and_join ::
  "'c::linorder list \<Rightarrow> ('c, 'a) consume_candidate list \<Rightarrow> ('c, 'p, 'a, 'k, unit) space_op" where
  "remove_matched_datum_and_join channels data_candidates =
     for_each (by_descending_index data_candidates) (\<lambda>c.
       and_then
         (if cc_datum_index c \<ge> 0 \<and> \<not> dt_persist (cc_datum c)
          then on_store (remove_datum (cc_channel c) (cc_datum_index c)) else ret ())
         (\<lambda>_. on_store (remove_join (cc_channel c) channels)))"

definition wrap_result ::
  "'c list \<Rightarrow> ('p, 'k) waiting_continuation \<Rightarrow> ('c, 'a) consume_candidate list \<Rightarrow> ('c, 'p, 'a, 'k) action_result" where
  "wrap_result channels wk data_candidates =
     Some (\<lparr>cr_continuation = wc_continuation wk, cr_persistent = wc_persist wk, cr_channels = channels,
            cr_patterns = wc_patterns wk, cr_peek = (wc_peeks wk \<noteq> [])\<rparr>,
           map (\<lambda>dc. \<lparr>mr_channel = cc_channel dc, mr_matched_datum = dt_a (cc_datum dc),
                      mr_removed_datum = cc_removed_datum dc, mr_persistent = dt_persist (cc_datum dc)\<rparr>) data_candidates)"

section \<open>Consume\<close>

definition comm_of ::
  "('c, 'a) consume_candidate list \<Rightarrow> consume \<Rightarrow> nat btset \<Rightarrow> ('c, 'p, 'a, 'k) rspace \<Rightarrow> comm" where
  "comm_of data_candidates consume_ref peeks rs =
     comm_apply data_candidates consume_ref peeks (produce_counters (rs_produce_counter rs))"

definition locked_consume ::
  "('p \<Rightarrow> 'a \<Rightarrow> 'a option) \<Rightarrow> 'c::linorder list \<Rightarrow> 'p list \<Rightarrow> 'k \<Rightarrow> bool \<Rightarrow> nat btset \<Rightarrow> consume \<Rightarrow>
   ('c, 'p, 'a, 'k, ('c, 'p, 'a, 'k) action_result) space_op" where
  "locked_consume m channels patterns continuation persist peeks consume_ref =
     and_then (log_consume consume_ref) (\<lambda>_.
     and_then (fetch_channel_to_index_data channels) (\<lambda>mp.
       let options = extract_data_candidates (zip channels patterns) mp m;
           wk = \<lparr>wc_patterns = patterns, wc_continuation = continuation, wc_persist = persist, wc_peeks = peeks,
                 wc_source = consume_ref\<rparr>
       in case those options of
            None \<Rightarrow> store_waiting_continuation channels wk
          | Some data_candidates \<Rightarrow>
              and_then (\<lambda>rs. log_comm (comm_of data_candidates consume_ref peeks rs) rs) (\<lambda>_.
              and_then (store_persistent_data data_candidates) (\<lambda>_.
                ret (wrap_result channels wk data_candidates)))))"

definition consume ::
  "('c::linorder, 'p, 'a, 'k) space_env \<Rightarrow> 'c list \<Rightarrow> 'p list \<Rightarrow> 'k \<Rightarrow> bool \<Rightarrow> nat btset \<Rightarrow>
   ('c, 'p, 'a, 'k, ('c, 'p, 'a, 'k) action_result) space_op" where
  "consume env channels patterns continuation persist peeks =
     (if channels = [] \<or> length channels \<noteq> length patterns then throw Panicked
      else
        let sz = se_serializers env;
            consume_ref = consume_apply (se_digest env) (sz_enc_c sz) (sz_enc_p sz) (sz_enc_k sz)
              channels patterns continuation persist
        in locked_consume (se_matcher env) channels patterns continuation persist peeks consume_ref)"

section \<open>Produce\<close>

text \<open>The in-flight datum is the first candidate of its channel, at index \<open>- 1\<close>.\<close>

definition with_in_flight :: "'c \<Rightarrow> 'a datum \<Rightarrow> 'c \<Rightarrow> 'a datum list \<Rightarrow> 'a indexed" where
  "with_in_flight bat_channel d c ds =
     (let indexed = by_produce_hash (indexed_data ds)
      in if c = bat_channel then (d, - 1) # indexed else indexed)"

primrec extract_produce_candidate ::
  "('p \<Rightarrow> 'a \<Rightarrow> 'a option) \<Rightarrow> 'c::linorder list list \<Rightarrow> 'c \<Rightarrow> 'a datum \<Rightarrow>
   ('c, 'p, 'a, 'k, ('c, 'p, 'a, 'k) produce_candidate option) space_op" where
  "extract_produce_candidate m [] bat_channel d = ret None"
| "extract_produce_candidate m (channels # rest) bat_channel d =
     and_then (on_store (get_continuations channels)) (\<lambda>conts.
     and_then (fetch_loop (with_in_flight bat_channel d) channels []) (\<lambda>mp.
       let match_candidates = map (\<lambda>(i, wc). (wc, i)) (enumerate 0 conts)
       in case extract_first_match channels match_candidates mp m of
            Some pc \<Rightarrow> ret (Some pc)
          | None \<Rightarrow> extract_produce_candidate m rest bat_channel d))"

definition process_match_found ::
  "('c::linorder, 'p, 'a, 'k) produce_candidate \<Rightarrow> ('c, 'p, 'a, 'k, ('c, 'p, 'a, 'k) action_result) space_op" where
  "process_match_found pc =
     (let wk = pc_continuation pc in
      and_then (\<lambda>rs. log_comm (comm_of (pc_data_candidates pc) (wc_source wk) (wc_peeks wk) rs) rs) (\<lambda>_.
      and_then
        (if \<not> wc_persist wk then on_store (remove_continuation (pc_channels pc) (pc_continuation_index pc)) else ret ())
        (\<lambda>_.
      and_then (remove_matched_datum_and_join (pc_channels pc) (pc_data_candidates pc)) (\<lambda>_.
        ret (wrap_result (pc_channels pc) wk (pc_data_candidates pc))))))"

definition locked_produce ::
  "('p \<Rightarrow> 'a \<Rightarrow> 'a option) \<Rightarrow> 'c::linorder \<Rightarrow> 'a \<Rightarrow> bool \<Rightarrow> produce \<Rightarrow>
   ('c, 'p, 'a, 'k, ('c, 'p, 'a, 'k) action_result) space_op" where
  "locked_produce m channel a persist produce_ref =
     and_then (on_store (get_joins channel)) (\<lambda>grouped_channels.
     and_then (log_produce produce_ref persist) (\<lambda>_.
     and_then (extract_produce_candidate m grouped_channels channel
         \<lparr>dt_a = a, dt_persist = persist, dt_source = produce_ref\<rparr>) (\<lambda>extracted.
       case extracted of
         None \<Rightarrow> store_data channel a persist produce_ref
       | Some pc \<Rightarrow> process_match_found pc)))"

definition produce ::
  "('c::linorder, 'p, 'a, 'k) space_env \<Rightarrow> 'c \<Rightarrow> 'a \<Rightarrow> bool \<Rightarrow> ('c, 'p, 'a, 'k, ('c, 'p, 'a, 'k) action_result) space_op" where
  "produce env channel a persist =
     (let sz = se_serializers env;
          produce_ref = produce_apply (se_digest env) (sz_enc_c sz) (sz_enc_a sz) channel a persist
      in and_then (on_store (get_joins channel)) (\<lambda>_.
           locked_produce (se_matcher env) channel a persist produce_ref))"

section \<open>Install\<close>

definition locked_install ::
  "('c::linorder, 'p, 'a, 'k) space_env \<Rightarrow> 'c list \<Rightarrow> 'p list \<Rightarrow> 'k \<Rightarrow> ('c, 'p, 'a, 'k, ('k \<times> 'a list) option) space_op" where
  "locked_install env channels patterns continuation =
     (let sz = se_serializers env;
          consume_ref = consume_apply (se_digest env) (sz_enc_c sz) (sz_enc_p sz) (sz_enc_k sz)
            channels patterns continuation True
      in and_then (on_store (get_continuations channels)) (\<lambda>existing.
           if \<exists>wc \<in> set existing. consume_eq (wc_source wc) consume_ref then ret None
           else
             and_then (fetch_loop (\<lambda>_. indexed_data) channels []) (\<lambda>mp.
               case those (extract_data_candidates (zip channels patterns) mp (se_matcher env)) of
                 Some _ \<Rightarrow> throw (Failed InstallNotAllowed)
               | None \<Rightarrow>
                   and_then (\<lambda>rs. (rs\<lparr>rs_installs := bm_insert channels
                       \<lparr>in_patterns = patterns, in_continuation = continuation\<rparr> (rs_installs rs)\<rparr>, Inr ())) (\<lambda>_.
                   and_then (on_store (install_continuation channels
                       \<lparr>wc_patterns = patterns, wc_continuation = continuation, wc_persist = True, wc_peeks = [],
                        wc_source = consume_ref\<rparr>)) (\<lambda>_.
                   and_then (for_each channels (\<lambda>c. on_store (install_join c channels))) (\<lambda>_. ret None))))))"

definition install ::
  "('c::linorder, 'p, 'a, 'k) space_env \<Rightarrow> 'c list \<Rightarrow> 'p list \<Rightarrow> 'k \<Rightarrow> ('c, 'p, 'a, 'k, ('k \<times> 'a list) option) space_op" where
  "install env channels patterns continuation =
     (if length channels \<noteq> length patterns then throw Panicked
      else locked_install env channels patterns continuation)"

section \<open>Checkpoints\<close>

record hard_checkpoint =
  ck_root :: hash32
  ck_log :: "event list"

record ('c, 'p, 'a, 'k) soft_checkpoint =
  sc_cache_snapshot :: "('c, 'p, 'a, 'k) hot_store_state"
  sc_log :: "event list"
  sc_produce_counter :: "(hash32, nat) btmap"
  sc_native_snapshot :: native_store_state

text \<open>
  \<^verbatim>\<open>create_checkpoint\<close>. The native overlay is drained before the repository is asked; a failure leaves the
  rest of the space as it was.
\<close>

definition create_checkpoint ::
  "('c::linorder, 'p, 'a, 'k) space_env \<Rightarrow> ('c, 'p, 'a, 'k) rspace \<Rightarrow>
   ('c, 'p, 'a, 'k) rspace \<times> (repository_failure + hard_checkpoint)" where
  "create_checkpoint env rs =
     (let dg = se_digest env; sz = se_serializers env;
          actions = changes (rs_store rs);
          (native, native_actions) = drain_changes (rs_native rs)
      in case checkpoint_with_native dg sz actions native_actions (rs_repository rs) of
           (rp, Inl e) \<Rightarrow> (rs\<lparr>rs_native := native, rs_repository := rp\<rparr>, Inl e)
         | (rp, Inr _) \<Rightarrow>
             (rs\<lparr>rs_repository := rp, rs_event_log := [], rs_produce_counter := [],
                 rs_store := hot_store_new (base_reader dg sz (get_history_reader (rp_root rp) rp)),
                 rs_native := set_reader (native_reader_of (get_history_reader (rp_root rp) rp)) native\<rparr>,
              Inr \<lparr>ck_root = rp_root rp, ck_log = rs_event_log rs\<rparr>))"

definition reset ::
  "('c::linorder, 'p, 'a, 'k) space_env \<Rightarrow> hash32 \<Rightarrow> ('c, 'p, 'a, 'k) rspace \<Rightarrow>
   ('c, 'p, 'a, 'k) rspace \<times> (repository_failure + unit)" where
  "reset env root rs =
     (case repository_reset root (rs_repository rs) of
        (rp, Inl e) \<Rightarrow> (rs\<lparr>rs_repository := rp\<rparr>, Inl e)
      | (rp, Inr _) \<Rightarrow>
          (rs\<lparr>rs_repository := rp, rs_event_log := [], rs_produce_counter := [],
              rs_store := hot_store_new (base_reader (se_digest env) (se_serializers env) (get_history_reader root rp)),
              rs_native := set_reader (native_reader_of (get_history_reader root rp)) (native_revert [] (rs_native rs))\<rparr>,
           Inr ()))"

definition clear ::
  "('c::linorder, 'p, 'a, 'k) space_env \<Rightarrow> ('c, 'p, 'a, 'k) rspace \<Rightarrow>
   ('c, 'p, 'a, 'k) rspace \<times> (repository_failure + unit)" where
  "clear env rs = reset env (empty_root_hash (se_digest env)) rs"

definition create_soft_checkpoint ::
  "('c, 'p, 'a, 'k) rspace \<Rightarrow> ('c, 'p, 'a, 'k) rspace \<times> ('c, 'p, 'a, 'k) soft_checkpoint" where
  "create_soft_checkpoint rs =
     (rs\<lparr>rs_event_log := [], rs_produce_counter := []\<rparr>,
      \<lparr>sc_cache_snapshot = snapshot (rs_store rs), sc_log = rs_event_log rs,
       sc_produce_counter = rs_produce_counter rs, sc_native_snapshot = native_snapshot (rs_native rs)\<rparr>)"

definition revert_to_soft_checkpoint ::
  "('c::linorder, 'p, 'a, 'k) space_env \<Rightarrow> ('c, 'p, 'a, 'k) soft_checkpoint \<Rightarrow> ('c, 'p, 'a, 'k) rspace \<Rightarrow>
   ('c, 'p, 'a, 'k) rspace" where
  "revert_to_soft_checkpoint env ck rs =
     (let rp = rs_repository rs;
          base = base_reader (se_digest env) (se_serializers env) (get_history_reader (rp_root rp) rp)
      in rs\<lparr>rs_store := hot_store_from_state (sc_cache_snapshot ck) base, rs_event_log := sc_log ck,
            rs_produce_counter := sc_produce_counter ck, rs_native := native_revert (sc_native_snapshot ck) (rs_native rs)\<rparr>)"

text \<open>\<^verbatim>\<open>get_data\<close>, \<^verbatim>\<open>get_waiting_continuations\<close>, \<^verbatim>\<open>get_joins\<close> and \<^verbatim>\<open>to_map\<close> of the space.\<close>

definition space_get_data :: "'c::linorder \<Rightarrow> ('c, 'p, 'a, 'k, 'a datum list) space_op" where
  "space_get_data c = on_store (get_data c)"

definition space_get_waiting_continuations ::
  "'c::linorder list \<Rightarrow> ('c, 'p, 'a, 'k, ('p, 'k) waiting_continuation list) space_op" where
  "space_get_waiting_continuations cs = on_store (get_continuations cs)"

definition space_get_joins :: "'c::linorder \<Rightarrow> ('c, 'p, 'a, 'k, 'c list list) space_op" where
  "space_get_joins c = on_store (get_joins c)"

definition space_to_map :: "('c::linorder, 'p, 'a, 'k) rspace \<Rightarrow> ('c list, ('p, 'a, 'k) row) btmap" where
  "space_to_map rs = to_map (rs_store rs)"

section \<open>The view of a space\<close>

text \<open>What a space stands for: the store is replaced by its view, the other parts are kept.\<close>

record ('c, 'p, 'a, 'k) space_view =
  sv_tuples :: "('c, 'p, 'a, 'k) tuple_view"
  sv_log :: "event list"
  sv_counter :: "(hash32, nat) btmap"
  sv_installs :: "('c list, ('p, 'k) install) btmap"
  sv_repository :: repository
  sv_native :: "failure native_store"

definition view_of :: "('c, 'p, 'a, 'k) rspace \<Rightarrow> ('c, 'p, 'a, 'k) space_view" where
  "view_of rs =
     \<lparr>sv_tuples = store_view (rs_store rs), sv_log = rs_event_log rs, sv_counter = rs_produce_counter rs,
      sv_installs = rs_installs rs, sv_repository = rs_repository rs, sv_native = rs_native rs\<rparr>"

definition space_ok :: "('c::linorder, 'p, 'a, 'k) history_reader_base \<Rightarrow> ('c, 'p, 'a, 'k) rspace \<Rightarrow> bool" where
  "space_ok r rs \<longleftrightarrow> store_ok r (rs_store rs)"

definition on_tuples ::
  "(('c, 'p, 'a, 'k) tuple_view \<Rightarrow> ('c, 'p, 'a, 'k) tuple_view \<times> 'x) \<Rightarrow> ('c, 'p, 'a, 'k) space_view \<Rightarrow>
   ('c, 'p, 'a, 'k) space_view \<times> 'x" where
  "on_tuples f v = (v\<lparr>sv_tuples := fst (f (sv_tuples v))\<rparr>, snd (f (sv_tuples v)))"

abbreviation space_implements where
  "space_implements r \<equiv> implements (space_ok r) view_of"

lemma on_store_implements:
  assumes "store_implements r f g"
  shows "space_implements r (on_store f) (on_tuples g)"
  unfolding implements_def
proof (intro allI impI)
  fix rs assume "space_ok r rs"
  then obtain hs where "f (rs_store rs) = (hs, Inr (snd (g (store_view (rs_store rs)))))" "store_ok r hs"
    "store_view hs = fst (g (store_view (rs_store rs)))"
    using implementsE [OF assms] by (metis space_ok_def)
  then show "\<exists>rs'. on_store f rs = (rs', Inr (snd (on_tuples g (view_of rs)))) \<and> space_ok r rs' \<and>
      view_of rs' = fst (on_tuples g (view_of rs))"
    by (simp add: on_store_def on_tuples_def view_of_def space_ok_def)
qed

lemma pure_implements:
  assumes "\<And>rs. m rs = (upd rs, Inr x)" "\<And>rs. rs_store (upd rs) = rs_store rs"
    "\<And>rs. view_of (upd rs) = f (view_of rs)"
  shows "space_implements r m (\<lambda>v. (f v, x))"
  using assms by (simp add: implements_def space_ok_def)

section \<open>What each operation does to the view\<close>

definition v_log :: "event \<Rightarrow> ('c, 'p, 'a, 'k) space_view \<Rightarrow> ('c, 'p, 'a, 'k) space_view" where
  "v_log e v = v\<lparr>sv_log := e # sv_log v\<rparr>"

definition v_count :: "produce \<Rightarrow> ('c, 'p, 'a, 'k) space_view \<Rightarrow> ('c, 'p, 'a, 'k) space_view" where
  "v_count p v = v\<lparr>sv_counter := bm_entry (pr_hash p) 0 Suc (sv_counter v)\<rparr>"

definition v_comm ::
  "('c, 'a) consume_candidate list \<Rightarrow> Tuple_Types.consume \<Rightarrow> nat btset \<Rightarrow> ('c, 'p, 'a, 'k) space_view \<Rightarrow> comm" where
  "v_comm cs ref peeks v = comm_apply cs ref peeks (produce_counters (sv_counter v))"

text \<open>The candidates of each channel, prepared by \<open>f\<close>.\<close>

definition v_fetch ::
  "('c \<Rightarrow> 'a datum list \<Rightarrow> 'a indexed) \<Rightarrow> 'c::linorder list \<Rightarrow> ('c, 'p, 'a, 'k) tuple_view \<Rightarrow> ('c, 'a indexed) btmap" where
  "v_fetch f cs t = fold (\<lambda>c. bm_insert c (f c (vw_data t c))) cs []"

text \<open>A match takes its data away: the others stay, in their order.\<close>

definition v_take :: "('c, 'a) consume_candidate list \<Rightarrow> ('c, 'p, 'a, 'k) tuple_view \<Rightarrow> ('c, 'p, 'a, 'k) tuple_view" where
  "v_take cs t = t\<lparr>vw_data := \<lambda>c. nths (vw_data t c) {i. int i \<notin> set (taken cs c)}\<rparr>"

definition v_unjoin ::
  "'c list \<Rightarrow> ('c, 'a) consume_candidate list \<Rightarrow> ('c, 'p, 'a, 'k) tuple_view \<Rightarrow> ('c, 'p, 'a, 'k) tuple_view" where
  "v_unjoin channels cs t =
     t\<lparr>vw_joins := \<lambda>c. (remove1 channels ^^ length (filter (\<lambda>d. cc_channel d = c) cs)) (vw_joins t c)\<rparr>"

definition v_wait ::
  "'c list \<Rightarrow> ('p, 'k) waiting_continuation \<Rightarrow> ('c, 'p, 'a, 'k) tuple_view \<Rightarrow> ('c, 'p, 'a, 'k) tuple_view" where
  "v_wait channels wc t =
     t\<lparr>vw_continuations := (vw_continuations t)(channels := wc # vw_continuations t channels),
       vw_joins := \<lambda>c. if c \<in> set channels then List.insert channels (vw_joins t c) else vw_joins t c\<rparr>"

lemma log_implements:
  "space_implements r (log_comm c) (\<lambda>v. (v_log (EComm c) v, ()))"
  "space_implements r (log_consume cr) (\<lambda>v. (v_log (EConsume cr) v, ()))"
  "space_implements r (log_produce p persist) (\<lambda>v. ((if persist then id else v_count p) (v_log (EProduce p) v), ()))"
  by (rule pure_implements, rule log_comm_def, simp, simp add: view_of_def v_log_def,
      rule pure_implements, rule log_consume_def, simp, simp add: view_of_def v_log_def,
      rule pure_implements, rule log_produce_def, simp, simp add: view_of_def v_log_def v_count_def)

lemma implements_bind_result:
  assumes m: "implements ok vw m f" and k: "\<And>v. implements ok vw (k (snd (f v))) (g (snd (f v)))"
    and h: "\<And>v. h v = g (snd (f v)) (fst (f v))"
  shows "implements ok vw (and_then m k) h"
  unfolding implements_def
proof (intro allI impI)
  fix s assume "ok s"
  then obtain s' where 1: "m s = (s', Inr (snd (f (vw s))))" "ok s'" "vw s' = fst (f (vw s))" using implementsE [OF m] by metis
  obtain s'' where "k (snd (f (vw s))) s' = (s'', Inr (snd (g (snd (f (vw s))) (vw s'))))" "ok s''"
    "vw s'' = fst (g (snd (f (vw s))) (vw s'))"
    using implementsE [OF k 1(2)] by metis
  then show "\<exists>s''. and_then m k s = (s'', Inr (snd (h (vw s)))) \<and> ok s'' \<and> vw s'' = fst (h (vw s))"
    using 1 by (simp add: h)
qed

lemma implements_bind:
  assumes "implements ok vw m f" "\<And>x. implements ok vw (k x) (g x)" "\<And>v. h v = g (snd (f v)) (fst (f v))"
  shows "implements ok vw (and_then m k) h"
  using assms by (rule implements_bind_result)

lemma fetch_loop_implements:
  "space_implements r (fetch_loop f cs mp) (\<lambda>v. (v, fold (\<lambda>c. bm_insert c (f c (vw_data (sv_tuples v) c))) cs mp))"
proof (induction cs arbitrary: mp)
  case Nil
  show ?case unfolding fetch_loop.simps(1) fold.simps(1) id_apply by (rule implements_ret)
next
  case (Cons c cs)
  show ?case
    unfolding fetch_loop.simps
    by (rule implements_bind [OF on_store_implements [OF get_data_view] Cons.IH])
      (simp add: on_tuples_def v_get_data_def)
qed

lemma fetch_implements: "space_implements r (fetch_loop f cs []) (\<lambda>v. (v, v_fetch f cs (sv_tuples v)))"
  unfolding v_fetch_def by (rule fetch_loop_implements)

subsection \<open>Removing by descending index\<close>

lemma nths_congI: "(\<And>j. j < length xs \<Longrightarrow> j \<in> A \<longleftrightarrow> j \<in> B) \<Longrightarrow> nths xs A = nths xs B"
  unfolding nths_def by (rule arg_cong [where f = "map fst"], rule filter_cong) (auto dest: in_set_zipE simp: set_zip)

lemma remove_index_nths: "remove_index xs i = nths xs (- {i})"
proof (cases "i < length xs")
  case True
  then have "nths (take i xs @ xs ! i # drop (Suc i) xs) (- {i}) = take i xs @ drop (Suc i) xs"
    by (simp add: nths_append nths_Cons nths_all)
  then show ?thesis using True by (simp add: remove_index_def id_take_nth_drop [symmetric])
next
  case False
  then have "\<forall>j < length xs. j \<in> - {i}" by auto
  then have "nths xs (- {i}) = xs" by (rule nths_all)
  then show ?thesis using False by simp
qed

lemma nths_remove_index:
  assumes "\<forall>j \<in> J. j < i"
  shows "nths (remove_index xs i) (- J) = nths xs (- insert i J)"
proof (cases "i < length xs")
  case True
  have "{j. j + i \<in> - J} = UNIV" "{j. Suc (j + i) \<in> - insert i J} = UNIV" using assms by auto
  moreover have "nths (take i xs) (- insert i J) = nths (take i xs) (- J)"
    by (rule nths_congI) (use True in auto)
  ultimately have "nths (take i xs @ xs ! i # drop (Suc i) xs) (- insert i J) = nths (take i xs @ drop (Suc i) xs) (- J)"
    using True by (simp add: nths_append nths_Cons min_def)
  then show ?thesis using True by (simp add: remove_index_def id_take_nth_drop [symmetric])
next
  case False
  then have "nths xs (- insert i J) = nths xs (- J)" by (intro nths_congI) auto
  then show ?thesis using False by simp
qed

lemma fold_remove_index:
  "sorted_wrt (>) is \<Longrightarrow> fold (\<lambda>i xs. remove_index xs i) is xs = nths xs (- set is)"
proof (induction "is" arbitrary: xs)
  case (Cons i "is")
  then show ?case using nths_remove_index [of "set is" i xs] by simp
qed (simp add: nths_all)

text \<open>Removing the candidates of a match one by one takes exactly its data.\<close>

lemma taken_filter: "taken cs c = map cc_datum_index (filter (\<lambda>d. cc_channel d = c \<and> \<not> dt_persist (cc_datum d)) cs)"
  by (simp add: taken_def)

lemma set_taken_sort [simp]: "set (taken (by_descending_index cs) c) = set (taken cs c)"
  by (simp add: taken_def by_descending_index_def)

lemma each_remove:
  "each cs (\<lambda>d t. (if \<not> dt_persist (cc_datum d) then fst (v_remove_datum (cc_channel d) (cc_datum_index d) t) else t, ())) t =
     (t\<lparr>vw_data := \<lambda>c. fold (\<lambda>i xs. if 0 \<le> i then remove_index xs (nat i) else xs) (taken cs c) (vw_data t c)\<rparr>, ())"
  by (induction cs arbitrary: t) (auto simp: v_remove_datum_def fun_eq_iff)

lemma fold_remove_taken:
  "fold (\<lambda>i xs. if 0 \<le> i then remove_index xs (nat i) else xs) is xs =
     fold (\<lambda>i xs. remove_index xs i) (map nat (filter (\<lambda>i. 0 \<le> i) is)) xs"
  by (induction "is" arbitrary: xs) simp_all

lemma taken_descending:
  assumes "distinct (taken cs c)"
  shows "sorted_wrt (>) (taken (by_descending_index cs) c)"
proof -
  have "sorted (map (\<lambda>d. - cc_datum_index d) (by_descending_index cs))" by (simp add: by_descending_index_def)
  then have "sorted (map (\<lambda>d. - cc_datum_index d) (filter (\<lambda>d. cc_channel d = c \<and> \<not> dt_persist (cc_datum d)) (by_descending_index cs)))"
    by (rule sorted_filter)
  then have "sorted (map uminus (taken (by_descending_index cs) c))" by (simp add: taken_def comp_def)
  moreover have "distinct (map uminus (taken (by_descending_index cs) c))"
  proof -
    have "mset (taken (by_descending_index cs) c) = mset (taken cs c)"
      by (simp add: taken_def by_descending_index_def)
    then show ?thesis using assms by (metis distinct_map inj_on_def mset_eq_imp_distinct_iff neg_equal_iff_equal)
  qed
  ultimately have "sorted_wrt (<) (map uminus (taken (by_descending_index cs) c))" by (simp add: strict_sorted_iff)
  then show ?thesis by (simp add: sorted_wrt_map)
qed

lemma removed_taken:
  assumes "\<And>c. distinct (taken cs c)"
  shows "fold (\<lambda>i xs. if 0 \<le> i then remove_index xs (nat i) else xs) (taken (by_descending_index cs) c) xs =
    nths xs {i. int i \<notin> set (taken cs c)}"
proof -
  let ?is = "map nat (filter (\<lambda>i. 0 \<le> i) (taken (by_descending_index cs) c))"
  have "sorted_wrt (\<lambda>x y. nat y < nat x) (filter (\<lambda>i. 0 \<le> i) (taken (by_descending_index cs) c))"
    by (rule sorted_wrt_mono_rel [OF _ sorted_wrt_filter [OF taken_descending [OF assms]]]) auto
  then have "sorted_wrt (>) ?is" by (simp add: sorted_wrt_map)
  then have "fold (\<lambda>i xs. remove_index xs i) ?is xs = nths xs (- set ?is)" by (rule fold_remove_index)
  moreover have "- set ?is = {i. int i \<notin> set (taken cs c)}" by force
  ultimately show ?thesis by (simp add: fold_remove_taken)
qed

lemma store_persistent_data_implements:
  fixes r :: "('c::linorder, 'p, 'a, 'k) history_reader_base"
  assumes "\<And>c. distinct (taken cs c)"
  shows "space_implements r (store_persistent_data cs) (\<lambda>v. (v\<lparr>sv_tuples := v_take cs (sv_tuples v)\<rparr>, ()))"
proof -
  let ?g = "\<lambda>d v. (v\<lparr>sv_tuples := if \<not> dt_persist (cc_datum d)
      then fst (v_remove_datum (cc_channel d) (cc_datum_index d) (sv_tuples v)) else sv_tuples v\<rparr>, ())"
  have step: "space_implements r (if \<not> dt_persist (cc_datum d) then on_store (remove_datum (cc_channel d) (cc_datum_index d)) else ret ()) (?g d)" for d
  proof (cases "dt_persist (cc_datum d)")
    case True
    then show ?thesis using implements_ret [of "space_ok r" view_of "()"] by simp
  next
    case False
    have "space_implements r (on_store (remove_datum (cc_channel d) (cc_datum_index d))) (?g d)"
      by (rule implements_cong [OF on_store_implements [OF remove_datum_view]]) (simp add: on_tuples_def False)
    then show ?thesis using False by simp
  qed
  have E: "each ds ?g v = (v\<lparr>sv_tuples := fst (each ds (\<lambda>d t. (if \<not> dt_persist (cc_datum d)
      then fst (v_remove_datum (cc_channel d) (cc_datum_index d) t) else t, ())) (sv_tuples v))\<rparr>, ())"
    for ds and v :: "('c, 'p, 'a, 'k) space_view"
    by (induction ds arbitrary: v) simp_all
  have "each (by_descending_index cs) ?g v = (v\<lparr>sv_tuples := v_take cs (sv_tuples v)\<rparr>, ())"
    for v :: "('c, 'p, 'a, 'k) space_view"
    unfolding E each_remove fst_conv removed_taken [OF assms] v_take_def ..
  then show ?thesis
    unfolding store_persistent_data_def
    by (intro implements_cong [OF implements_for_each [OF step]]) simp
qed

lemma each_unjoin:
  "each cs (\<lambda>d t. (fst (v_remove_join (cc_channel d) channels
       (if 0 \<le> cc_datum_index d \<and> \<not> dt_persist (cc_datum d)
        then fst (v_remove_datum (cc_channel d) (cc_datum_index d) t) else t)), ())) t =
     (t\<lparr>vw_data := \<lambda>c. fold (\<lambda>i xs. if 0 \<le> i then remove_index xs (nat i) else xs) (taken cs c) (vw_data t c),
        vw_joins := \<lambda>c. (remove1 channels ^^ length (filter (\<lambda>d. cc_channel d = c) cs)) (vw_joins t c)\<rparr>, ())"
  by (induction cs arbitrary: t)
    (auto simp: v_remove_datum_def v_remove_join_def fun_eq_iff funpow_swap1)

lemma length_filter_descending [simp]: "length (filter P (by_descending_index cs)) = length (filter P cs)"
proof -
  have "mset (filter P (by_descending_index cs)) = mset (filter P cs)" by (simp add: by_descending_index_def)
  then show ?thesis by (rule mset_eq_length)
qed

lemma remove_matched_implements:
  fixes r :: "('c::linorder, 'p, 'a, 'k) history_reader_base"
  assumes "\<And>c. distinct (taken cs c)"
  shows "space_implements r (remove_matched_datum_and_join channels cs)
    (\<lambda>v. (v\<lparr>sv_tuples := v_unjoin channels cs (v_take cs (sv_tuples v))\<rparr>, ()))"
proof -
  let ?h = "\<lambda>d t. if 0 \<le> cc_datum_index d \<and> \<not> dt_persist (cc_datum d)
        then fst (v_remove_datum (cc_channel d) (cc_datum_index d) t) else t"
  let ?g = "\<lambda>d v. (v\<lparr>sv_tuples := fst (v_remove_join (cc_channel d) channels (?h d (sv_tuples v)))\<rparr>, ())"
  have rm: "space_implements r
      (if 0 \<le> cc_datum_index d \<and> \<not> dt_persist (cc_datum d)
       then on_store (remove_datum (cc_channel d) (cc_datum_index d)) else ret ())
      (\<lambda>v. (v\<lparr>sv_tuples := ?h d (sv_tuples v)\<rparr>, ()))" for d
  proof (cases "0 \<le> cc_datum_index d \<and> \<not> dt_persist (cc_datum d)")
    case True
    have "space_implements r (on_store (remove_datum (cc_channel d) (cc_datum_index d))) (\<lambda>v. (v\<lparr>sv_tuples := ?h d (sv_tuples v)\<rparr>, ()))"
      by (rule implements_cong [OF on_store_implements [OF remove_datum_view]]) (simp add: on_tuples_def True)
    then show ?thesis by (simp only: if_P [OF True])
  next
    case False
    have "space_implements r (ret ()) (\<lambda>v. (v\<lparr>sv_tuples := ?h d (sv_tuples v)\<rparr>, ()))"
      by (rule implements_cong [OF implements_ret]) (use False in auto)
    then show ?thesis by (simp only: if_not_P [OF False])
  qed
  have step: "space_implements r
      (and_then (if 0 \<le> cc_datum_index d \<and> \<not> dt_persist (cc_datum d)
         then on_store (remove_datum (cc_channel d) (cc_datum_index d)) else ret ())
        (\<lambda>_. on_store (remove_join (cc_channel d) channels))) (?g d)" for d
    by (rule implements_bind [OF rm on_store_implements [OF remove_join_view]]) (simp add: on_tuples_def)
  have E: "each ds ?g v = (v\<lparr>sv_tuples := fst (each ds (\<lambda>d t. (fst (v_remove_join (cc_channel d) channels (?h d t)), ())) (sv_tuples v))\<rparr>, ())"
    for ds and v :: "('c, 'p, 'a, 'k) space_view"
    by (induction ds arbitrary: v) simp_all
  have "each (by_descending_index cs) ?g v = (v\<lparr>sv_tuples := v_unjoin channels cs (v_take cs (sv_tuples v))\<rparr>, ())"
    for v :: "('c, 'p, 'a, 'k) space_view"
    unfolding E each_unjoin fst_conv removed_taken [OF assms] by (simp add: v_take_def v_unjoin_def)
  then show ?thesis
    unfolding remove_matched_datum_and_join_def
    by (intro implements_cong [OF implements_for_each [OF step]]) simp
qed

lemma store_data_implements:
  "space_implements r (store_data c a persist p)
     (\<lambda>v. (v\<lparr>sv_tuples := fst (v_put_datum c \<lparr>dt_a = a, dt_persist = persist, dt_source = p\<rparr> (sv_tuples v))\<rparr>, None))"
  unfolding store_data_def
  by (rule implements_bind [OF on_store_implements [OF put_datum_view] implements_ret]) (simp add: on_tuples_def)

lemma each_put_join:
  "each ds (\<lambda>c. v_put_join c channels) t =
     (t\<lparr>vw_joins := \<lambda>c. if c \<in> set ds then List.insert channels (vw_joins t c) else vw_joins t c\<rparr>, ())"
  by (induction ds arbitrary: t) (auto simp: v_put_join_def fun_eq_iff)

lemma each_on_tuples: "each ds (\<lambda>d. on_tuples (f d)) v = (v\<lparr>sv_tuples := fst (each ds f (sv_tuples v))\<rparr>, ())"
  by (induction ds arbitrary: v) (simp_all add: on_tuples_def)

lemma store_waiting_continuation_implements:
  "space_implements r (store_waiting_continuation channels wc)
     (\<lambda>v. (v\<lparr>sv_tuples := v_wait channels wc (sv_tuples v)\<rparr>, None))"
  unfolding store_waiting_continuation_def
proof (rule implements_bind [OF on_store_implements [OF put_continuation_view]])
  show "space_implements r (and_then (for_each channels (\<lambda>c. on_store (put_join c channels))) (\<lambda>_. ret None))
      (\<lambda>v. (v\<lparr>sv_tuples := fst (each channels (\<lambda>c. v_put_join c channels) (sv_tuples v))\<rparr>, None))" for x :: unit
    by (rule implements_bind [OF implements_for_each [OF on_store_implements [OF put_join_view]] implements_ret])
      (simp add: each_on_tuples)
qed (simp add: on_tuples_def each_put_join v_put_continuation_def v_wait_def cong: if_cong)

section \<open>Refinement of consume, produce and install\<close>

definition the_continuation ::
  "'p list \<Rightarrow> 'k \<Rightarrow> bool \<Rightarrow> nat btset \<Rightarrow> Tuple_Types.consume \<Rightarrow> ('p, 'k) waiting_continuation" where
  "the_continuation patterns k persist peeks ref =
     \<lparr>wc_patterns = patterns, wc_continuation = k, wc_persist = persist, wc_peeks = peeks, wc_source = ref\<rparr>"

text \<open>
  A consume looks at the data of its channels. When every pattern finds one, the communication is
  logged and the matched data that are not persistent go; otherwise the continuation waits.
\<close>

definition spec_consume ::
  "('p \<Rightarrow> 'a \<Rightarrow> 'a option) \<Rightarrow> 'c::linorder list \<Rightarrow> 'p list \<Rightarrow> 'k \<Rightarrow> bool \<Rightarrow> nat btset \<Rightarrow> Tuple_Types.consume \<Rightarrow>
   ('c, 'p, 'a, 'k) space_view \<Rightarrow> ('c, 'p, 'a, 'k) space_view \<times> ('c, 'p, 'a, 'k) action_result" where
  "spec_consume m channels patterns k persist peeks ref v =
     (let t = sv_tuples v; wk = the_continuation patterns k persist peeks ref in
      case those (extract_data_candidates (zip channels patterns)
                    (v_fetch (\<lambda>_ ds. by_produce_hash (indexed_data ds)) channels t) m) of
        None \<Rightarrow> ((v_log (EConsume ref) v)\<lparr>sv_tuples := v_wait channels wk t\<rparr>, None)
      | Some cs \<Rightarrow>
          ((v_log (EComm (v_comm cs ref peeks v)) (v_log (EConsume ref) v))\<lparr>sv_tuples := v_take cs t\<rparr>,
           wrap_result channels wk cs))"

lemma bm_get_v_fetch:
  "bm_get (v_fetch f cs t) c = (if c \<in> set cs then Some (f c (vw_data t c)) else None)"
proof -
  have "bm_get (fold (\<lambda>c. bm_insert c (f c (vw_data t c))) cs m) c =
      (if c \<in> set cs then Some (f c (vw_data t c)) else bm_get m c)" for m
    by (induction cs arbitrary: m) auto
  then show ?thesis by (simp add: v_fetch_def)
qed

lemma snd_indexed_data: "map snd (indexed_data ds) = map int [0..<length ds]"
proof -
  have "map snd (indexed_data ds) = map int (map fst (enumerate 0 ds))"
    by (simp add: indexed_data_def split_beta comp_def del: map_fst_enumerate)
  then show ?thesis by simp
qed

lemma distinct_sorted_indices: "distinct (map snd (by_produce_hash (indexed_data ds)))"
proof -
  have "mset (map snd (by_produce_hash (indexed_data ds))) = mset (map snd (indexed_data ds))"
    by (simp add: by_produce_hash_def)
  then show ?thesis
    using snd_indexed_data [of ds] by (metis distinct_map distinct_upt inj_on_of_nat mset_eq_imp_distinct_iff)
qed

lemma those_eq_map: "those xs = Some ys \<longleftrightarrow> xs = map Some ys"
  using those_map_Some [of id xs ys] by simp

lemma fetch_indices_ok: "indices_ok (v_fetch (\<lambda>_ ds. by_produce_hash (indexed_data ds)) channels t)"
  by (simp add: indices_ok_def bm_get_v_fetch distinct_sorted_indices)

lemma matched_distinct:
  assumes "those (extract_data_candidates pairs mp m) = Some cs" "indices_ok mp"
  shows "distinct (taken cs c)"
  using extract_taken [of pairs mp m cs c] assms by (simp add: those_eq_map)

text \<open>An operation whose code depends on the state only through what the view keeps.\<close>

lemma log_comm_of_implements:
  "space_implements r (\<lambda>rs. log_comm (comm_of cs ref peeks rs) rs) (\<lambda>v. (v_log (EComm (v_comm cs ref peeks v)) v, ()))"
  by (simp add: implements_def space_ok_def log_comm_def comm_of_def v_log_def v_comm_def view_of_def)

lemma locked_consume_implements:
  "space_implements r (locked_consume m channels patterns k persist peeks ref)
     (spec_consume m channels patterns k persist peeks ref)"
proof -
  let ?wk = "the_continuation patterns k persist peeks ref"
  let ?found = "\<lambda>cs. and_then (\<lambda>rs. log_comm (comm_of cs ref peeks rs) rs) (\<lambda>_.
      and_then (store_persistent_data cs) (\<lambda>_. ret (wrap_result channels ?wk cs)))"
  let ?k = "\<lambda>mp. case those (extract_data_candidates (zip channels patterns) mp m) of
      None \<Rightarrow> store_waiting_continuation channels ?wk | Some cs \<Rightarrow> ?found cs"
  let ?g = "\<lambda>mp v. case those (extract_data_candidates (zip channels patterns) mp m) of
      None \<Rightarrow> (v\<lparr>sv_tuples := v_wait channels ?wk (sv_tuples v)\<rparr>, None)
    | Some cs \<Rightarrow> ((v_log (EComm (v_comm cs ref peeks v)) v)\<lparr>sv_tuples := v_take cs (sv_tuples v)\<rparr>, wrap_result channels ?wk cs)"
  have found: "space_implements r (?found cs)
      (\<lambda>v. ((v_log (EComm (v_comm cs ref peeks v)) v)\<lparr>sv_tuples := v_take cs (sv_tuples v)\<rparr>, wrap_result channels ?wk cs))"
    if "\<And>c. distinct (taken cs c)" for cs
    by (rule implements_bind [OF log_comm_of_implements implements_bind
          [OF store_persistent_data_implements [OF that] implements_ret refl]]) (simp add: v_log_def)
  have k: "space_implements r (?k mp) (?g mp)" if "indices_ok mp" for mp
  proof (cases "those (extract_data_candidates (zip channels patterns) mp m)")
    case None
    show ?thesis unfolding None option.case by (rule store_waiting_continuation_implements)
  next
    case (Some cs)
    show ?thesis unfolding Some option.case by (rule found [OF matched_distinct [OF Some that]])
  qed
  have "space_implements r (and_then (fetch_channel_to_index_data channels) ?k)
      (\<lambda>v. ?g (v_fetch (\<lambda>_ ds. by_produce_hash (indexed_data ds)) channels (sv_tuples v)) v)"
    unfolding fetch_channel_to_index_data_def
    by (rule implements_bind_result [where g = ?g, OF fetch_implements]) (simp_all only: snd_conv fst_conv k fetch_indices_ok)
  then show ?thesis
    unfolding locked_consume_def Let_def the_continuation_def [symmetric]
    by (rule implements_bind [OF log_implements(2)]) (simp add: spec_consume_def Let_def v_log_def v_comm_def split: option.split)
qed

lemma consume_implements:
  assumes "channels \<noteq> []" "length channels = length patterns"
  shows "space_implements r (consume env channels patterns k persist peeks)
     (spec_consume (se_matcher env) channels patterns k persist peeks
        (consume_apply (se_digest env) (sz_enc_c (se_serializers env)) (sz_enc_p (se_serializers env))
           (sz_enc_k (se_serializers env)) channels patterns k persist))"
  using assms locked_consume_implements by (simp add: consume_def Let_def)

text \<open>
  A produce goes through the joins of its channel, the installed ones first, and fires the first
  continuation whose patterns all find data, the produced datum among them.
\<close>

primrec spec_candidate ::
  "('p \<Rightarrow> 'a \<Rightarrow> 'a option) \<Rightarrow> 'c::linorder list list \<Rightarrow> 'c \<Rightarrow> 'a datum \<Rightarrow> ('c, 'p, 'a, 'k) tuple_view \<Rightarrow>
   ('c, 'p, 'a, 'k) produce_candidate option" where
  "spec_candidate m [] c d t = None"
| "spec_candidate m (channels # rest) c d t =
     (case extract_first_match channels (map (\<lambda>(i, wc). (wc, i)) (enumerate 0 (snd (v_get_continuations channels t))))
             (v_fetch (with_in_flight c d) channels t) m of
        Some pc \<Rightarrow> Some pc
      | None \<Rightarrow> spec_candidate m rest c d t)"

definition v_fire ::
  "('c::linorder, 'p, 'a, 'k) produce_candidate \<Rightarrow> ('c, 'p, 'a, 'k) tuple_view \<Rightarrow> ('c, 'p, 'a, 'k) tuple_view" where
  "v_fire pc t =
     v_unjoin (pc_channels pc) (pc_data_candidates pc)
       (v_take (pc_data_candidates pc)
          (if wc_persist (pc_continuation pc) then t
           else fst (v_remove_continuation (pc_channels pc) (pc_continuation_index pc) t)))"

definition spec_produce ::
  "('p \<Rightarrow> 'a \<Rightarrow> 'a option) \<Rightarrow> 'c::linorder \<Rightarrow> 'a \<Rightarrow> bool \<Rightarrow> Tuple_Types.produce \<Rightarrow>
   ('c, 'p, 'a, 'k) space_view \<Rightarrow> ('c, 'p, 'a, 'k) space_view \<times> ('c, 'p, 'a, 'k) action_result" where
  "spec_produce m c a persist ref v =
     (let t = sv_tuples v; d = \<lparr>dt_a = a, dt_persist = persist, dt_source = ref\<rparr>;
          v' = (if persist then id else v_count ref) (v_log (EProduce ref) v)
      in case spec_candidate m (snd (v_get_joins c t)) c d t of
           None \<Rightarrow> (v'\<lparr>sv_tuples := fst (v_put_datum c d t)\<rparr>, None)
         | Some pc \<Rightarrow>
             let wk = pc_continuation pc; cs = pc_data_candidates pc in
             ((v_log (EComm (v_comm cs (wc_source wk) (wc_peeks wk) v')) v')\<lparr>sv_tuples := v_fire pc t\<rparr>,
              wrap_result (pc_channels pc) wk cs))"

lemma in_flight_indices_ok:
  fixes d :: "'a datum"
  shows "indices_ok (v_fetch (with_in_flight c d) channels t)"
proof -
  have "- 1 \<notin> snd ` set (by_produce_hash (indexed_data ds))" for ds :: "'a datum list"
  proof -
    have "snd ` set (by_produce_hash (indexed_data ds)) = set (map snd (indexed_data ds))"
      by (simp add: by_produce_hash_def)
    then show ?thesis unfolding snd_indexed_data by auto
  qed
  then have "distinct (map snd (with_in_flight c d ch ds))" for ch ds
    by (simp add: with_in_flight_def Let_def distinct_sorted_indices)
  then show ?thesis by (simp add: indices_ok_def bm_get_v_fetch)
qed

lemma extract_produce_candidate_implements:
  "space_implements r (extract_produce_candidate m joins c d) (\<lambda>v. (v, spec_candidate m joins c d (sv_tuples v)))"
proof (induction joins)
  case Nil
  show ?case unfolding extract_produce_candidate.simps(1) spec_candidate.simps(1) by (rule implements_ret)
next
  case (Cons channels rest)
  let ?wcs = "\<lambda>conts. map (\<lambda>(i, wc). (wc, i)) (enumerate 0 conts)"
  let ?g = "\<lambda>conts mp v. (v, case extract_first_match channels (?wcs conts) mp m of
      Some pc \<Rightarrow> Some pc | None \<Rightarrow> spec_candidate m rest c d (sv_tuples v))"
  have last: "space_implements r (case extract_first_match channels (?wcs conts) mp m of
      Some pc \<Rightarrow> ret (Some pc) | None \<Rightarrow> extract_produce_candidate m rest c d) (?g conts mp)" for conts mp
  proof (cases "extract_first_match channels (?wcs conts) mp m")
    case None
    show ?thesis unfolding None option.case by (rule Cons.IH)
  next
    case (Some pc)
    show ?thesis unfolding Some option.case by (rule implements_ret)
  qed
  have fetched: "space_implements r (and_then (fetch_loop (with_in_flight c d) channels []) (\<lambda>mp.
      case extract_first_match channels (?wcs conts) mp m of
        Some pc \<Rightarrow> ret (Some pc) | None \<Rightarrow> extract_produce_candidate m rest c d))
      (\<lambda>v. ?g conts (v_fetch (with_in_flight c d) channels (sv_tuples v)) v)" for conts
    by (rule implements_bind [where g = "?g conts", OF fetch_implements last]) (simp only: fst_conv snd_conv)
  show ?case
    unfolding extract_produce_candidate.simps Let_def
    by (rule implements_bind [OF on_store_implements [OF get_continuations_view] fetched])
      (simp add: on_tuples_def v_get_continuations_def cong: option.case_cong)
qed

lemma spec_candidate_Some:
  assumes "spec_candidate m joins c d t = Some pc"
  shows "pc_channels pc \<in> set joins"
    and "extract_data_candidates (zip (pc_channels pc) (wc_patterns (pc_continuation pc)))
        (v_fetch (with_in_flight c d) (pc_channels pc) t) m = map Some (pc_data_candidates pc)"
    and "pc_continuation_index pc < length (snd (v_get_continuations (pc_channels pc) t))"
    and "snd (v_get_continuations (pc_channels pc) t) ! pc_continuation_index pc = pc_continuation pc"
proof -
  let ?P = "pc_channels pc \<in> set joins \<and>
      extract_data_candidates (zip (pc_channels pc) (wc_patterns (pc_continuation pc)))
        (v_fetch (with_in_flight c d) (pc_channels pc) t) m = map Some (pc_data_candidates pc) \<and>
      pc_continuation_index pc < length (snd (v_get_continuations (pc_channels pc) t)) \<and>
      snd (v_get_continuations (pc_channels pc) t) ! pc_continuation_index pc = pc_continuation pc"
  have ?P using assms
  proof (induction joins)
    case (Cons channels rest)
    let ?wcs = "map (\<lambda>(i, wc). (wc, i)) (enumerate 0 (snd (v_get_continuations channels t)))"
    show ?case
    proof (cases "extract_first_match channels ?wcs (v_fetch (with_in_flight c d) channels t) m")
      case None
      then show ?thesis using Cons by simp
    next
      case (Some pc')
      then have "pc' = pc" using Cons.prems by simp
      then show ?thesis
        using first_match_Some [OF Some [unfolded extract_first_match_def]] by (auto simp: in_set_enumerate_eq)
    qed
  qed simp
  then show "pc_channels pc \<in> set joins"
    "extract_data_candidates (zip (pc_channels pc) (wc_patterns (pc_continuation pc)))
        (v_fetch (with_in_flight c d) (pc_channels pc) t) m = map Some (pc_data_candidates pc)"
    "pc_continuation_index pc < length (snd (v_get_continuations (pc_channels pc) t))"
    "snd (v_get_continuations (pc_channels pc) t) ! pc_continuation_index pc = pc_continuation pc"
    by simp_all
qed

lemma remove_fired_implements:
  fixes pc :: "('c::linorder, 'p, 'a, 'k) produce_candidate"
  shows "space_implements r
    (if \<not> wc_persist (pc_continuation pc) then on_store (remove_continuation (pc_channels pc) (pc_continuation_index pc)) else ret ())
    (\<lambda>v. (v\<lparr>sv_tuples := if wc_persist (pc_continuation pc) then sv_tuples v
        else fst (v_remove_continuation (pc_channels pc) (pc_continuation_index pc) (sv_tuples v))\<rparr>, ()))"
proof (cases "wc_persist (pc_continuation pc)")
  case True
  then show ?thesis using implements_ret [of "space_ok r" view_of "()"] by simp
next
  case False
  have "space_implements r (on_store (remove_continuation (pc_channels pc) (pc_continuation_index pc)))
      (\<lambda>v. (v\<lparr>sv_tuples := fst (v_remove_continuation (pc_channels pc) (pc_continuation_index pc) (sv_tuples v))\<rparr>, ()))"
    by (rule implements_cong [OF on_store_implements [OF remove_continuation_view]]) (simp add: on_tuples_def)
  then show ?thesis using False by simp
qed

lemma process_match_found_implements:
  assumes "\<And>c. distinct (taken (pc_data_candidates pc) c)"
  shows "space_implements r (process_match_found pc)
    (\<lambda>v. ((v_log (EComm (v_comm (pc_data_candidates pc) (wc_source (pc_continuation pc)) (wc_peeks (pc_continuation pc)) v)) v)
            \<lparr>sv_tuples := v_fire pc (sv_tuples v)\<rparr>,
          wrap_result (pc_channels pc) (pc_continuation pc) (pc_data_candidates pc)))"
  unfolding process_match_found_def Let_def
  by (rule implements_bind [OF log_comm_of_implements implements_bind [OF remove_fired_implements implements_bind
        [OF remove_matched_implements [OF assms] implements_ret refl] refl]])
    (simp add: v_log_def v_fire_def)

lemma locked_produce_implements:
  "space_implements r (locked_produce m c a persist ref) (spec_produce m c a persist ref)"
proof -
  let ?d = "\<lparr>dt_a = a, dt_persist = persist, dt_source = ref\<rparr>"
  let ?k = "\<lambda>x. case x of None \<Rightarrow> store_data c a persist ref | Some pc \<Rightarrow> process_match_found pc"
  let ?g = "\<lambda>x v. case x of
      None \<Rightarrow> (v\<lparr>sv_tuples := fst (v_put_datum c ?d (sv_tuples v))\<rparr>, None)
    | Some pc \<Rightarrow> let wk = pc_continuation pc; cs = pc_data_candidates pc in
        ((v_log (EComm (v_comm cs (wc_source wk) (wc_peeks wk) v)) v)\<lparr>sv_tuples := v_fire pc (sv_tuples v)\<rparr>,
         wrap_result (pc_channels pc) wk cs)"
  have k: "space_implements r (?k (spec_candidate m joins c ?d t)) (?g (spec_candidate m joins c ?d t))" for joins t
  proof (cases "spec_candidate m joins c ?d t")
    case None
    show ?thesis unfolding None option.case by (rule store_data_implements)
  next
    case (Some pc)
    have "distinct (taken (pc_data_candidates pc) ch)" for ch
      using extract_taken [OF spec_candidate_Some(2) [OF Some] in_flight_indices_ok] by simp
    then show ?thesis unfolding Some option.case Let_def by (rule process_match_found_implements)
  qed
  have searched: "space_implements r (and_then (extract_produce_candidate m joins c ?d) ?k)
      (\<lambda>v. ?g (spec_candidate m joins c ?d (sv_tuples v)) v)" for joins
    by (rule implements_bind_result [where g = ?g, OF extract_produce_candidate_implements]) (simp_all only: snd_conv fst_conv k)
  have logged: "space_implements r
      (and_then (log_produce ref persist) (\<lambda>_. and_then (extract_produce_candidate m joins c ?d) ?k))
      (\<lambda>v. ?g (spec_candidate m joins c ?d (sv_tuples v)) ((if persist then id else v_count ref) (v_log (EProduce ref) v)))" for joins
    by (rule implements_bind [OF log_implements(3) searched]) (simp add: v_log_def v_count_def cong: option.case_cong)
  show ?thesis
    unfolding locked_produce_def
    by (rule implements_bind [OF on_store_implements [OF get_joins_view] logged])
      (simp add: spec_produce_def on_tuples_def v_get_joins_def v_log_def v_count_def Let_def cong: option.case_cong)
qed

lemma produce_implements:
  "space_implements r (produce env c a persist)
     (spec_produce (se_matcher env) c a persist
        (produce_apply (se_digest env) (sz_enc_c (se_serializers env)) (sz_enc_a (se_serializers env)) c a persist))"
  unfolding produce_def Let_def
  by (rule implements_bind [OF on_store_implements [OF get_joins_view] locked_produce_implements])
    (simp add: on_tuples_def v_get_joins_def)

end
