(* ===== verification/Space_Runs.thy ===== *)
theory Space_Runs
  imports Space
begin

text \<open>
  Runs of the tuple space: sequences of produces, consumes and installs. The locale \<open>machine\<close> states what
  it means that commands on concrete states behave as functions on their views; the tuple space is its
  interpretation, with \<open>spec_command\<close> as the functions. On top of it: when a produce or a consume fires,
  what it takes, and what a soft checkpoint restores.
\<close>

section \<open>Commands that may fail\<close>

text \<open>
  \<open>refines ok vw m f\<close>: from an \<open>ok\<close> state \<open>m\<close> ends, successfully or not, in an \<open>ok\<close> state, with the result
  and the effect on the view that \<open>f\<close> gives.
\<close>

definition refines :: "('s \<Rightarrow> bool) \<Rightarrow> ('s \<Rightarrow> 'v) \<Rightarrow> ('s, 'e, 'x) op \<Rightarrow> ('v \<Rightarrow> 'v \<times> ('e + 'x)) \<Rightarrow> bool" where
  "refines ok vw m f \<longleftrightarrow>
     (\<forall>s. ok s \<longrightarrow> ok (fst (m s)) \<and> vw (fst (m s)) = fst (f (vw s)) \<and> snd (m s) = snd (f (vw s)))"

definition succeeds :: "('v \<Rightarrow> 'v \<times> 'x) \<Rightarrow> 'v \<Rightarrow> 'v \<times> ('e + 'x)" where
  "succeeds f v = (fst (f v), Inr (snd (f v)))"

lemma refines_succeeds: "implements ok vw m f \<Longrightarrow> refines ok vw m (succeeds f)"
  unfolding refines_def succeeds_def by (metis implementsE fst_conv snd_conv)

lemma refines_throw: "refines ok vw (throw e) (\<lambda>v. (v, Inl e))"
  by (simp add: refines_def)

lemma refines_bind:
  assumes m: "implements ok vw m f" and k: "\<And>x. refines ok vw (k x) (g x)" and h: "\<And>v. h v = g (snd (f v)) (fst (f v))"
  shows "refines ok vw (and_then m k) h"
  unfolding refines_def
proof (intro allI impI)
  fix s assume "ok s"
  then obtain s' where "m s = (s', Inr (snd (f (vw s))))" "ok s'" "vw s' = fst (f (vw s))" using implementsE [OF m] by metis
  then show "ok (fst (and_then m k s)) \<and> vw (fst (and_then m k s)) = fst (h (vw s)) \<and> snd (and_then m k s) = snd (h (vw s))"
    using k by (simp add: refines_def h)
qed

lemma refines_if:
  "(b \<Longrightarrow> refines ok vw m f) \<Longrightarrow> (\<not> b \<Longrightarrow> refines ok vw n g) \<Longrightarrow>
     refines ok vw (if b then m else n) (\<lambda>v. if b then f v else g v)"
  by (simp add: refines_def)

lemma refines_mapped:
  "refines ok vw m f \<Longrightarrow> refines ok vw (\<lambda>s. map_prod id (map_sum id j) (m s)) (\<lambda>v. map_prod id (map_sum id j) (f v))"
  by (simp add: refines_def)

subsection \<open>Install\<close>

definition v_install ::
  "'c list \<Rightarrow> ('p, 'k) waiting_continuation \<Rightarrow> ('c, 'p, 'a, 'k) tuple_view \<Rightarrow> ('c, 'p, 'a, 'k) tuple_view" where
  "v_install channels wk t =
     t\<lparr>vw_installed := (vw_installed t)(channels \<mapsto> wk),
       vw_installed_joins := \<lambda>c. if c \<in> set channels then List.insert channels (vw_installed_joins t c) else vw_installed_joins t c\<rparr>"

text \<open>
  An install that is already there does nothing; one that would fire is refused; any other one leaves a
  persistent continuation that no produce uses up.
\<close>

definition spec_install ::
  "('p \<Rightarrow> 'a \<Rightarrow> 'a option) \<Rightarrow> 'c::linorder list \<Rightarrow> 'p list \<Rightarrow> 'k \<Rightarrow> Tuple_Types.consume \<Rightarrow>
   ('c, 'p, 'a, 'k) space_view \<Rightarrow> ('c, 'p, 'a, 'k) space_view \<times> (failure + ('k \<times> 'a list) option)" where
  "spec_install m channels patterns k ref v =
     (let t = sv_tuples v in
      if \<exists>wc \<in> set (snd (v_get_continuations channels t)). consume_eq (wc_source wc) ref then (v, Inr None)
      else case those (extract_data_candidates (zip channels patterns) (v_fetch (\<lambda>_. indexed_data) channels t) m) of
             Some _ \<Rightarrow> (v, Inl (Failed InstallNotAllowed))
           | None \<Rightarrow>
               (v\<lparr>sv_installs := bm_insert channels \<lparr>in_patterns = patterns, in_continuation = k\<rparr> (sv_installs v),
                  sv_tuples := v_install channels (the_continuation patterns k True [] ref) t\<rparr>, Inr None))"

lemma each_install_join:
  "each ds (\<lambda>c. v_install_join c channels) t =
     (t\<lparr>vw_installed_joins := \<lambda>c. if c \<in> set ds then List.insert channels (vw_installed_joins t c) else vw_installed_joins t c\<rparr>, ())"
  by (induction ds arbitrary: t) (auto simp: v_install_join_def fun_eq_iff)

lemma record_install_implements:
  "space_implements r (\<lambda>rs. (rs\<lparr>rs_installs := bm_insert channels i (rs_installs rs)\<rparr>, Inr ()))
     (\<lambda>v. (v\<lparr>sv_installs := bm_insert channels i (sv_installs v)\<rparr>, ()))"
  by (rule pure_implements, rule refl, simp, simp add: view_of_def)

lemma do_install_implements:
  "space_implements r
     (and_then (\<lambda>rs. (rs\<lparr>rs_installs := bm_insert channels i (rs_installs rs)\<rparr>, Inr ())) (\<lambda>_.
      and_then (on_store (install_continuation channels wk)) (\<lambda>_.
      and_then (for_each channels (\<lambda>c. on_store (install_join c channels))) (\<lambda>_. ret None))))
     (\<lambda>v. (v\<lparr>sv_installs := bm_insert channels i (sv_installs v), sv_tuples := v_install channels wk (sv_tuples v)\<rparr>, None))"
  by (rule implements_bind [OF record_install_implements implements_bind
        [OF on_store_implements [OF install_continuation_view] implements_bind
          [OF implements_for_each [OF on_store_implements [OF install_join_view]] implements_ret refl] refl]])
    (simp add: each_on_tuples each_install_join on_tuples_def v_install_continuation_def v_install_def cong: if_cong)

lemma locked_install_refines:
  "refines (space_ok r) view_of (locked_install env channels patterns k)
     (spec_install (se_matcher env) channels patterns k
        (consume_apply (se_digest env) (sz_enc_c (se_serializers env)) (sz_enc_p (se_serializers env))
           (sz_enc_k (se_serializers env)) channels patterns k True))"
proof -
  let ?ref = "consume_apply (se_digest env) (sz_enc_c (se_serializers env)) (sz_enc_p (se_serializers env))
      (sz_enc_k (se_serializers env)) channels patterns k True"
  let ?new = "\<lambda>v. (v\<lparr>sv_installs := bm_insert channels \<lparr>in_patterns = patterns, in_continuation = k\<rparr> (sv_installs v),
      sv_tuples := v_install channels (the_continuation patterns k True [] ?ref) (sv_tuples v)\<rparr>, None)"
  let ?g = "\<lambda>mp v. case those (extract_data_candidates (zip channels patterns) mp (se_matcher env)) of
      Some _ \<Rightarrow> (v, Inl (Failed InstallNotAllowed)) | None \<Rightarrow> succeeds ?new v"
  have last: "refines (space_ok r) view_of
     (case those (extract_data_candidates (zip channels patterns) mp (se_matcher env)) of
        Some _ \<Rightarrow> throw (Failed InstallNotAllowed)
      | None \<Rightarrow>
          and_then (\<lambda>rs. (rs\<lparr>rs_installs := bm_insert channels \<lparr>in_patterns = patterns, in_continuation = k\<rparr> (rs_installs rs)\<rparr>, Inr ())) (\<lambda>_.
          and_then (on_store (install_continuation channels (the_continuation patterns k True [] ?ref))) (\<lambda>_.
          and_then (for_each channels (\<lambda>c. on_store (install_join c channels))) (\<lambda>_. ret None)))) (?g mp)" for mp
  proof (cases "those (extract_data_candidates (zip channels patterns) mp (se_matcher env))")
    case None
    show ?thesis unfolding None option.case by (rule refines_succeeds [OF do_install_implements])
  next
    case (Some cs)
    show ?thesis unfolding Some option.case by (rule refines_throw)
  qed
  note searched = refines_bind [where g = ?g, OF fetch_implements last]
  show ?thesis
    unfolding locked_install_def Let_def the_continuation_def [symmetric]
    by (rule refines_bind [OF on_store_implements [OF get_continuations_view]
          refines_if [OF refines_succeeds [OF implements_ret] searched [OF refl]]])
      (simp add: spec_install_def Let_def on_tuples_def v_get_continuations_def succeeds_def cong: option.case_cong)
qed

section \<open>Runs\<close>

datatype ('c, 'p, 'a, 'k) command =
    Produce 'c 'a bool
  | Consume "'c list" "'p list" 'k bool "nat btset"
  | Install "'c list" "'p list" 'k
  | Native_Put byte hash32 bytes
  | Native_Delete byte hash32

datatype ('c, 'p, 'a, 'k) outcome =
    Acted "('c, 'p, 'a, 'k) action_result"
  | Installed "('k \<times> 'a list) option"
  | Written

primrec run_command ::
  "('c::linorder, 'p, 'a, 'k) space_env \<Rightarrow> ('c, 'p, 'a, 'k) command \<Rightarrow> ('c, 'p, 'a, 'k, ('c, 'p, 'a, 'k) outcome) space_op" where
  "run_command env (Produce c a persist) = (\<lambda>rs. map_prod id (map_sum id Acted) (produce env c a persist rs))"
| "run_command env (Consume cs ps k persist peeks) =
     (\<lambda>rs. map_prod id (map_sum id Acted) (consume env cs ps k persist peeks rs))"
| "run_command env (Install cs ps k) = (\<lambda>rs. map_prod id (map_sum id Installed) (install env cs ps k rs))"
| "run_command env (Native_Put p key b) = (\<lambda>rs. (rs\<lparr>rs_native := native_put p key b (rs_native rs)\<rparr>, Inr Written))"
| "run_command env (Native_Delete p key) = (\<lambda>rs. (rs\<lparr>rs_native := native_delete p key (rs_native rs)\<rparr>, Inr Written))"

definition produce_ref :: "('c, 'p, 'a, 'k) space_env \<Rightarrow> 'c \<Rightarrow> 'a \<Rightarrow> bool \<Rightarrow> Tuple_Types.produce" where
  "produce_ref env = produce_apply (se_digest env) (sz_enc_c (se_serializers env)) (sz_enc_a (se_serializers env))"

definition consume_ref :: "('c, 'p, 'a, 'k) space_env \<Rightarrow> 'c list \<Rightarrow> 'p list \<Rightarrow> 'k \<Rightarrow> bool \<Rightarrow> Tuple_Types.consume" where
  "consume_ref env =
     consume_apply (se_digest env) (sz_enc_c (se_serializers env)) (sz_enc_p (se_serializers env)) (sz_enc_k (se_serializers env))"

primrec spec_command ::
  "('c::linorder, 'p, 'a, 'k) space_env \<Rightarrow> ('c, 'p, 'a, 'k) command \<Rightarrow> ('c, 'p, 'a, 'k) space_view \<Rightarrow>
   ('c, 'p, 'a, 'k) space_view \<times> (failure + ('c, 'p, 'a, 'k) outcome)" where
  "spec_command env (Produce c a persist) = (\<lambda>v.
     map_prod id (map_sum id Acted) (succeeds (spec_produce (se_matcher env) c a persist (produce_ref env c a persist)) v))"
| "spec_command env (Consume cs ps k persist peeks) = (\<lambda>v.
     map_prod id (map_sum id Acted)
       (if cs = [] \<or> length cs \<noteq> length ps then (v, Inl Panicked)
        else succeeds (spec_consume (se_matcher env) cs ps k persist peeks (consume_ref env cs ps k persist)) v))"
| "spec_command env (Install cs ps k) = (\<lambda>v.
     map_prod id (map_sum id Installed)
       (if length cs \<noteq> length ps then (v, Inl Panicked)
        else spec_install (se_matcher env) cs ps k (consume_ref env cs ps k True) v))"
| "spec_command env (Native_Put p key b) = (\<lambda>v. (v\<lparr>sv_native := native_put p key b (sv_native v)\<rparr>, Inr Written))"
| "spec_command env (Native_Delete p key) = (\<lambda>v. (v\<lparr>sv_native := native_delete p key (sv_native v)\<rparr>, Inr Written))"

primrec run_all :: "('o \<Rightarrow> 's \<Rightarrow> 's \<times> 'r) \<Rightarrow> 'o list \<Rightarrow> 's \<Rightarrow> 's \<times> 'r list" where
  "run_all run [] s = (s, [])"
| "run_all run (c # cs) s = (let (s', r) = run c s; (s'', rs) = run_all run cs s' in (s'', r # rs))"

locale machine =
  fixes ok :: "'s \<Rightarrow> bool" and view :: "'s \<Rightarrow> 'v"
    and run :: "'o \<Rightarrow> 's \<Rightarrow> 's \<times> ('e + 'x)" and spec :: "'o \<Rightarrow> 'v \<Rightarrow> 'v \<times> ('e + 'x)"
  assumes step: "refines ok view (run c) (spec c)"
begin

lemma step_ok: "ok s \<Longrightarrow> ok (fst (run c s))"
  and step_view: "ok s \<Longrightarrow> view (fst (run c s)) = fst (spec c (view s))"
  and step_result: "ok s \<Longrightarrow> snd (run c s) = snd (spec c (view s))"
  using step by (simp_all add: refines_def)

lemma runs_ok: "ok s \<Longrightarrow> ok (fst (run_all run cs s))"
  by (induction cs arbitrary: s) (simp_all add: split_beta Let_def step_ok)

lemma runs_view: "ok s \<Longrightarrow> view (fst (run_all run cs s)) = fst (run_all spec cs (view s))"
  by (induction cs arbitrary: s) (simp_all add: split_beta Let_def step_ok step_view)

lemma runs_results: "ok s \<Longrightarrow> snd (run_all run cs s) = snd (run_all spec cs (view s))"
  by (induction cs arbitrary: s) (simp_all add: split_beta Let_def step_ok step_view step_result)

text \<open>States with one view cannot be told apart by any sequence of commands.\<close>

lemma same_view_same_results:
  "ok s \<Longrightarrow> ok s' \<Longrightarrow> view s = view s' \<Longrightarrow> snd (run_all run cs s) = snd (run_all run cs s')"
  by (simp add: runs_results)

text \<open>What every command keeps of the view, every run keeps.\<close>

lemma runs_keep:
  assumes "\<And>c v. q (fst (spec c v)) = q v" "ok s"
  shows "q (view (fst (run_all run cs s))) = q (view s)"
  using assms(2) by (induction cs arbitrary: s) (simp_all add: split_beta Let_def step_ok step_view assms(1))

end

lemma command_refines: "refines (space_ok r) view_of (run_command env c) (spec_command env c)"
proof (cases c)
  case (Produce ch a persist)
  then show ?thesis
    using refines_mapped [OF refines_succeeds [OF produce_implements [of r env ch a persist]]] by (simp add: produce_ref_def)
next
  case (Consume cs ps k persist peeks)
  have "refines (space_ok r) view_of (consume env cs ps k persist peeks)
      (\<lambda>v. if cs = [] \<or> length cs \<noteq> length ps then (v, Inl Panicked)
        else succeeds (spec_consume (se_matcher env) cs ps k persist peeks (consume_ref env cs ps k persist)) v)"
    using refines_throw [of "space_ok r" view_of Panicked]
      refines_succeeds [OF consume_implements [of cs ps r env k persist peeks]]
    by (auto simp: consume_ref_def consume_def Let_def)
  from refines_mapped [OF this] show ?thesis using Consume by simp
next
  case (Install cs ps k)
  have "refines (space_ok r) view_of (install env cs ps k)
      (\<lambda>v. if length cs \<noteq> length ps then (v, Inl Panicked)
        else spec_install (se_matcher env) cs ps k (consume_ref env cs ps k True) v)"
    using refines_throw [of "space_ok r" view_of Panicked] locked_install_refines [of r env cs ps k]
    by (auto simp: consume_ref_def install_def)
  from refines_mapped [OF this] show ?thesis using Install by simp
qed (simp_all add: refines_def space_ok_def view_of_def)

interpretation space: machine "space_ok r" view_of "run_command env" "spec_command env" for r env
  by unfold_locales (rule command_refines)

text \<open>No command touches the repository, or what the native overlay reads from it.\<close>

lemma spec_produce_keeps:
  "sv_repository (fst (spec_produce m c a persist ref v)) = sv_repository v"
  "sv_native (fst (spec_produce m c a persist ref v)) = sv_native v"
  by (simp_all add: spec_produce_def Let_def v_log_def v_count_def split: option.split)

lemma spec_consume_keeps:
  "sv_repository (fst (spec_consume m cs ps k persist peeks ref v)) = sv_repository v"
  "sv_native (fst (spec_consume m cs ps k persist peeks ref v)) = sv_native v"
  by (simp_all add: spec_consume_def Let_def v_log_def split: option.split)

lemma spec_install_keeps:
  "sv_repository (fst (spec_install m cs ps k ref v)) = sv_repository v"
  "sv_native (fst (spec_install m cs ps k ref v)) = sv_native v"
  by (simp_all add: spec_install_def Let_def split: option.split)

lemma spec_command_keeps:
  "sv_repository (fst (spec_command env c v)) = sv_repository v"
  "ns_reader (sv_native (fst (spec_command env c v))) = ns_reader (sv_native v)"
  by (cases c; simp add: succeeds_def spec_produce_keeps spec_consume_keeps spec_install_keeps
      native_put_def native_delete_def)+

abbreviation current_reader ::
  "('c::linorder, 'p, 'a, 'k) space_env \<Rightarrow> ('c, 'p, 'a, 'k) rspace \<Rightarrow> ('c, 'p, 'a, 'k) history_reader_base" where
  "current_reader env rs \<equiv> reader_at (se_digest env) (se_serializers env) (rs_repository rs)"

lemma revert_view:
  assumes ok: "space_ok (current_reader env rs) rs"
    and rs': "rs_repository rs' = rs_repository rs" "ns_reader (rs_native rs') = ns_reader (rs_native rs)"
  shows "space_ok (current_reader env rs) (revert_to_soft_checkpoint env (snd (create_soft_checkpoint rs)) rs')"
    and "view_of (revert_to_soft_checkpoint env (snd (create_soft_checkpoint rs)) rs') =
      (view_of rs)\<lparr>sv_installs := rs_installs rs'\<rparr>"
proof -
  have st: "state_ok (hs_state (rs_store rs))" "reader_ok (current_reader env rs)"
    and r: "hs_reader (rs_store rs) = current_reader env rs"
    using ok by (simp_all add: space_ok_def store_ok_def)
  show "space_ok (current_reader env rs) (revert_to_soft_checkpoint env (snd (create_soft_checkpoint rs)) rs')"
    using hot_store_from_state_ok [OF st(2,1)]
    by (simp add: revert_to_soft_checkpoint_def create_soft_checkpoint_def Let_def space_ok_def snapshot_def rs')
  show "view_of (revert_to_soft_checkpoint env (snd (create_soft_checkpoint rs)) rs') =
      (view_of rs)\<lparr>sv_installs := rs_installs rs'\<rparr>"
    using rs'
    by (simp add: revert_to_soft_checkpoint_def create_soft_checkpoint_def Let_def view_of_def snapshot_def store_view_def r
        native_revert_snapshot hot_store_from_state_def)
qed

lemma soft_checkpoint_ok: "space_ok r rs \<Longrightarrow> space_ok r (fst (create_soft_checkpoint rs))"
  by (simp add: space_ok_def create_soft_checkpoint_def)

section \<open>When a command fires, and what it takes\<close>

lemma those_None: "those xs = None \<longleftrightarrow> \<not> (\<forall>x \<in> set xs. x \<noteq> None)"
  by (induction xs) (auto split: option.splits)

lemma fst_indexed_data: "fst ` set (indexed_data ds) = set ds"
proof -
  have "map fst (indexed_data ds) = map snd (enumerate 0 ds)" by (simp add: indexed_data_def split_beta comp_def)
  then have "set (map fst (indexed_data ds)) = set ds" by simp
  then show ?thesis by simp
qed

lemma fetched: "c \<in> set cs \<Longrightarrow> bm_get_or [] (v_fetch f cs t) c = f c (vw_data t c)"
  by (simp add: bm_get_or_def bm_get_v_fetch)

lemma ex_by_hash: "(\<exists>x \<in> set (by_produce_hash (indexed_data ds)). P (fst x)) \<longleftrightarrow> (\<exists>d \<in> set ds. P d)"
proof -
  have "(\<exists>x \<in> set (by_produce_hash (indexed_data ds)). P (fst x)) \<longleftrightarrow> (\<exists>d \<in> fst ` set (indexed_data ds). P d)"
    by (simp add: by_produce_hash_def)
  then show ?thesis unfolding fst_indexed_data .
qed

lemma ex_in_flight:
  "(\<exists>x \<in> set (with_in_flight c d ch ds). P (fst x)) \<longleftrightarrow> (\<exists>e \<in> set ds. P e) \<or> (ch = c \<and> P d)"
  using ex_by_hash [of ds P] by (auto simp: with_in_flight_def Let_def)

lemma in_zip_left: "q \<in> set (zip xs ys) \<Longrightarrow> fst q \<in> set xs"
  by (metis prod.collapse set_zip_leftD)

lemma distinct_fst_zip: "distinct xs \<Longrightarrow> distinct (map fst (zip xs ys))"
  by (simp add: map_fst_zip_take)

text \<open>Every pattern of a consume finds a datum of its channel.\<close>

definition all_found ::
  "('p \<Rightarrow> 'a \<Rightarrow> 'a option) \<Rightarrow> 'c list \<Rightarrow> 'p list \<Rightarrow> ('c \<Rightarrow> 'a datum set) \<Rightarrow> bool" where
  "all_found m channels patterns data \<longleftrightarrow>
     (\<forall>q \<in> set (zip channels patterns). \<exists>d \<in> data (fst q). m (snd q) (dt_a d) \<noteq> None)"

lemma spec_consume_fires:
  assumes "distinct channels"
  shows "snd (spec_consume m channels patterns k persist peeks ref v) \<noteq> None \<longleftrightarrow>
    all_found m channels patterns (\<lambda>c. set (vw_data (sv_tuples v) c))"
proof -
  let ?mp = "v_fetch (\<lambda>_ ds. by_produce_hash (indexed_data ds)) channels (sv_tuples v)"
  have "snd (spec_consume m channels patterns k persist peeks ref v) \<noteq> None \<longleftrightarrow>
      (\<forall>x \<in> set (extract_data_candidates (zip channels patterns) ?mp m). x \<noteq> None)"
    using those_None [of "extract_data_candidates (zip channels patterns) ?mp m"]
    by (simp only: spec_consume_def Let_def wrap_result_def split: option.split) (metis option.simps(3) snd_conv)
  also have "\<dots> \<longleftrightarrow> (\<forall>q \<in> set (zip channels patterns).
      \<exists>x \<in> set (by_produce_hash (indexed_data (vw_data (sv_tuples v) (fst q)))). m (snd q) (dt_a (fst x)) \<noteq> None)"
    unfolding extract_distinct [OF distinct_fst_zip [OF assms]] by (intro ball_cong refl) (simp only: fetched in_zip_left)
  finally show ?thesis by (simp only: all_found_def ex_by_hash [where P = "\<lambda>d. m p (dt_a d) \<noteq> None" for p])
qed

lemma spec_candidate_fires:
  assumes "\<forall>channels \<in> set joins. distinct channels"
  shows "spec_candidate m joins c d t \<noteq> None \<longleftrightarrow>
    (\<exists>channels \<in> set joins. \<exists>wc \<in> set (snd (v_get_continuations channels t)).
       all_found m channels (wc_patterns wc) (\<lambda>ch. set (vw_data t ch) \<union> (if ch = c then {d} else {})))"
  using assms
proof (induction joins)
  case (Cons channels joins)
  let ?wcs = "map (\<lambda>(i, wc). (wc, i)) (enumerate 0 (snd (v_get_continuations channels t)))"
  let ?mp = "v_fetch (with_in_flight c d) channels t"
  let ?all = "\<lambda>channels wc. all_found m channels (wc_patterns wc) (\<lambda>ch. set (vw_data t ch) \<union> (if ch = c then {d} else {}))"
  have one: "(\<forall>x \<in> set (extract_data_candidates (zip channels (wc_patterns wc)) ?mp m). x \<noteq> None) \<longleftrightarrow> ?all channels wc"
    for wc :: "('b, 'd) waiting_continuation"
  proof -
    have "(\<forall>x \<in> set (extract_data_candidates (zip channels (wc_patterns wc)) ?mp m). x \<noteq> None) \<longleftrightarrow>
        (\<forall>q \<in> set (zip channels (wc_patterns wc)).
           \<exists>x \<in> set (with_in_flight c d (fst q) (vw_data t (fst q))). m (snd q) (dt_a (fst x)) \<noteq> None)"
      using Cons.prems
      by (subst extract_distinct [OF distinct_fst_zip]) (simp, intro ball_cong refl, simp only: fetched in_zip_left)
    then show ?thesis
      unfolding all_found_def ex_in_flight [where P = "\<lambda>d. m p (dt_a d) \<noteq> None" for p] by (auto split: if_splits)
  qed
  have wcs: "fst ` set ?wcs = set (snd (v_get_continuations channels t))"
  proof -
    have "map fst ?wcs = map snd (enumerate 0 (snd (v_get_continuations channels t)))" by (simp add: split_beta comp_def)
    then have "set (map fst ?wcs) = set (map snd (enumerate 0 (snd (v_get_continuations channels t))))" by (rule arg_cong)
    then show ?thesis by (simp only: set_map [symmetric] map_snd_enumerate)
  qed
  have "extract_first_match channels ?wcs ?mp m \<noteq> None \<longleftrightarrow> (\<exists>x \<in> set ?wcs. ?all channels (fst x))"
    by (simp only: extract_first_match_def first_match_None set_sort one [symmetric] case_prod_beta ball_simps(10) bex_simps(8) not_not)
  also have "\<dots> \<longleftrightarrow> (\<exists>wc \<in> set (snd (v_get_continuations channels t)). ?all channels wc)"
    unfolding wcs [symmetric] by blast
  finally have here: "extract_first_match channels ?wcs ?mp m \<noteq> None \<longleftrightarrow> (\<exists>wc \<in> set (snd (v_get_continuations channels t)). ?all channels wc)" .
  show ?case
  proof (cases "extract_first_match channels ?wcs ?mp m")
    case None
    then show ?thesis using Cons here by simp
  next
    case (Some pc)
    then have "\<exists>wc \<in> set (snd (v_get_continuations channels t)). ?all channels wc" using here by simp
    then show ?thesis using Some by simp
  qed
qed simp

subsection \<open>What a match takes\<close>

lemma mset_nths:
  assumes "distinct is" "\<forall>i \<in> set is. i < length xs"
  shows "mset (nths xs (set is)) = image_mset ((!) xs) (mset is)"
proof -
  have "nths xs A = map ((!) xs) (filter (\<lambda>i. i \<in> A) [0..<length xs])" for A
    by (induction xs arbitrary: A rule: rev_induct) (auto simp: nths_append nth_append intro: map_cong)
  moreover have "mset (filter (\<lambda>i. i \<in> set is) [0..<length xs]) = mset is"
    using assms by (intro set_eq_iff_mset_eq_distinct [THEN iffD1]) auto
  ultimately show ?thesis by (metis mset_map)
qed

lemma mset_nths_compl: "mset (nths xs A) + mset (nths xs (- A)) = mset xs"
  by (induction xs arbitrary: A) (auto simp: nths_Cons Collect_neg_eq)

text \<open>
  The data that a match takes from what is stored: its candidates that are not persistent and not in
  flight.
\<close>

definition stored_taken :: "('c, 'a) consume_candidate list \<Rightarrow> 'c \<Rightarrow> 'a list" where
  "stored_taken cs c =
     map cc_removed_datum (filter (\<lambda>d. cc_channel d = c \<and> \<not> dt_persist (cc_datum d) \<and> 0 \<le> cc_datum_index d) cs)"

text \<open>Candidates say truly where their data are.\<close>

definition placed :: "('c, 'p, 'a, 'k) tuple_view \<Rightarrow> ('c, 'a) consume_candidate list \<Rightarrow> bool" where
  "placed t cs \<longleftrightarrow>
     (\<forall>d \<in> set cs. 0 \<le> cc_datum_index d \<longrightarrow>
        nat (cc_datum_index d) < length (vw_data t (cc_channel d)) \<and>
        dt_a (vw_data t (cc_channel d) ! nat (cc_datum_index d)) = cc_removed_datum d)"

lemma take_conserves:
  assumes dist: "distinct (taken cs c)" and pl: "placed t cs"
  shows "mset (map dt_a (vw_data (v_take cs t) c)) + mset (stored_taken cs c) = mset (map dt_a (vw_data t c))"
proof -
  let ?ds = "filter (\<lambda>d. cc_channel d = c \<and> \<not> dt_persist (cc_datum d) \<and> 0 \<le> cc_datum_index d) cs"
  let ?is = "map (nat \<circ> cc_datum_index) ?ds"
  have ds: "?ds = filter (\<lambda>d. 0 \<le> cc_datum_index d) (filter (\<lambda>d. cc_channel d = c \<and> \<not> dt_persist (cc_datum d)) cs)"
    by (auto intro: filter_cong)
  have "distinct (map cc_datum_index ?ds)"
    using dist unfolding ds taken_filter by (rule distinct_map_filter)
  then have dist': "distinct ?is"
    by (auto simp: distinct_map inj_on_def nat_eq_iff2)
  have "\<forall>i \<in> set ?is. i < length (vw_data t c)" using pl by (auto simp: placed_def)
  note m = mset_nths [OF dist' this]
  have "{i. int i \<notin> set (taken cs c)} = - set ?is"
    by (auto simp: taken_filter image_iff) (metis nat_int int_nat_eq of_nat_0_le_iff)+
  then have split: "mset (vw_data t c) = mset (vw_data (v_take cs t) c) + image_mset ((!) (vw_data t c)) (mset ?is)"
    using mset_nths_compl [of "vw_data t c" "set ?is"] m by (simp add: v_take_def add.commute)
  have "image_mset dt_a (image_mset ((!) (vw_data t c)) (mset ?is)) = mset (stored_taken cs c)"
    using pl unfolding stored_taken_def
    by (auto simp: multiset.map_comp comp_def placed_def intro!: image_mset_cong)
  then show ?thesis by (simp add: split)
qed

lemma extract_member:
  assumes "extract_data_candidates pairs mp m = map Some cs" "x \<in> set cs"
  shows "\<exists>p e. (cc_channel x, p) \<in> set pairs \<and> e \<in> set (bm_get_or [] mp (cc_channel x)) \<and> candidate_from m p (cc_channel x) e x"
proof -
  obtain i where i: "i < length cs" "x = cs ! i" using assms(2) by (metis in_set_conv_nth)
  note l = extract_sound [OF assms(1)]
  obtain ch p where q: "pairs ! i = (ch, p)" by fastforce
  have "(ch, p) \<in> set pairs" using list_all2_lengthD [OF l] i(1) q by (metis nth_mem)
  moreover obtain data e where "bm_get mp ch = Some data" "e \<in> set data" and c: "candidate_from m p ch e x"
    using list_all2_nthD2 [OF l i(1)] q i(2) by auto
  moreover have "cc_channel x = ch" using c by (simp add: candidate_from_def)
  ultimately show ?thesis by (intro exI [of _ p] exI [of _ e]) (simp add: bm_get_or_def)
qed

lemma in_indexed_data: "e \<in> set (indexed_data ds) \<longleftrightarrow> 0 \<le> snd e \<and> nat (snd e) < length ds \<and> ds ! nat (snd e) = fst e"
proof -
  have "e \<in> set (indexed_data ds) \<longleftrightarrow> (\<exists>i < length ds. e = (ds ! i, int i))"
    by (force simp: indexed_data_def in_set_enumerate_eq)
  then show ?thesis by (cases e) (auto intro!: exI [of _ "nat (snd e)"])
qed

lemma fetched_member:
  assumes "extract_data_candidates (zip channels patterns) (v_fetch f channels t) m = map Some cs" "x \<in> set cs"
  obtains p e where "e \<in> set (f (cc_channel x) (vw_data t (cc_channel x)))" "candidate_from m p (cc_channel x) e x"
proof -
  obtain p e where e: "(cc_channel x, p) \<in> set (zip channels patterns)"
    "e \<in> set (bm_get_or [] (v_fetch f channels t) (cc_channel x))" "candidate_from m p (cc_channel x) e x"
    using extract_member [OF assms] by blast
  show thesis using that [OF _ e(3)] e(2) unfolding fetched [OF set_zip_leftD [OF e(1)]] .
qed

lemma consume_placed:
  assumes "extract_data_candidates (zip channels patterns)
      (v_fetch (\<lambda>_ ds. by_produce_hash (indexed_data ds)) channels t) m = map Some cs"
  shows "placed t cs" "\<forall>x \<in> set cs. 0 \<le> cc_datum_index x"
proof -
  have "0 \<le> cc_datum_index x \<and> nat (cc_datum_index x) < length (vw_data t (cc_channel x)) \<and>
      dt_a (vw_data t (cc_channel x) ! nat (cc_datum_index x)) = cc_removed_datum x" if "x \<in> set cs" for x
  proof (rule fetched_member [OF assms that])
    fix p e assume "e \<in> set (by_produce_hash (indexed_data (vw_data t (cc_channel x))))" "candidate_from m p (cc_channel x) e x"
    then show ?thesis by (simp add: by_produce_hash_def in_indexed_data candidate_from_def)
  qed
  then show "placed t cs" "\<forall>x \<in> set cs. 0 \<le> cc_datum_index x" by (simp_all add: placed_def)
qed

lemma in_flight_placed:
  assumes "extract_data_candidates (zip channels patterns) (v_fetch (with_in_flight c d) channels t) m = map Some cs"
  shows "placed t cs"
    and "\<forall>x \<in> set cs. cc_datum_index x < 0 \<longrightarrow> cc_datum_index x = - 1 \<and> cc_channel x = c \<and> cc_removed_datum x = dt_a d"
proof -
  have "(0 \<le> cc_datum_index x \<and> nat (cc_datum_index x) < length (vw_data t (cc_channel x)) \<and>
      dt_a (vw_data t (cc_channel x) ! nat (cc_datum_index x)) = cc_removed_datum x) \<or>
      (cc_datum_index x = - 1 \<and> cc_channel x = c \<and> cc_removed_datum x = dt_a d)" if "x \<in> set cs" for x
  proof (rule fetched_member [OF assms that])
    fix p e assume "e \<in> set (with_in_flight c d (cc_channel x) (vw_data t (cc_channel x)))" "candidate_from m p (cc_channel x) e x"
    then show ?thesis
      by (auto simp: with_in_flight_def Let_def by_produce_hash_def in_indexed_data candidate_from_def split: if_splits)
  qed
  then show "placed t cs"
    "\<forall>x \<in> set cs. cc_datum_index x < 0 \<longrightarrow> cc_datum_index x = - 1 \<and> cc_channel x = c \<and> cc_removed_datum x = dt_a d"
    by (force simp: placed_def)+
qed

text \<open>The values that a result says were removed from a channel.\<close>

definition removed_at :: "('c, 'a) match_result list \<Rightarrow> 'c \<Rightarrow> 'a list" where
  "removed_at ms c = map mr_removed_datum (filter (\<lambda>m. mr_channel m = c \<and> \<not> mr_persistent m) ms)"

definition data_at :: "('c, 'p, 'a, 'k) rspace \<Rightarrow> 'c \<Rightarrow> 'a datum list" where
  "data_at rs c = vw_data (store_view (rs_store rs)) c"

lemma removed_at_wrapped:
  assumes "wrap_result channels wk cs = Some (cr, ms)"
  shows "removed_at ms c = map cc_removed_datum (filter (\<lambda>d. cc_channel d = c \<and> \<not> dt_persist (cc_datum d)) cs)"
proof -
  have ms: "ms = map (\<lambda>dc. \<lparr>mr_channel = cc_channel dc, mr_matched_datum = dt_a (cc_datum dc),
      mr_removed_datum = cc_removed_datum dc, mr_persistent = dt_persist (cc_datum dc)\<rparr>) cs"
    using assms by (simp add: wrap_result_def)
  show ?thesis unfolding ms removed_at_def by (simp add: filter_map comp_def)
qed

lemma in_flight_once:
  assumes "distinct (taken cs ch)"
    "\<forall>x \<in> set cs. cc_datum_index x < 0 \<longrightarrow> cc_datum_index x = - 1 \<and> cc_channel x = c \<and> cc_removed_datum x = a"
  shows "mset (map cc_removed_datum (filter (\<lambda>d. cc_channel d = ch \<and> \<not> dt_persist (cc_datum d)) cs)) \<subseteq>#
    mset (stored_taken cs ch) + (if ch = c then {#a#} else {#})"
proof -
  let ?ds = "filter (\<lambda>d. cc_channel d = ch \<and> \<not> dt_persist (cc_datum d)) cs"
  let ?neg = "filter (\<lambda>d. \<not> 0 \<le> cc_datum_index d) ?ds"
  have "mset ?ds = mset (filter (\<lambda>d. 0 \<le> cc_datum_index d) ?ds) + mset ?neg"
    by (simp only: mset_filter multiset_partition [symmetric])
  then have "mset (map cc_removed_datum ?ds) = mset (stored_taken cs ch) + mset (map cc_removed_datum ?neg)"
    by (simp only: mset_map image_mset_union stored_taken_def filter_filter conj_assoc)
  moreover have "mset (map cc_removed_datum ?neg) \<subseteq># (if ch = c then {#a#} else {#})"
  proof (cases ?neg)
    case (Cons x xs)
    have "distinct (map cc_datum_index ?neg)" using assms(1) unfolding taken_filter by (rule distinct_map_filter)
    moreover have "\<forall>y \<in> set ?neg. cc_datum_index y = - 1" using assms(2) by auto
    ultimately have "xs = []" unfolding Cons by (cases xs) auto
    moreover have "x \<in> set ?neg" unfolding Cons by simp
    then have "ch = c" "cc_removed_datum x = a" using assms(2) by auto
    ultimately show ?thesis unfolding Cons by simp
  qed simp
  ultimately show ?thesis by simp
qed

lemma wrapped_sound:
  assumes ex: "extract_data_candidates (zip channels patterns) (v_fetch f channels t) m = map Some cs"
    and w: "wrap_result channels' wk cs = Some (cr, ms)" and i: "i < length (zip channels patterns)"
  shows "mr_channel (ms ! i) = channels ! i"
    and "m (patterns ! i) (mr_removed_datum (ms ! i)) = Some (mr_matched_datum (ms ! i))"
    and "\<exists>e \<in> set (f (channels ! i) (vw_data t (channels ! i))). mr_removed_datum (ms ! i) = dt_a (fst e)"
proof -
  have ms: "ms = map (\<lambda>dc. \<lparr>mr_channel = cc_channel dc, mr_matched_datum = dt_a (cc_datum dc),
      mr_removed_datum = cc_removed_datum dc, mr_persistent = dt_persist (cc_datum dc)\<rparr>) cs"
    using w by (simp add: wrap_result_def)
  note l = extract_sound [OF ex]
  have n: "i < length cs" using list_all2_lengthD [OF l] i by simp
  have "channels ! i \<in> set channels" using i by simp
  then obtain e where "e \<in> set (f (channels ! i) (vw_data t (channels ! i)))" "candidate_from m (patterns ! i) (channels ! i) e (cs ! i)"
    using list_all2_nthD [OF l i] i by (auto simp: bm_get_v_fetch)
  then show "mr_channel (ms ! i) = channels ! i"
    "m (patterns ! i) (mr_removed_datum (ms ! i)) = Some (mr_matched_datum (ms ! i))"
    "\<exists>e \<in> set (f (channels ! i) (vw_data t (channels ! i))). mr_removed_datum (ms ! i) = dt_a (fst e)"
    using n by (auto simp: ms candidate_from_def)
qed

lemma wrapped_length: "wrap_result channels wk cs = Some (cr, ms) \<Longrightarrow> length ms = length cs"
  by (auto simp: wrap_result_def)

text \<open>
  \<open>accounted m pairs data before after ms\<close>: a result names one datum for each channel and pattern, that
  was there and that the pattern matched.
\<close>

definition accounted ::
  "('p \<Rightarrow> 'a \<Rightarrow> 'a option) \<Rightarrow> 'c list \<Rightarrow> 'p list \<Rightarrow> ('c \<Rightarrow> 'a set) \<Rightarrow> ('c, 'a) match_result list \<Rightarrow> bool" where
  "accounted m channels patterns there ms \<longleftrightarrow>
     length ms = length (zip channels patterns) \<and>
     (\<forall>i < length ms. mr_channel (ms ! i) = channels ! i \<and>
        m (patterns ! i) (mr_removed_datum (ms ! i)) = Some (mr_matched_datum (ms ! i)) \<and>
        mr_removed_datum (ms ! i) \<in> there (channels ! i))"

lemma spec_consume_sound:
  assumes "spec_consume m channels patterns k persist peeks ref v = (v', Some (cr, ms))"
  shows "accounted m channels patterns (\<lambda>c. dt_a ` set (vw_data (sv_tuples v) c)) ms"
    and "mset (map dt_a (vw_data (sv_tuples v') c)) + mset (removed_at ms c) = mset (map dt_a (vw_data (sv_tuples v) c))"
    and "cr_continuation cr = k"
proof -
  let ?mp = "v_fetch (\<lambda>_ ds. by_produce_hash (indexed_data ds)) channels (sv_tuples v)"
  let ?wk = "the_continuation patterns k persist peeks ref"
  obtain cs where those: "those (extract_data_candidates (zip channels patterns) ?mp m) = Some cs"
    and v': "sv_tuples v' = v_take cs (sv_tuples v)" and w: "wrap_result channels ?wk cs = Some (cr, ms)"
    using assms by (auto simp: spec_consume_def Let_def split: option.splits)
  have ex: "extract_data_candidates (zip channels patterns) ?mp m = map Some cs" using those by (simp only: those_eq_map)
  have n: "length ms = length (zip channels patterns)"
    using arg_cong [OF ex, of length] wrapped_length [OF w] by simp
  show "cr_continuation cr = k" using w by (auto simp: wrap_result_def the_continuation_def)
  show "accounted m channels patterns (\<lambda>c. dt_a ` set (vw_data (sv_tuples v) c)) ms"
    unfolding accounted_def
  proof (intro conjI allI impI, rule n)
    fix i assume "i < length ms"
    then have i: "i < length (zip channels patterns)" using n by simp
    note s = wrapped_sound [OF ex w i]
    show "mr_channel (ms ! i) = channels ! i" "m (patterns ! i) (mr_removed_datum (ms ! i)) = Some (mr_matched_datum (ms ! i))"
      by (rule s)+
    show "mr_removed_datum (ms ! i) \<in> dt_a ` set (vw_data (sv_tuples v) (channels ! i))"
      using s(3) ex_by_hash [of "vw_data (sv_tuples v) (channels ! i)" "\<lambda>d. mr_removed_datum (ms ! i) = dt_a d"] by auto
  qed
  have "stored_taken cs c = removed_at ms c"
    unfolding removed_at_wrapped [OF w] stored_taken_def using consume_placed(2) [OF ex] by (auto intro!: arg_cong [of _ _ "map _"] filter_cong)
  then show "mset (map dt_a (vw_data (sv_tuples v') c)) + mset (removed_at ms c) = mset (map dt_a (vw_data (sv_tuples v) c))"
    using take_conserves [OF matched_distinct [OF those fetch_indices_ok] consume_placed(1) [OF ex], of c] unfolding v' by simp
qed

lemma spec_produce_sound:
  assumes "spec_produce m c a persist ref v = (v', Some (cr, ms))"
  shows "cr_channels cr \<in> set (snd (v_get_joins c (sv_tuples v)))"
    and "\<exists>wc \<in> set (snd (v_get_continuations (cr_channels cr) (sv_tuples v))).
      wc_continuation wc = cr_continuation cr \<and> wc_patterns wc = cr_patterns cr \<and> wc_persist wc = cr_persistent cr"
    and "accounted m (cr_channels cr) (cr_patterns cr) (\<lambda>ch. dt_a ` set (vw_data (sv_tuples v) ch) \<union> (if ch = c then {a} else {})) ms"
    and "mset (map dt_a (vw_data (sv_tuples v') ch)) + mset (removed_at ms ch) \<subseteq>#
      mset (map dt_a (vw_data (sv_tuples v) ch)) + (if ch = c then {#a#} else {#})"
proof -
  let ?d = "\<lparr>dt_a = a, dt_persist = persist, dt_source = ref\<rparr>" and ?t = "sv_tuples v"
  obtain pc where sc: "spec_candidate m (snd (v_get_joins c ?t)) c ?d ?t = Some pc"
    and v': "sv_tuples v' = v_fire pc ?t"
    and w: "wrap_result (pc_channels pc) (pc_continuation pc) (pc_data_candidates pc) = Some (cr, ms)"
    using assms by (auto simp: spec_produce_def Let_def split: option.splits)
  have cr: "cr_channels cr = pc_channels pc" "cr_patterns cr = wc_patterns (pc_continuation pc)"
    "cr_continuation cr = wc_continuation (pc_continuation pc)" "cr_persistent cr = wc_persist (pc_continuation pc)"
    using w by (auto simp: wrap_result_def)
  note pc = spec_candidate_Some [OF sc]
  show "cr_channels cr \<in> set (snd (v_get_joins c (sv_tuples v)))" unfolding cr by (rule pc(1))
  show "\<exists>wc \<in> set (snd (v_get_continuations (cr_channels cr) (sv_tuples v))).
      wc_continuation wc = cr_continuation cr \<and> wc_patterns wc = cr_patterns cr \<and> wc_persist wc = cr_persistent cr"
    unfolding cr by (rule bexI [of _ "pc_continuation pc"]) (use nth_mem [OF pc(3)] in \<open>simp_all add: pc(4)\<close>)
  have n: "length ms = length (zip (cr_channels cr) (cr_patterns cr))"
    using arg_cong [OF pc(2), of length] wrapped_length [OF w] by (simp add: cr)
  show "accounted m (cr_channels cr) (cr_patterns cr) (\<lambda>ch. dt_a ` set (vw_data ?t ch) \<union> (if ch = c then {a} else {})) ms"
    unfolding accounted_def
  proof (intro conjI allI impI, rule n)
    fix i assume "i < length ms"
    then have i: "i < length (zip (pc_channels pc) (wc_patterns (pc_continuation pc)))" using n by (simp add: cr)
    note s = wrapped_sound [OF pc(2) w i]
    show "mr_channel (ms ! i) = cr_channels cr ! i" "m (cr_patterns cr ! i) (mr_removed_datum (ms ! i)) = Some (mr_matched_datum (ms ! i))"
      unfolding cr by (rule s)+
    show "mr_removed_datum (ms ! i) \<in> dt_a ` set (vw_data ?t (cr_channels cr ! i)) \<union> (if cr_channels cr ! i = c then {a} else {})"
      using s(3) ex_in_flight [of c ?d "cr_channels cr ! i" "vw_data ?t (cr_channels cr ! i)" "\<lambda>d. mr_removed_datum (ms ! i) = dt_a d"]
      by (auto simp: cr)
  qed
  have dist: "distinct (taken (pc_data_candidates pc) ch)" for ch
    using extract_taken [OF pc(2) in_flight_indices_ok] by simp
  note pl = in_flight_placed [OF pc(2)]
  have "vw_data (sv_tuples v') ch = vw_data (v_take (pc_data_candidates pc) ?t) ch"
    by (simp add: v' v_fire_def v_unjoin_def v_take_def v_remove_continuation_def split: option.split nat.split)
  then have "mset (map dt_a (vw_data (sv_tuples v') ch)) + mset (stored_taken (pc_data_candidates pc) ch) = mset (map dt_a (vw_data ?t ch))"
    using take_conserves [OF dist pl(1)] by simp
  moreover have "mset (removed_at ms ch) \<subseteq># mset (stored_taken (pc_data_candidates pc) ch) + (if ch = c then {#a#} else {#})"
    unfolding removed_at_wrapped [OF w] using in_flight_once [OF dist, of c a] pl(2) by simp
  ultimately show "mset (map dt_a (vw_data (sv_tuples v') ch)) + mset (removed_at ms ch) \<subseteq>#
      mset (map dt_a (vw_data (sv_tuples v) ch)) + (if ch = c then {#a#} else {#})"
    by (metis (no_types, lifting) add.assoc mset_subset_eq_mono_add_left_cancel)
qed

lemma spec_produce_stored:
  fixes v :: "('c::linorder, 'p, 'a, 'k) space_view"
  defines "d \<equiv> \<lambda>a persist ref. \<lparr>dt_a = a, dt_persist = persist, dt_source = ref\<rparr>"
  shows "snd (spec_produce m c a persist ref v) = None \<longleftrightarrow>
      spec_candidate m (snd (v_get_joins c (sv_tuples v))) c (d a persist ref) (sv_tuples v) = None"
    and "snd (spec_produce m c a persist ref v) = None \<Longrightarrow>
      vw_data (sv_tuples (fst (spec_produce m c a persist ref v))) c = d a persist ref # vw_data (sv_tuples v) c"
  unfolding d_def
  by (cases "spec_candidate m (snd (v_get_joins c (sv_tuples v))) c \<lparr>dt_a = a, dt_persist = persist, dt_source = ref\<rparr> (sv_tuples v)";
      simp add: spec_produce_def Let_def wrap_result_def v_put_datum_def)+

section \<open>Properties\<close>

text \<open>
  C2: the tuple space behaves as its specification. From a well-formed space, any sequence of produces,
  consumes, installs and native writes returns what the functions on views return, failures included,
  and ends in a well-formed space whose view is the one those functions reach: the history cache and
  the laziness of the overlay cannot be observed.
\<close>

theorem space_runs_refine:
  assumes "space_ok r rs"
  shows "snd (run_all (run_command env) cmds rs) = snd (run_all (spec_command env) cmds (view_of rs)) \<and>
    view_of (fst (run_all (run_command env) cmds rs)) = fst (run_all (spec_command env) cmds (view_of rs)) \<and>
    space_ok r (fst (run_all (run_command env) cmds rs))"
  using space.runs_results [OF assms] space.runs_view [OF assms] space.runs_ok [OF assms] by blast

text \<open>
  C12: reverting to a soft checkpoint undoes everything in between. Whatever commands run after the
  checkpoint, the reverted space is well-formed and has the view it had before the checkpoint: the
  same data, continuations, joins, log, counters and native values. Only the record of installs,
  which nothing reads, is kept as it is.
\<close>

theorem soft_checkpoint_restores:
  assumes "space_ok (current_reader env rs) rs" "create_soft_checkpoint rs = (rs1, ck)"
    and "rs2 = fst (run_all (run_command env) cmds rs1)"
  shows "space_ok (current_reader env rs) (revert_to_soft_checkpoint env ck rs2) \<and>
    view_of (revert_to_soft_checkpoint env ck rs2) = (view_of rs)\<lparr>sv_installs := rs_installs rs2\<rparr>"
proof -
  have 1: "rs1 = fst (create_soft_checkpoint rs)" "ck = snd (create_soft_checkpoint rs)" using assms(2) by simp_all
  have "space_ok (current_reader env rs) rs1" using soft_checkpoint_ok [OF assms(1)] 1 by simp
  from space.runs_keep [OF spec_command_keeps(1) this, of env cmds] space.runs_keep [of "\<lambda>v. ns_reader (sv_native v)", OF spec_command_keeps(2) this, of env cmds]
  have "rs_repository rs2 = rs_repository rs1" "ns_reader (rs_native rs2) = ns_reader (rs_native rs1)"
    by (simp_all add: assms(3) view_of_def)
  moreover have "rs_repository rs1 = rs_repository rs" "rs_native rs1 = rs_native rs"
    by (simp_all add: 1 create_soft_checkpoint_def)
  ultimately show ?thesis using revert_view [OF assms(1), of rs2] 1 by simp
qed

text \<open>
  C13: a consume that fires took what it says. Each pattern has one result: a datum of its channel that
  was there and that it matched. The data of every channel before the consume are those after it
  together with the removed ones that are not persistent, so nothing is lost, taken twice or made up.
\<close>

theorem consume_sound:
  assumes "space_ok r rs" "consume env channels patterns k persist peeks rs = (rs', Inr (Some (cr, ms)))"
  shows "cr_continuation cr = k \<and> accounted (se_matcher env) channels patterns (\<lambda>c. dt_a ` set (data_at rs c)) ms \<and>
    (\<forall>c. mset (map dt_a (data_at rs' c)) + mset (removed_at ms c) = mset (map dt_a (data_at rs c)))"
proof -
  have args: "channels \<noteq> []" "length channels = length patterns"
    using assms(2) by (auto simp: consume_def throw_def split: if_splits)
  let ?f = "spec_consume (se_matcher env) channels patterns k persist peeks (consume_ref env channels patterns k persist) (view_of rs)"
  have "?f = (view_of rs', Some (cr, ms))"
    using implementsE [OF consume_implements [OF args] assms(1), of env k persist peeks] assms(2)
    by (metis consume_ref_def Pair_inject prod.collapse sum.inject(2))
  from spec_consume_sound [OF this] show ?thesis by (simp add: data_at_def view_of_def)
qed

text \<open>
  C15: a produce that fires took what it says. The continuation was waiting on a join of the channel,
  each of its patterns has a datum that was there or is the one just produced, and no channel has more
  data, counting the removed ones, than it had with the produced datum added.
\<close>

theorem produce_sound:
  assumes "space_ok r rs" "produce env c a persist rs = (rs', Inr (Some (cr, ms)))"
  shows "cr_channels cr \<in> set (snd (v_get_joins c (store_view (rs_store rs)))) \<and>
    (\<exists>wc \<in> set (snd (v_get_continuations (cr_channels cr) (store_view (rs_store rs)))).
       wc_continuation wc = cr_continuation cr \<and> wc_patterns wc = cr_patterns cr \<and> wc_persist wc = cr_persistent cr) \<and>
    accounted (se_matcher env) (cr_channels cr) (cr_patterns cr)
      (\<lambda>ch. dt_a ` set (data_at rs ch) \<union> (if ch = c then {a} else {})) ms \<and>
    (\<forall>ch. mset (map dt_a (data_at rs' ch)) + mset (removed_at ms ch) \<subseteq>#
       mset (map dt_a (data_at rs ch)) + (if ch = c then {#a#} else {#}))"
proof -
  let ?f = "spec_produce (se_matcher env) c a persist (produce_ref env c a persist) (view_of rs)"
  have f: "?f = (view_of rs', Some (cr, ms))"
    using implementsE [OF produce_implements assms(1), of env c a persist] assms(2)
    by (metis produce_ref_def Pair_inject prod.collapse sum.inject(2))
  have t: "sv_tuples (view_of rs) = store_view (rs_store rs)" "data_at rs = vw_data (sv_tuples (view_of rs))"
    "data_at rs' = vw_data (sv_tuples (view_of rs'))"
    by (simp_all add: view_of_def data_at_def fun_eq_iff)
  from spec_produce_sound [OF f] show ?thesis unfolding t by blast
qed

text \<open>
  C16: a consume on distinct channels fires exactly when every pattern finds a datum of its channel.
  Otherwise it waits. Neither a match that exists nor a refusal depends on the order of the data.
\<close>

theorem consume_fires:
  assumes "space_ok r rs" "channels \<noteq> []" "length channels = length patterns" "distinct channels"
  shows "\<exists>rs' x. consume env channels patterns k persist peeks rs = (rs', Inr x) \<and>
    (x \<noteq> None \<longleftrightarrow> all_found (se_matcher env) channels patterns (\<lambda>c. set (data_at rs c)))"
proof -
  obtain rs' where "consume env channels patterns k persist peeks rs =
      (rs', Inr (snd (spec_consume (se_matcher env) channels patterns k persist peeks (consume_ref env channels patterns k persist) (view_of rs))))"
    using implementsE [OF consume_implements [OF assms(2,3)] assms(1), of env k persist peeks] unfolding consume_ref_def by metis
  moreover have "(\<lambda>c. set (data_at rs c)) = (\<lambda>c. set (vw_data (sv_tuples (view_of rs)) c))"
    by (simp add: data_at_def view_of_def)
  ultimately show ?thesis using spec_consume_fires [OF assms(4)] by metis
qed

text \<open>
  C17: a produce fires exactly when some continuation that waits on a join of the channel finds data for
  all its patterns among the stored data and the one produced. Otherwise the datum is stored.
\<close>

theorem produce_fires:
  assumes "space_ok r rs" "\<forall>channels \<in> set (snd (v_get_joins c (store_view (rs_store rs)))). distinct channels"
  shows "\<exists>rs' x. produce env c a persist rs = (rs', Inr x) \<and>
    (x \<noteq> None \<longleftrightarrow>
       (\<exists>channels \<in> set (snd (v_get_joins c (store_view (rs_store rs)))).
        \<exists>wc \<in> set (snd (v_get_continuations channels (store_view (rs_store rs)))).
          all_found (se_matcher env) channels (wc_patterns wc)
            (\<lambda>ch. set (data_at rs ch) \<union>
              (if ch = c then {\<lparr>dt_a = a, dt_persist = persist, dt_source = produce_ref env c a persist\<rparr>} else {})))) \<and>
    (x = None \<longrightarrow>
       data_at rs' c = \<lparr>dt_a = a, dt_persist = persist, dt_source = produce_ref env c a persist\<rparr> # data_at rs c)"
proof -
  let ?d = "\<lparr>dt_a = a, dt_persist = persist, dt_source = produce_ref env c a persist\<rparr>" and ?t = "store_view (rs_store rs)"
  let ?f = "spec_produce (se_matcher env) c a persist (produce_ref env c a persist) (view_of rs)"
  have t: "sv_tuples (view_of rs) = ?t" "data_at rs = vw_data ?t" by (simp_all add: view_of_def data_at_def fun_eq_iff)
  obtain rs' where rs': "produce env c a persist rs = (rs', Inr (snd ?f))" "view_of rs' = fst ?f"
    using implementsE [OF produce_implements assms(1), of env c a persist] unfolding produce_ref_def by metis
  note p = spec_produce_stored [of "se_matcher env" c a persist "produce_ref env c a persist" "view_of rs"]
  have "snd ?f \<noteq> None \<longleftrightarrow> spec_candidate (se_matcher env) (snd (v_get_joins c ?t)) c ?d ?t \<noteq> None"
    by (simp only: p(1) t)
  moreover have "snd ?f = None \<Longrightarrow> data_at rs' c = ?d # data_at rs c"
    using p(2) arg_cong [OF rs'(2), of "\<lambda>v. vw_data (sv_tuples v) c"] unfolding t by (simp add: data_at_def view_of_def)
  ultimately show ?thesis
    unfolding t(2) spec_candidate_fires [OF assms(2)] by (intro exI [of _ rs'] exI [of _ "snd ?f"] conjI impI rs'(1)) simp_all
qed

subsection \<open>Persistent continuations and joins\<close>

text \<open>No datum, continuation or join at the channel.\<close>

definition quiet :: "('c, 'p, 'a, 'k) tuple_view \<Rightarrow> 'c \<Rightarrow> bool" where
  "quiet t c \<longleftrightarrow>
     vw_data t c = [] \<and> vw_joins t c = [] \<and> vw_installed_joins t c = [] \<and> vw_continuations t [c] = [] \<and>
     vw_installed t [c] = None"

text \<open>One command on one channel, seen through the tuples of the view.\<close>

lemma consume_command_waits:
  assumes "\<forall>d \<in> set (vw_data (sv_tuples v) c). se_matcher env p (dt_a d) = None"
  shows "snd (spec_command env (Consume [c] [p] k persist peeks) v) = Inr (Acted None)"
    and "sv_tuples (fst (spec_command env (Consume [c] [p] k persist peeks) v)) =
      v_wait [c] (the_continuation [p] k persist peeks (consume_ref env [c] [p] k persist)) (sv_tuples v)"
    and "sv_log (fst (spec_command env (Consume [c] [p] k persist peeks) v)) = EConsume (consume_ref env [c] [p] k persist) # sv_log v"
proof -
  have "snd (spec_consume (se_matcher env) [c] [p] k persist peeks (consume_ref env [c] [p] k persist) v) = None"
    using spec_consume_fires [of "[c]" "se_matcher env" "[p]" k persist peeks "consume_ref env [c] [p] k persist" v] assms
    by (simp add: all_found_def del: not_None_eq split_paired_All)
  then show "snd (spec_command env (Consume [c] [p] k persist peeks) v) = Inr (Acted None)"
    "sv_tuples (fst (spec_command env (Consume [c] [p] k persist peeks) v)) =
      v_wait [c] (the_continuation [p] k persist peeks (consume_ref env [c] [p] k persist)) (sv_tuples v)"
    "sv_log (fst (spec_command env (Consume [c] [p] k persist peeks) v)) = EConsume (consume_ref env [c] [p] k persist) # sv_log v"
    by (auto simp: succeeds_def spec_consume_def Let_def wrap_result_def v_log_def split: option.splits)
qed

lemma produce_command_stores:
  fixes env :: "('c::linorder, 'p, 'a, 'k) space_env"
  defines "d \<equiv> \<lambda>c a persist. \<lparr>dt_a = a, dt_persist = persist, dt_source = produce_ref env c a persist\<rparr>"
  assumes "vw_installed_joins (sv_tuples v) c = []" "vw_joins (sv_tuples v) c = []"
  shows "snd (spec_command env (Produce c a persist) v) = Inr (Acted None)"
    and "sv_tuples (fst (spec_command env (Produce c a persist) v)) =
      (sv_tuples v)\<lparr>vw_data := (vw_data (sv_tuples v))(c := d c a persist # vw_data (sv_tuples v) c)\<rparr>"
    and "sv_log (fst (spec_command env (Produce c a persist) v)) = EProduce (produce_ref env c a persist) # sv_log v"
  using assms(2,3)
  by (simp_all add: succeeds_def spec_produce_def Let_def v_get_joins_def v_put_datum_def d_def v_log_def v_count_def)

lemma produce_command_fires:
  fixes env :: "('c::linorder, 'p, 'a, 'k) space_env"
  defines "d \<equiv> \<lambda>c a persist. \<lparr>dt_a = a, dt_persist = persist, dt_source = produce_ref env c a persist\<rparr>"
  assumes "vw_installed_joins (sv_tuples v) c = []" "vw_joins (sv_tuples v) c = [[c]]" "vw_installed (sv_tuples v) [c] = None"
    and "extract_first_match [c] (map (\<lambda>(i, wc). (wc, i)) (enumerate 0 (vw_continuations (sv_tuples v) [c])))
      [(c, (d c a persist, - 1) # by_produce_hash (indexed_data (vw_data (sv_tuples v) c)))] (se_matcher env) = Some pc"
  shows "snd (spec_command env (Produce c a persist) v) =
      Inr (Acted (wrap_result (pc_channels pc) (pc_continuation pc) (pc_data_candidates pc)))"
    and "sv_tuples (fst (spec_command env (Produce c a persist) v)) = v_fire pc (sv_tuples v)"
    and "\<exists>peeks (w :: ('c, 'p, 'a, 'k) space_view). sv_log (fst (spec_command env (Produce c a persist) v)) =
      EComm (v_comm (pc_data_candidates pc) (wc_source (pc_continuation pc)) peeks w) #
      EProduce (produce_ref env c a persist) # sv_log v"
proof -
  have "spec_candidate (se_matcher env) (snd (v_get_joins c (sv_tuples v))) c (d c a persist) (sv_tuples v) = Some pc"
    using assms(2-5) by (simp add: v_get_joins_def v_get_continuations_def v_fetch_def with_in_flight_def Let_def bm_insert_def bm_remove_def)
  then show "snd (spec_command env (Produce c a persist) v) =
      Inr (Acted (wrap_result (pc_channels pc) (pc_continuation pc) (pc_data_candidates pc)))"
    "sv_tuples (fst (spec_command env (Produce c a persist) v)) = v_fire pc (sv_tuples v)"
    "\<exists>peeks (w :: ('c, 'p, 'a, 'k) space_view). sv_log (fst (spec_command env (Produce c a persist) v)) =
      EComm (v_comm (pc_data_candidates pc) (wc_source (pc_continuation pc)) peeks w) #
      EProduce (produce_ref env c a persist) # sv_log v"
    unfolding d_def by (simp add: succeeds_def spec_produce_def Let_def, simp add: succeeds_def spec_produce_def Let_def,
      auto simp: succeeds_def spec_produce_def Let_def v_log_def v_count_def)
qed

lemma results_of_run:
  assumes "space_ok r rs"
  shows "run_all (run_command env) cmds rs =
      (fst (run_all (run_command env) cmds rs), snd (run_all (spec_command env) cmds (view_of rs)))"
    and "store_view (rs_store (fst (run_all (run_command env) cmds rs))) =
      sv_tuples (fst (run_all (spec_command env) cmds (view_of rs)))"
  using space.runs_results [OF assms, of env cmds] arg_cong [OF space.runs_view [OF assms, of env cmds], of sv_tuples]
  by (simp_all add: prod_eq_iff view_of_def)

lemmas one_channel =
  consume_command_waits produce_command_stores produce_command_fires v_wait_def v_fire_def v_unjoin_def v_take_def
  extract_first_match_def find_matching_data_candidate_def by_produce_hash_def indexed_data_def the_continuation_def

text \<open>The log \<open>log\<close> has one communication, of the produce \<open>p\<close> alone.\<close>

definition only_comm :: "produce \<Rightarrow> event list \<Rightarrow> bool" where
  "only_comm p log \<longleftrightarrow> (\<forall>x. EComm x \<in> set log \<longrightarrow> cm_produces x = [p])"

lemma comm_of_one: "cm_produces (v_comm [cand] ref peeks w) = [dt_source (cc_datum cand)]"
  by (simp add: v_comm_def comm_apply_def Let_def)

lemma misses_view:
  assumes q: "quiet (sv_tuples v) c" and m: "se_matcher env p a = Some a'"
  obtains v' fired where
    "run_all (spec_command env) [Consume [c] [p] k True [], Produce c a False, Produce c a False] v =
      (v', [Inr (Acted None), Inr (Acted (Some fired)), Inr (Acted None)])"
    "vw_data (sv_tuples v') c = [\<lparr>dt_a = a, dt_persist = False, dt_source = produce_ref env c a False\<rparr>]"
    "vw_continuations (sv_tuples v') [c] = [the_continuation [p] k True [] (consume_ref env [c] [p] k True)]"
    "vw_installed (sv_tuples v') [c] = None" "vw_joins (sv_tuples v') c = []" "vw_installed_joins (sv_tuples v') c = []"
    "only_comm (produce_ref env c a False) (sv_log v) \<longrightarrow> only_comm (produce_ref env c a False) (sv_log v')"
proof -
  define v1 where "v1 = fst (spec_command env (Consume [c] [p] k True []) v)"
  define v2 where "v2 = fst (spec_command env (Produce c a False) v1)"
  define v3 where "v3 = fst (spec_command env (Produce c a False) v2)"
  let ?wk = "the_continuation [p] k True [] (consume_ref env [c] [p] k True)"
  let ?cand = "\<lparr>cc_channel = c, cc_datum = \<lparr>dt_a = a', dt_persist = False, dt_source = produce_ref env c a False\<rparr>,
      cc_removed_datum = a, cc_datum_index = - 1\<rparr>"
  let ?pc = "\<lparr>pc_channels = [c], pc_continuation = ?wk, pc_continuation_index = 0, pc_data_candidates = [?cand]\<rparr>"
  have 1: "snd (spec_command env (Consume [c] [p] k True []) v) = Inr (Acted None)"
    "vw_joins (sv_tuples v1) c = [[c]]" "vw_installed_joins (sv_tuples v1) c = []" "vw_installed (sv_tuples v1) [c] = None"
    "vw_data (sv_tuples v1) c = []" "vw_continuations (sv_tuples v1) [c] = [?wk]"
    "sv_log v1 = EConsume (consume_ref env [c] [p] k True) # sv_log v"
    unfolding v1_def using q by (simp_all add: quiet_def consume_command_waits v_wait_def del: spec_command.simps)
  have "extract_first_match [c] (map (\<lambda>(i, wc). (wc, i)) (enumerate 0 (vw_continuations (sv_tuples v1) [c])))
      [(c, (\<lparr>dt_a = a, dt_persist = False, dt_source = produce_ref env c a False\<rparr>, - 1) #
        by_produce_hash (indexed_data (vw_data (sv_tuples v1) c)))] (se_matcher env) = Some ?pc"
    using m by (simp add: 1 one_channel)
  note f = produce_command_fires [OF 1(3,2,4) this]
  have 2: "vw_joins (sv_tuples v2) c = []" "vw_installed_joins (sv_tuples v2) c = []" "vw_data (sv_tuples v2) c = []"
    "vw_continuations (sv_tuples v2) [c] = [?wk]" "vw_installed (sv_tuples v2) [c] = None"
    unfolding v2_def f by (simp_all add: v_fire_def v_unjoin_def v_take_def 1 the_continuation_def)
  note s = produce_command_stores [OF 2(2,1)]
  have run: "run_all (spec_command env) [Consume [c] [p] k True [], Produce c a False, Produce c a False] v =
      (v3, [Inr (Acted None), Inr (Acted (Some (the (wrap_result [c] ?wk [?cand])))), Inr (Acted None)])"
    using 1(1) f(1) s(1)
    by (simp add: split_beta Let_def v1_def [symmetric] v2_def [symmetric] v3_def [symmetric] wrap_result_def
        del: spec_command.simps)
  have log: "only_comm (produce_ref env c a False) (sv_log v) \<longrightarrow> only_comm (produce_ref env c a False) (sv_log v3)"
    using f(3) s(3) 1(7) unfolding v3_def v2_def by (auto simp: only_comm_def comm_of_one)
  show thesis
    by (rule that [OF run _ _ _ _ _ log]) (simp_all add: v3_def s 2 del: spec_command.simps)
qed

text \<open>
  A produce that fires a persistent continuation drops the join of the channel although the
  continuation stays. The next produce on the channel finds no join and is stored, while the
  continuation that matches it is still waiting.
\<close>

theorem persistent_consume_misses_produce:
  assumes "space_ok r rs" "quiet (store_view (rs_store rs)) c" "se_matcher env p a = Some a'"
  shows "\<exists>rs' fired.
    run_all (run_command env) [Consume [c] [p] k True [], Produce c a False, Produce c a False] rs =
      (rs', [Inr (Acted None), Inr (Acted (Some fired)), Inr (Acted None)]) \<and>
    map dt_a (data_at rs' c) = [a] \<and>
    map wc_patterns (snd (v_get_continuations [c] (store_view (rs_store rs')))) = [[p]]"
proof -
  let ?cmds = "[Consume [c] [p] k True [], Produce c a False, Produce c a False]"
  have "quiet (sv_tuples (view_of rs)) c" using assms(2) by (simp add: view_of_def)
  from misses_view [OF this assms(3), of k] obtain v' fired where
    "run_all (spec_command env) ?cmds (view_of rs) = (v', [Inr (Acted None), Inr (Acted (Some fired)), Inr (Acted None)])"
    "vw_data (sv_tuples v') c = [\<lparr>dt_a = a, dt_persist = False, dt_source = produce_ref env c a False\<rparr>]"
    "vw_continuations (sv_tuples v') [c] = [the_continuation [p] k True [] (consume_ref env [c] [p] k True)]"
    "vw_installed (sv_tuples v') [c] = None" .
  then show ?thesis
    using results_of_run [OF assms(1), of env ?cmds]
    by (intro exI [of _ "fst (run_all (run_command env) ?cmds rs)"] exI [of _ fired])
      (simp add: data_at_def v_get_continuations_def the_continuation_def del: run_all.simps)
qed

lemma run_all_append:
  "run_all run (cs @ ds) s = (let (s', rs) = run_all run cs s; (s'', rs') = run_all run ds s' in (s'', rs @ rs'))"
  by (induction cs arbitrary: s) (simp_all add: split_beta Let_def)

lemma lost_view:
  assumes q: "quiet (sv_tuples v) c" and m: "se_matcher env p a = Some a'"
    "se_matcher env p b = None" "se_matcher env p' a = None" "se_matcher env p' b = None"
  obtains v' fired cr where
    "run_all (spec_command env)
      [Consume [c] [p] k True [], Produce c a False, Produce c a False, Consume [c] [p'] k' False [], Produce c b False] v =
      (v', [Inr (Acted None), Inr (Acted (Some fired)), Inr (Acted None), Inr (Acted None),
        Inr (Acted (Some (cr, [\<lparr>mr_channel = c, mr_matched_datum = a', mr_removed_datum = a, mr_persistent = False\<rparr>])))])"
    "vw_data (sv_tuples v') c = []"
    "only_comm (produce_ref env c a False) (sv_log v) \<longrightarrow> only_comm (produce_ref env c a False) (sv_log v')"
proof -
  let ?cmds = "[Consume [c] [p] k True [], Produce c a False, Produce c a False]"
  from misses_view [OF q m(1), of k] obtain v3 fired where
    run3: "run_all (spec_command env) ?cmds v = (v3, [Inr (Acted None), Inr (Acted (Some fired)), Inr (Acted None)])"
    and 3: "vw_data (sv_tuples v3) c = [\<lparr>dt_a = a, dt_persist = False, dt_source = produce_ref env c a False\<rparr>]"
    "vw_continuations (sv_tuples v3) [c] = [the_continuation [p] k True [] (consume_ref env [c] [p] k True)]"
    "vw_installed (sv_tuples v3) [c] = None" "vw_joins (sv_tuples v3) c = []" "vw_installed_joins (sv_tuples v3) c = []"
    and log3: "only_comm (produce_ref env c a False) (sv_log v) \<longrightarrow> only_comm (produce_ref env c a False) (sv_log v3)" .
  define v4 where "v4 = fst (spec_command env (Consume [c] [p'] k' False []) v3)"
  define v5 where "v5 = fst (spec_command env (Produce c b False) v4)"
  let ?wk = "the_continuation [p] k True [] (consume_ref env [c] [p] k True)"
  let ?wk' = "the_continuation [p'] k' False [] (consume_ref env [c] [p'] k' False)"
  let ?cand = "\<lparr>cc_channel = c, cc_datum = \<lparr>dt_a = a', dt_persist = False, dt_source = produce_ref env c a False\<rparr>,
      cc_removed_datum = a, cc_datum_index = 0\<rparr>"
  let ?pc = "\<lparr>pc_channels = [c], pc_continuation = ?wk, pc_continuation_index = 1, pc_data_candidates = [?cand]\<rparr>"
  have "\<forall>d \<in> set (vw_data (sv_tuples v3) c). se_matcher env p' (dt_a d) = None" using 3 m(3) by simp
  note w = consume_command_waits [OF this]
  have 4: "vw_joins (sv_tuples v4) c = [[c]]" "vw_installed_joins (sv_tuples v4) c = []" "vw_installed (sv_tuples v4) [c] = None"
    "vw_data (sv_tuples v4) c = [\<lparr>dt_a = a, dt_persist = False, dt_source = produce_ref env c a False\<rparr>]"
    "vw_continuations (sv_tuples v4) [c] = [?wk', ?wk]"
    unfolding v4_def w by (simp_all add: v_wait_def 3)
  have "extract_first_match [c] (map (\<lambda>(i, wc). (wc, i)) (enumerate 0 (vw_continuations (sv_tuples v4) [c])))
      [(c, (\<lparr>dt_a = b, dt_persist = False, dt_source = produce_ref env c b False\<rparr>, - 1) #
        by_produce_hash (indexed_data (vw_data (sv_tuples v4) c)))] (se_matcher env) = Some ?pc"
    using m by (simp add: 4 one_channel)
  note f = produce_command_fires [OF 4(2,1,3) this]
  have 5: "vw_data (sv_tuples v5) c = []"
    unfolding v5_def f by (simp add: v_fire_def v_unjoin_def v_take_def 4 the_continuation_def nths_def)
  have "run_all (spec_command env) (?cmds @ [Consume [c] [p'] k' False [], Produce c b False]) v =
      (v5, [Inr (Acted None), Inr (Acted (Some fired)), Inr (Acted None), Inr (Acted None), Inr (Acted (wrap_result [c] ?wk [?cand]))])"
    unfolding run_all_append run3
    using w(1) [of k' False "[]"] f(1) by (simp add: split_beta Let_def v4_def [symmetric] v5_def [symmetric] del: spec_command.simps)
  moreover have "only_comm (produce_ref env c a False) (sv_log v) \<longrightarrow> only_comm (produce_ref env c a False) (sv_log v5)"
    using log3 f(3) w(3) [of k' False "[]"] unfolding v5_def v4_def by (auto simp: only_comm_def comm_of_one)
  ultimately show thesis
    using 5 by (intro that [of v5 fired "fst (the (wrap_result [c] ?wk [?cand]))"]) (simp_all add: wrap_result_def del: run_all.simps)
qed

text \<open>
  C37: the missed join can lose a datum. A later consume that does not match the stored datum brings the
  join back; the next produce on the channel then fires the persistent continuation with the stored
  datum, and the datum just produced, which nothing matched, is neither stored nor returned.
\<close>

theorem produce_lost:
  assumes "space_ok r rs" "quiet (store_view (rs_store rs)) c" "se_matcher env p a = Some a'"
    "se_matcher env p b = None" "se_matcher env p' a = None" "se_matcher env p' b = None"
  shows "\<exists>rs' fired cr.
    run_all (run_command env)
      [Consume [c] [p] k True [], Produce c a False, Produce c a False, Consume [c] [p'] k' False [], Produce c b False] rs =
      (rs', [Inr (Acted None), Inr (Acted (Some fired)), Inr (Acted None), Inr (Acted None),
        Inr (Acted (Some (cr, [\<lparr>mr_channel = c, mr_matched_datum = a', mr_removed_datum = a, mr_persistent = False\<rparr>])))]) \<and>
    data_at rs' c = []"
proof -
  let ?cmds = "[Consume [c] [p] k True [], Produce c a False, Produce c a False, Consume [c] [p'] k' False [], Produce c b False]"
  have "quiet (sv_tuples (view_of rs)) c" using assms(2) by (simp add: view_of_def)
  from lost_view [OF this assms(3-6), of k k'] obtain v' fired cr where
    "run_all (spec_command env) ?cmds (view_of rs) =
      (v', [Inr (Acted None), Inr (Acted (Some fired)), Inr (Acted None), Inr (Acted None),
        Inr (Acted (Some (cr, [\<lparr>mr_channel = c, mr_matched_datum = a', mr_removed_datum = a, mr_persistent = False\<rparr>])))])"
    "vw_data (sv_tuples v') c = []" .
  then show ?thesis
    using results_of_run [OF assms(1), of env ?cmds]
    by (intro exI [of _ "fst (run_all (run_command env) ?cmds rs)"] exI [of _ fired] exI [of _ cr])
      (simp add: data_at_def del: run_all.simps)
qed

subsection \<open>Witnesses\<close>

definition sample_env :: "(byte, byte, byte, byte) space_env" where
  "sample_env =
     \<lparr>se_digest = sample_digest, se_serializers = byte_serializers, se_matcher = (\<lambda>p a. if p = a then Some a else None)\<rparr>"

definition sample_space :: "(byte, byte, byte, byte) rspace" where
  "sample_space = rspace_new fresh_repository (hot_store_new (reader_at sample_digest byte_serializers fresh_repository))"

lemma sample_matcher [simp]: "se_matcher sample_env p a = (if p = a then Some a else None)"
  by (simp add: sample_env_def)

lemma sample_space_ok: "space_ok (current_reader sample_env sample_space) sample_space"
  using hot_store_new_ok [OF fresh_reader_ok] by (simp add: space_ok_def sample_space_def rspace_new_def sample_env_def)

lemma sample_tuples:
  "store_view (rs_store sample_space) =
     \<lparr>vw_continuations = (\<lambda>_. []), vw_installed = (\<lambda>_. None), vw_data = (\<lambda>_. []), vw_joins = (\<lambda>_. []), vw_installed_joins = (\<lambda>_. [])\<rparr>"
  using fetch_none [OF fresh_repository_ok fresh_leaf]
  by (simp add: sample_space_def rspace_new_def hot_store_new_def store_view_def view_over_def hot_store_state_default_def
      overlaid_def base_reader_def reader_get_data_def reader_get_continuations_def reader_get_joins_def fun_eq_iff bm_get_or_def)

lemma sample_quiet: "quiet (store_view (rs_store sample_space)) c"
  by (simp add: quiet_def sample_tuples)

lemma sample_view_tuples: "sv_tuples (view_of sample_space) = store_view (rs_store sample_space)"
  by (simp add: view_of_def)

text \<open>A space that holds a datum, and one in which a continuation waits for it.\<close>

definition stored_space :: "(byte, byte, byte, byte) rspace" where
  "stored_space = fst (run_all (run_command sample_env) [Produce 5 6 False] sample_space)"

definition waiting_space :: "(byte, byte, byte, byte) rspace" where
  "waiting_space = fst (run_all (run_command sample_env) [Consume [5] [6] 7 False []] sample_space)"

lemma stored_space_ok: "space_ok (current_reader sample_env sample_space) stored_space"
  and waiting_space_ok: "space_ok (current_reader sample_env sample_space) waiting_space"
  unfolding stored_space_def waiting_space_def by (rule space.runs_ok [OF sample_space_ok])+

lemma stored_space:
  "data_at stored_space = (\<lambda>_. [])(5 := [\<lparr>dt_a = 6, dt_persist = False, dt_source = produce_ref sample_env 5 6 False\<rparr>])"
  using results_of_run(2) [OF sample_space_ok, of sample_env "[Produce 5 6 False]"]
    produce_command_stores [of "view_of sample_space" 5 sample_env 6 False]
  by (simp add: stored_space_def data_at_def fun_eq_iff sample_tuples sample_view_tuples split_beta Let_def
      del: spec_command.simps run_command.simps)

lemma waiting_space:
  "store_view (rs_store waiting_space) =
     v_wait [5] (the_continuation [6] 7 False [] (consume_ref sample_env [5] [6] 7 False)) (store_view (rs_store sample_space))"
  using results_of_run(2) [OF sample_space_ok, of sample_env "[Consume [5] [6] 7 False []]"]
    consume_command_waits [of "view_of sample_space" 5 sample_env 6 7 False "[]"]
  by (simp add: waiting_space_def sample_tuples sample_view_tuples split_beta Let_def del: spec_command.simps run_command.simps)

lemma waiting_simps:
  "data_at waiting_space = (\<lambda>_. [])" "snd (v_get_joins 5 (store_view (rs_store waiting_space))) = [[5]]"
  "snd (v_get_continuations [5] (store_view (rs_store waiting_space))) =
     [the_continuation [6] 7 False [] (consume_ref sample_env [5] [6] 7 False)]"
  by (simp_all add: data_at_def fun_eq_iff waiting_space v_wait_def sample_tuples v_get_joins_def v_get_continuations_def)

theorem space_runs_refine_witness:
  "snd (run_all (run_command sample_env) [Produce 5 6 False] sample_space) = [Inr (Acted None)]"
  using space_runs_refine [OF sample_space_ok, of sample_env "[Produce 5 6 False]"]
    produce_command_stores [of "view_of sample_space" 5 sample_env 6 False]
  by (simp add: sample_tuples sample_view_tuples split_beta Let_def del: spec_command.simps run_command.simps)

theorem soft_checkpoint_restores_witness:
  "data_at (revert_to_soft_checkpoint sample_env (snd (create_soft_checkpoint sample_space))
     (fst (run_all (run_command sample_env) [Produce 5 6 False] (fst (create_soft_checkpoint sample_space))))) = (\<lambda>_. [])"
  using soft_checkpoint_restores [OF sample_space_ok prod.collapse [symmetric] refl, of "[Produce 5 6 False]"]
  by (simp add: data_at_def view_of_def sample_tuples fun_eq_iff)

theorem consume_fires_witness:
  "\<exists>rs' x. consume sample_env [5] [6] 7 False [] stored_space = (rs', Inr (Some x))"
  using consume_fires [OF stored_space_ok, of "[5]" "[6]" sample_env 7 False "[]"]
  by (auto simp: all_found_def stored_space)

theorem produce_fires_witness:
  "\<exists>rs' x. produce sample_env 5 6 False waiting_space = (rs', Inr (Some x))"
  using produce_fires [OF waiting_space_ok, of 5 sample_env 6 False]
  by (auto simp: all_found_def waiting_simps the_continuation_def)

lemma sample_consume:
  obtains rs' cr ms where "consume sample_env [5] [6] 7 False [] stored_space = (rs', Inr (Some (cr, ms)))"
proof -
  let ?f = "spec_consume (se_matcher sample_env) [5] [6] 7 False [] (consume_ref sample_env [5] [6] 7 False) (view_of stored_space)"
  have "snd ?f \<noteq> None"
    by (subst spec_consume_fires) (use stored_space in \<open>auto simp: all_found_def view_of_def data_at_def fun_eq_iff\<close>)
  moreover obtain rs' where "consume sample_env [5] [6] 7 False [] stored_space = (rs', Inr (snd ?f))"
    using implementsE [OF consume_implements [of "[5]" "[6]"] stored_space_ok, of sample_env 7 False "[]"]
    unfolding consume_ref_def by auto
  ultimately show thesis using that by (cases "snd ?f") auto
qed

lemma sample_produce:
  obtains rs' cr ms where "produce sample_env 5 6 False waiting_space = (rs', Inr (Some (cr, ms)))"
proof -
  let ?f = "spec_produce (se_matcher sample_env) 5 6 False (produce_ref sample_env 5 6 False) (view_of waiting_space)"
  have t: "sv_tuples (view_of waiting_space) = store_view (rs_store waiting_space)" by (simp add: view_of_def)
  have "snd ?f \<noteq> None"
    unfolding spec_produce_stored t waiting_simps
    by (subst spec_candidate_fires) (auto simp: waiting_simps all_found_def the_continuation_def)
  moreover obtain rs' where "produce sample_env 5 6 False waiting_space = (rs', Inr (snd ?f))"
    using implementsE [OF produce_implements waiting_space_ok, of sample_env 5 6 False] unfolding produce_ref_def by auto
  ultimately show thesis using that by (cases "snd ?f") auto
qed

theorem consume_sound_witness:
  "\<exists>rs' cr ms. consume sample_env [5] [6] 7 False [] stored_space = (rs', Inr (Some (cr, ms))) \<and> cr_continuation cr = 7 \<and>
     image_mset dt_a (mset (data_at rs' 5)) + mset (removed_at ms 5) = {#6#}"
proof -
  obtain rs' cr ms where "consume sample_env [5] [6] 7 False [] stored_space = (rs', Inr (Some (cr, ms)))" by (rule sample_consume)
  with consume_sound [OF stored_space_ok this] show ?thesis by (auto simp: stored_space dest: spec [of _ 5])
qed

theorem produce_sound_witness:
  "\<exists>rs' cr ms. produce sample_env 5 6 False waiting_space = (rs', Inr (Some (cr, ms))) \<and> cr_channels cr = [5] \<and>
     cr_continuation cr = 7"
proof -
  obtain rs' cr ms where "produce sample_env 5 6 False waiting_space = (rs', Inr (Some (cr, ms)))" by (rule sample_produce)
  with produce_sound [OF waiting_space_ok this] show ?thesis by (auto simp: waiting_simps the_continuation_def)
qed

theorem persistent_consume_misses_produce_witness:
  "\<exists>rs' fired.
    run_all (run_command sample_env) [Consume [5] [6] 7 True [], Produce 5 6 False, Produce 5 6 False] sample_space =
      (rs', [Inr (Acted None), Inr (Acted (Some fired)), Inr (Acted None)]) \<and>
    map dt_a (data_at rs' 5) = [6] \<and>
    map wc_patterns (snd (v_get_continuations [5] (store_view (rs_store rs')))) = [[6]]"
  by (rule persistent_consume_misses_produce [OF sample_space_ok sample_quiet, of _ 6 6 6]) simp

theorem produce_lost_witness:
  "\<exists>rs' fired cr.
    run_all (run_command sample_env)
      [Consume [5] [6] 7 True [], Produce 5 6 False, Produce 5 6 False, Consume [5] [8] 9 False [], Produce 5 10 False] sample_space =
      (rs', [Inr (Acted None), Inr (Acted (Some fired)), Inr (Acted None), Inr (Acted None),
        Inr (Acted (Some (cr, [\<lparr>mr_channel = 5, mr_matched_datum = 6, mr_removed_datum = 6, mr_persistent = False\<rparr>])))]) \<and>
    data_at rs' 5 = []"
  by (rule produce_lost [OF sample_space_ok sample_quiet]) simp_all

end
