(* ===== verification/Replay.thy ===== *)
theory Replay
  imports Space_Runs
begin

text \<open>
  The replay tuple space (\<^verbatim>\<open>rspace/src/replay_rspace.rs\<close>). A replay runs the commands of a recorded
  log again: a consume or a produce may only fire with a communication of the log that is bound to it,
  the recomputed communication must be in the log, and at the end none may be left.

  Bindings are keyed by the hash of the consume or produce. Each operation is shown to behave as a
  function on the view of the wrapped space and the bindings.
\<close>

section \<open>Recorded communications\<close>

record replay_data =
  rd_by_consume :: "(hash32, comm list) btmap"
  rd_by_produce :: "(hash32, comm list) btmap"

definition replay_data_default :: replay_data where
  "replay_data_default = \<lparr>rd_by_consume = [], rd_by_produce = []\<rparr>"

definition comms_for_consume :: "replay_data \<Rightarrow> Tuple_Types.consume \<Rightarrow> comm list option" where
  "comms_for_consume rd c = bm_get (rd_by_consume rd) (cs_hash c)"

definition comms_for_produce :: "replay_data \<Rightarrow> Tuple_Types.produce \<Rightarrow> comm list option" where
  "comms_for_produce rd p = bm_get (rd_by_produce rd) (pr_hash p)"

primrec remove_first :: "('x \<Rightarrow> bool) \<Rightarrow> 'x list \<Rightarrow> 'x list" where
  "remove_first q [] = []"
| "remove_first q (x # xs) = (if q x then xs else x # remove_first q xs)"

text \<open>The common body of the two removals: a key that is left without communications goes.\<close>

definition remove_binding :: "hash32 \<Rightarrow> comm \<Rightarrow> (hash32, comm list) btmap \<Rightarrow> (hash32, comm list) btmap" where
  "remove_binding key comm m =
     (case bm_get m key of
        None \<Rightarrow> m
      | Some comms \<Rightarrow>
          let comms' = remove_first (\<lambda>c. comm_eq c comm) comms
          in if comms' = [] then bm_remove key m else bm_insert key comms' m)"

definition remove_consume_binding :: "Tuple_Types.consume \<Rightarrow> comm \<Rightarrow> replay_data \<Rightarrow> replay_data" where
  "remove_consume_binding c comm rd = rd\<lparr>rd_by_consume := remove_binding (cs_hash c) comm (rd_by_consume rd)\<rparr>"

definition remove_produce_binding :: "Tuple_Types.produce \<Rightarrow> comm \<Rightarrow> replay_data \<Rightarrow> replay_data" where
  "remove_produce_binding p comm rd = rd\<lparr>rd_by_produce := remove_binding (pr_hash p) comm (rd_by_produce rd)\<rparr>"

definition replay_data_is_empty :: "replay_data \<Rightarrow> bool" where
  "replay_data_is_empty rd \<longleftrightarrow> rd_by_consume rd = [] \<and> rd_by_produce rd = []"

definition replay_data_len :: "replay_data \<Rightarrow> nat" where
  "replay_data_len rd =
     sum_list (map (\<lambda>(k, v). length v) (rd_by_consume rd)) + sum_list (map (\<lambda>(k, v). length v) (rd_by_produce rd))"

primrec logged_produces :: "event list \<Rightarrow> hash32 btset \<Rightarrow> hash32 btset" where
  "logged_produces [] s = s"
| "logged_produces (e # es) s = logged_produces es (case e of EProduce p \<Rightarrow> bs_insert (pr_hash p) s | _ \<Rightarrow> s)"

primrec logged_consumes :: "event list \<Rightarrow> hash32 btset \<Rightarrow> hash32 btset" where
  "logged_consumes [] s = s"
| "logged_consumes (e # es) s = logged_consumes es (case e of EConsume c \<Rightarrow> bs_insert (cs_hash c) s | _ \<Rightarrow> s)"

definition bind_comm :: "hash32 btset \<Rightarrow> hash32 btset \<Rightarrow> comm \<Rightarrow> replay_data \<Rightarrow> replay_data" where
  "bind_comm consumes produces comm rd =
     \<lparr>rd_by_consume =
        (if cs_hash (cm_consume comm) \<in> set consumes
         then bm_entry (cs_hash (cm_consume comm)) [] (\<lambda>v. v @ [comm]) (rd_by_consume rd) else rd_by_consume rd),
      rd_by_produce =
        fold (\<lambda>p m. if pr_hash p \<in> set produces then bm_entry (pr_hash p) [] (\<lambda>v. v @ [comm]) m else m)
          (cm_produces comm) (rd_by_produce rd)\<rparr>"

definition build_replay_data :: "event list \<Rightarrow> replay_data" where
  "build_replay_data log =
     (let produces = logged_produces log []; consumes = logged_consumes log []
      in fold (\<lambda>e rd. case e of EComm comm \<Rightarrow> bind_comm consumes produces comm rd | _ \<Rightarrow> rd) log replay_data_default)"

section \<open>The replay space\<close>

record ('c, 'p, 'a, 'k) replay_rspace =
  rr_space :: "('c, 'p, 'a, 'k) rspace"
  rr_data :: replay_data

type_synonym ('c, 'p, 'a, 'k, 'x) replay_op = "(('c, 'p, 'a, 'k) replay_rspace, failure, 'x) op"

definition replay_rspace_new :: "('c, 'p, 'a, 'k) rspace \<Rightarrow> ('c, 'p, 'a, 'k) replay_rspace" where
  "replay_rspace_new rs = \<lparr>rr_space = rs, rr_data = replay_data_default\<rparr>"

definition on_space :: "('c, 'p, 'a, 'k, 'x) space_op \<Rightarrow> ('c, 'p, 'a, 'k, 'x) replay_op" where
  "on_space f rr = (let (rs, r) = f (rr_space rr) in (rr\<lparr>rr_space := rs\<rparr>, r))"

definition matches :: "(hash32, nat) btmap \<Rightarrow> comm \<Rightarrow> 'a datum \<Rightarrow> bool" where
  "matches counter comm d =
     (if \<not> (\<exists>p \<in> set (cm_produces comm). produce_eq p (dt_source d)) then False
      else if dt_persist d then True
      else produce_counter_value counter (dt_source d) = bm_get_or 0 (cm_times_repeated comm) (pr_hash (dt_source d)))"

definition keep_matching :: "(hash32, nat) btmap \<Rightarrow> comm \<Rightarrow> 'a indexed \<Rightarrow> 'a indexed" where
  "keep_matching counter comm ds = filter (\<lambda>(d, i). matches counter comm d) ds"

definition run_matcher_consume ::
  "('p \<Rightarrow> 'a \<Rightarrow> 'a option) \<Rightarrow> 'c::linorder list \<Rightarrow> 'p list \<Rightarrow> comm \<Rightarrow>
   ('c, 'p, 'a, 'k, ('c, 'a) consume_candidate list option) space_op" where
  "run_matcher_consume m channels patterns comm rs =
     and_then (fetch_loop (\<lambda>_ ds. keep_matching (rs_produce_counter rs) comm (indexed_data ds)) channels []) (\<lambda>mp.
       ret (those (extract_data_candidates (zip channels patterns) mp m))) rs"

primrec get_comm_and_consume_candidates ::
  "('p \<Rightarrow> 'a \<Rightarrow> 'a option) \<Rightarrow> 'c::linorder list \<Rightarrow> 'p list \<Rightarrow> comm list \<Rightarrow>
   ('c, 'p, 'a, 'k, (comm \<times> ('c, 'a) consume_candidate list) option) space_op" where
  "get_comm_and_consume_candidates m channels patterns [] = ret None"
| "get_comm_and_consume_candidates m channels patterns (comm # comms) =
     and_then (run_matcher_consume m channels patterns comm) (\<lambda>r.
       case r of
         Some candidates \<Rightarrow> ret (Some (comm, candidates))
       | None \<Rightarrow> get_comm_and_consume_candidates m channels patterns comms)"

definition with_in_flight_unsorted :: "'c \<Rightarrow> 'a datum \<Rightarrow> 'c \<Rightarrow> 'a datum list \<Rightarrow> 'a indexed" where
  "with_in_flight_unsorted channel d c ds = (if c = channel then [(d, - 1)] else []) @ indexed_data ds"

definition candidates_of :: "comm \<Rightarrow> ('p, 'k) waiting_continuation list \<Rightarrow> (('p, 'k) waiting_continuation \<times> nat) list" where
  "candidates_of comm conts =
     map (\<lambda>(i, wc). (wc, i)) (filter (\<lambda>(i, wc). consume_eq (cm_consume comm) (wc_source wc)) (enumerate 0 conts))"

primrec run_matcher_produce ::
  "('p \<Rightarrow> 'a \<Rightarrow> 'a option) \<Rightarrow> 'c::linorder \<Rightarrow> 'a datum \<Rightarrow> comm \<Rightarrow> 'c list list \<Rightarrow>
   ('c, 'p, 'a, 'k, ('c, 'p, 'a, 'k) produce_candidate option) space_op" where
  "run_matcher_produce m channel d comm [] = ret None"
| "run_matcher_produce m channel d comm (channels # rest) =
     and_then (on_store (get_continuations channels)) (\<lambda>conts rs.
     and_then (fetch_loop (\<lambda>c ds. keep_matching (rs_produce_counter rs) comm (with_in_flight_unsorted channel d c ds)) channels []) (\<lambda>mp.
       case extract_first_match channels (candidates_of comm conts) mp m of
         Some pc \<Rightarrow> ret (Some pc)
       | None \<Rightarrow> run_matcher_produce m channel d comm rest) rs)"

primrec get_comm_or_produce_candidate ::
  "('p \<Rightarrow> 'a \<Rightarrow> 'a option) \<Rightarrow> 'c::linorder \<Rightarrow> 'a datum \<Rightarrow> comm list \<Rightarrow> 'c list list \<Rightarrow>
   ('c, 'p, 'a, 'k, (comm \<times> ('c, 'p, 'a, 'k) produce_candidate) option) space_op" where
  "get_comm_or_produce_candidate m channel d [] grouped_channels = ret None"
| "get_comm_or_produce_candidate m channel d (comm # comms) grouped_channels =
     and_then (run_matcher_produce m channel d comm grouped_channels) (\<lambda>r.
       case r of
         Some pc \<Rightarrow> ret (Some (comm, pc))
       | None \<Rightarrow> get_comm_or_produce_candidate m channel d comms grouped_channels)"

definition unbind :: "comm \<Rightarrow> replay_data \<Rightarrow> replay_data" where
  "unbind comm rd = fold (\<lambda>p. remove_produce_binding p comm) (cm_produces comm) (remove_consume_binding (cm_consume comm) comm rd)"

definition remove_bindings_for :: "comm \<Rightarrow> ('c, 'p, 'a, 'k, unit) replay_op" where
  "remove_bindings_for comm rr = (rr\<lparr>rr_data := unbind comm (rr_data rr)\<rparr>, Inr ())"

definition comm_of_replay ::
  "('c, 'a) consume_candidate list \<Rightarrow> Tuple_Types.consume \<Rightarrow> nat btset \<Rightarrow> ('c, 'p, 'a, 'k, comm) replay_op" where
  "comm_of_replay cs ref peeks rr = (rr, Inr (comm_of cs ref peeks (rr_space rr)))"

definition replay_locked_consume ::
  "('p \<Rightarrow> 'a \<Rightarrow> 'a option) \<Rightarrow> 'c::linorder list \<Rightarrow> 'p list \<Rightarrow> 'k \<Rightarrow> bool \<Rightarrow> nat btset \<Rightarrow> Tuple_Types.consume \<Rightarrow>
   ('c, 'p, 'a, 'k, ('c, 'p, 'a, 'k) action_result) replay_op" where
  "replay_locked_consume m channels patterns continuation persist peeks ref rr =
     (let wk = \<lparr>wc_patterns = patterns, wc_continuation = continuation, wc_persist = persist, wc_peeks = peeks,
                wc_source = ref\<rparr>
      in case comms_for_consume (rr_data rr) ref of
           None \<Rightarrow> on_space (store_waiting_continuation channels wk) rr
         | Some comms \<Rightarrow>
             and_then (on_space (get_comm_and_consume_candidates m channels patterns comms)) (\<lambda>r.
               case r of
                 None \<Rightarrow> on_space (store_waiting_continuation channels wk)
               | Some (_, data_candidates) \<Rightarrow>
                   and_then (comm_of_replay data_candidates ref peeks) (\<lambda>comm_ref.
                     if \<not> (\<exists>c \<in> set comms. comm_eq c comm_ref) then throw (Failed ReplayCommNotInTrace)
                     else
                       and_then (on_space (store_persistent_data data_candidates)) (\<lambda>_.
                       and_then (remove_bindings_for comm_ref) (\<lambda>_.
                         ret (wrap_result channels wk data_candidates))))) rr)"

definition handle_match ::
  "('c::linorder, 'p, 'a, 'k) produce_candidate \<Rightarrow> comm list \<Rightarrow> ('c, 'p, 'a, 'k, ('c, 'p, 'a, 'k) action_result) replay_op" where
  "handle_match pc comms =
     (let wk = pc_continuation pc in
      and_then (comm_of_replay (pc_data_candidates pc) (wc_source wk) (wc_peeks wk)) (\<lambda>comm_ref.
        if \<not> (\<exists>c \<in> set comms. comm_eq c comm_ref) then throw (Failed ReplayCommNotInTrace)
        else
          and_then
            (on_space (if \<not> wc_persist wk then on_store (remove_continuation (pc_channels pc) (pc_continuation_index pc)) else ret ()))
            (\<lambda>_.
          and_then (on_space (remove_matched_datum_and_join (pc_channels pc) (pc_data_candidates pc))) (\<lambda>_.
          and_then (remove_bindings_for comm_ref) (\<lambda>_.
            ret (wrap_result (pc_channels pc) wk (pc_data_candidates pc)))))))"

definition replay_locked_produce ::
  "('p \<Rightarrow> 'a \<Rightarrow> 'a option) \<Rightarrow> 'c::linorder \<Rightarrow> 'a \<Rightarrow> bool \<Rightarrow> Tuple_Types.produce \<Rightarrow>
   ('c, 'p, 'a, 'k, ('c, 'p, 'a, 'k) action_result) replay_op" where
  "replay_locked_produce m channel a persist ref =
     and_then (on_space (on_store (get_joins channel))) (\<lambda>grouped_channels.
     and_then (on_space (if \<not> persist then increment_produce_counter ref else ret ())) (\<lambda>_ rr.
       case comms_for_produce (rr_data rr) ref of
         None \<Rightarrow> on_space (store_data channel a persist ref) rr
       | Some comms \<Rightarrow>
           and_then
             (on_space (get_comm_or_produce_candidate m channel
                \<lparr>dt_a = a, dt_persist = persist, dt_source = ref\<rparr> comms grouped_channels))
             (\<lambda>r. case r of
                    None \<Rightarrow> on_space (store_data channel a persist ref)
                  | Some (_, pc) \<Rightarrow> handle_match pc comms) rr))"

definition replay_consume ::
  "('c::linorder, 'p, 'a, 'k) space_env \<Rightarrow> 'c list \<Rightarrow> 'p list \<Rightarrow> 'k \<Rightarrow> bool \<Rightarrow> nat btset \<Rightarrow>
   ('c, 'p, 'a, 'k, ('c, 'p, 'a, 'k) action_result) replay_op" where
  "replay_consume env channels patterns continuation persist peeks =
     (if channels = [] \<or> length channels \<noteq> length patterns then throw Panicked
      else
        replay_locked_consume (se_matcher env) channels patterns continuation persist peeks
          (consume_ref env channels patterns continuation persist))"

definition replay_produce ::
  "('c::linorder, 'p, 'a, 'k) space_env \<Rightarrow> 'c \<Rightarrow> 'a \<Rightarrow> bool \<Rightarrow> ('c, 'p, 'a, 'k, ('c, 'p, 'a, 'k) action_result) replay_op" where
  "replay_produce env channel a persist =
     and_then (on_space (on_store (get_joins channel))) (\<lambda>_.
       replay_locked_produce (se_matcher env) channel a persist (produce_ref env channel a persist))"

definition replay_install ::
  "('c::linorder, 'p, 'a, 'k) space_env \<Rightarrow> 'c list \<Rightarrow> 'p list \<Rightarrow> 'k \<Rightarrow> ('c, 'p, 'a, 'k, ('k \<times> 'a list) option) replay_op" where
  "replay_install env channels patterns continuation = on_space (install env channels patterns continuation)"

definition rig :: "event list \<Rightarrow> ('c, 'p, 'a, 'k) replay_rspace \<Rightarrow> ('c, 'p, 'a, 'k) replay_rspace" where
  "rig log rr = rr\<lparr>rr_data := build_replay_data log\<rparr>"

definition replay_reset ::
  "('c::linorder, 'p, 'a, 'k) space_env \<Rightarrow> hash32 \<Rightarrow> ('c, 'p, 'a, 'k) replay_rspace \<Rightarrow>
   ('c, 'p, 'a, 'k) replay_rspace \<times> (repository_failure + unit)" where
  "replay_reset env root rr = (let (rs, r) = reset env root (rr_space rr) in (rr\<lparr>rr_space := rs\<rparr>, r))"

definition rig_and_reset ::
  "('c::linorder, 'p, 'a, 'k) space_env \<Rightarrow> hash32 \<Rightarrow> event list \<Rightarrow> ('c, 'p, 'a, 'k) replay_rspace \<Rightarrow>
   ('c, 'p, 'a, 'k) replay_rspace \<times> (repository_failure + unit)" where
  "rig_and_reset env start_root log rr = replay_reset env start_root (rig log rr)"

text \<open>\<^verbatim>\<open>check_replay_data\<close> fails with the number of bindings that are left.\<close>

definition check_replay_data :: "('c, 'p, 'a, 'k) replay_rspace \<Rightarrow> nat + unit" where
  "check_replay_data rr =
     (if replay_data_is_empty (rr_data rr) then Inr () else Inl (replay_data_len (rr_data rr)))"

datatype replay_failure = UnusedComms nat | SpaceFailure repository_failure

definition replay_create_checkpoint ::
  "('c::linorder, 'p, 'a, 'k) space_env \<Rightarrow> ('c, 'p, 'a, 'k) replay_rspace \<Rightarrow>
   ('c, 'p, 'a, 'k) replay_rspace \<times> (replay_failure + hard_checkpoint)" where
  "replay_create_checkpoint env rr =
     (case check_replay_data rr of
        Inl n \<Rightarrow> (rr, Inl (UnusedComms n))
      | Inr _ \<Rightarrow>
          let (rs, r) = create_checkpoint env (rr_space rr)
          in (rr\<lparr>rr_space := rs\<rparr>, map_sum SpaceFailure id r))"

section \<open>What each operation does to the view\<close>

definition replay_view :: "('c, 'p, 'a, 'k) replay_rspace \<Rightarrow> ('c, 'p, 'a, 'k) space_view \<times> replay_data" where
  "replay_view rr = (view_of (rr_space rr), rr_data rr)"

definition replay_ok :: "('c::linorder, 'p, 'a, 'k) history_reader_base \<Rightarrow> ('c, 'p, 'a, 'k) replay_rspace \<Rightarrow> bool" where
  "replay_ok r rr \<longleftrightarrow> space_ok r (rr_space rr)"

abbreviation replay_implements where
  "replay_implements r \<equiv> implements (replay_ok r) replay_view"

abbreviation replay_refines where
  "replay_refines r \<equiv> refines (replay_ok r) replay_view"

definition on_view :: "('v \<Rightarrow> 'v \<times> 'x) \<Rightarrow> 'v \<times> 'd \<Rightarrow> ('v \<times> 'd) \<times> 'x" where
  "on_view g w = ((fst (g (fst w)), snd w), snd (g (fst w)))"

lemma on_view_simp [simp]: "on_view g (v, d) = ((fst (g v), d), snd (g v))"
  by (simp add: on_view_def)

lemma on_space_implements:
  assumes "space_implements r f g"
  shows "replay_implements r (on_space f) (on_view g)"
  unfolding implements_def
proof (intro allI impI)
  fix rr assume "replay_ok r rr"
  then obtain rs where "f (rr_space rr) = (rs, Inr (snd (g (view_of (rr_space rr)))))" "space_ok r rs"
    "view_of rs = fst (g (view_of (rr_space rr)))"
    using implementsE [OF assms] by (metis replay_ok_def)
  then show "\<exists>rr'. on_space f rr = (rr', Inr (snd (on_view g (replay_view rr)))) \<and> replay_ok r rr' \<and>
      replay_view rr' = fst (on_view g (replay_view rr))"
    by (simp add: on_space_def replay_view_def replay_ok_def)
qed

lemma on_space_refines:
  assumes "refines (space_ok r) view_of f g"
  shows "replay_refines r (on_space f) (on_view g)"
  using assms by (auto simp: refines_def on_space_def replay_ok_def replay_view_def split_beta Let_def)

text \<open>An operation that reads the state before it runs.\<close>

lemma implements_reading:
  assumes "\<And>s0. implements ok vw (m s0) (f (vw s0))" "\<And>v. h v = f v v"
  shows "implements ok vw (\<lambda>s. m s s) h"
  using assms by (fastforce simp: implements_def)

lemma refines_reading:
  assumes "\<And>s0. refines ok vw (m s0) (f (vw s0))" "\<And>v. h v = f v v"
  shows "refines ok vw (\<lambda>s. m s s) h"
  using assms by (fastforce simp: refines_def)

lemma refines_bind_result:
  assumes m: "implements ok vw m f" and k: "\<And>v. refines ok vw (k (snd (f v))) (g (snd (f v)))"
    and h: "\<And>v. h v = g (snd (f v)) (fst (f v))"
  shows "refines ok vw (and_then m k) h"
  unfolding refines_def
proof (intro allI impI)
  fix s assume "ok s"
  then obtain s' where "m s = (s', Inr (snd (f (vw s))))" "ok s'" "vw s' = fst (f (vw s))" using implementsE [OF m] by metis
  then show "ok (fst (and_then m k s)) \<and> vw (fst (and_then m k s)) = fst (h (vw s)) \<and> snd (and_then m k s) = snd (h (vw s))"
    using k [of "vw s"] by (simp add: refines_def h)
qed

primrec first_some :: "('x \<Rightarrow> 'y option) \<Rightarrow> 'x list \<Rightarrow> 'y option" where
  "first_some f [] = None"
| "first_some f (x # xs) = (case f x of Some y \<Rightarrow> Some y | None \<Rightarrow> first_some f xs)"

subsection \<open>Searching with the recorded communications\<close>

definition v_matched_consume ::
  "('p \<Rightarrow> 'a \<Rightarrow> 'a option) \<Rightarrow> 'c::linorder list \<Rightarrow> 'p list \<Rightarrow> ('c, 'p, 'a, 'k) space_view \<Rightarrow> comm \<Rightarrow>
   ('c, 'a) consume_candidate list option" where
  "v_matched_consume m channels patterns v comm =
     those (extract_data_candidates (zip channels patterns)
       (v_fetch (\<lambda>_ ds. keep_matching (sv_counter v) comm (indexed_data ds)) channels (sv_tuples v)) m)"

definition v_matched_join ::
  "('p \<Rightarrow> 'a \<Rightarrow> 'a option) \<Rightarrow> 'c::linorder \<Rightarrow> 'a datum \<Rightarrow> comm \<Rightarrow> ('c, 'p, 'a, 'k) space_view \<Rightarrow> 'c list \<Rightarrow>
   ('c, 'p, 'a, 'k) produce_candidate option" where
  "v_matched_join m c d comm v channels =
     extract_first_match channels (candidates_of comm (snd (v_get_continuations channels (sv_tuples v))))
       (v_fetch (\<lambda>ch ds. keep_matching (sv_counter v) comm (with_in_flight_unsorted c d ch ds)) channels (sv_tuples v)) m"

lemma run_matcher_consume_implements:
  "space_implements r (run_matcher_consume m channels patterns comm) (\<lambda>v. (v, v_matched_consume m channels patterns v comm))"
proof -
  have "space_implements r
      (\<lambda>rs. and_then (fetch_loop (\<lambda>_ ds. keep_matching (rs_produce_counter rs) comm (indexed_data ds)) channels []) (\<lambda>mp.
         ret (those (extract_data_candidates (zip channels patterns) mp m))) rs)
      (\<lambda>v. (v, v_matched_consume m channels patterns v comm))"
    by (rule implements_reading [where f = "\<lambda>v0 v. (v, those (extract_data_candidates (zip channels patterns)
          (v_fetch (\<lambda>_ ds. keep_matching (sv_counter v0) comm (indexed_data ds)) channels (sv_tuples v)) m))"],
        rule implements_bind [OF fetch_implements implements_ret])
      (simp_all add: v_matched_consume_def view_of_def)
  then show ?thesis unfolding run_matcher_consume_def [abs_def] .
qed

lemma get_comm_and_consume_candidates_implements:
  "space_implements r (get_comm_and_consume_candidates m channels patterns comms)
     (\<lambda>v. (v, first_some (\<lambda>comm. map_option (Pair comm) (v_matched_consume m channels patterns v comm)) comms))"
proof (induction comms)
  case Nil
  show ?case unfolding get_comm_and_consume_candidates.simps(1) first_some.simps(1) by (rule implements_ret)
next
  case (Cons comm comms)
  let ?g = "\<lambda>r v. (v, case r of Some cs \<Rightarrow> Some (comm, cs)
      | None \<Rightarrow> first_some (\<lambda>comm. map_option (Pair comm) (v_matched_consume m channels patterns v comm)) comms)"
  have "space_implements r (case x of Some cs \<Rightarrow> ret (Some (comm, cs)) | None \<Rightarrow> get_comm_and_consume_candidates m channels patterns comms) (?g x)" for x
    by (cases x; simp only: option.case; rule Cons.IH implements_ret)
  then show ?case
    unfolding get_comm_and_consume_candidates.simps
    by (rule implements_bind [where g = ?g, OF run_matcher_consume_implements]) (simp split: option.split)
qed

lemma run_matcher_produce_implements:
  "space_implements r (run_matcher_produce m c d comm joins) (\<lambda>v. (v, first_some (v_matched_join m c d comm v) joins))"
proof (induction joins)
  case Nil
  show ?case unfolding run_matcher_produce.simps(1) first_some.simps(1) by (rule implements_ret)
next
  case (Cons channels joins)
  let ?mp = "\<lambda>v0 v. v_fetch (\<lambda>ch ds. keep_matching (sv_counter v0) comm (with_in_flight_unsorted c d ch ds)) channels (sv_tuples v)"
  let ?g = "\<lambda>conts mp v. (v, case extract_first_match channels (candidates_of comm conts) mp m of
      Some pc \<Rightarrow> Some pc | None \<Rightarrow> first_some (v_matched_join m c d comm v) joins)"
  have last: "space_implements r (case extract_first_match channels (candidates_of comm conts) mp m of
      Some pc \<Rightarrow> ret (Some pc) | None \<Rightarrow> run_matcher_produce m c d comm joins) (?g conts mp)" for conts mp
    by (cases "extract_first_match channels (candidates_of comm conts) mp m"; simp only: option.case; rule Cons.IH implements_ret)
  have fetched: "space_implements r (\<lambda>rs. and_then
      (fetch_loop (\<lambda>ch ds. keep_matching (rs_produce_counter rs) comm (with_in_flight_unsorted c d ch ds)) channels []) (\<lambda>mp.
        case extract_first_match channels (candidates_of comm conts) mp m of
          Some pc \<Rightarrow> ret (Some pc) | None \<Rightarrow> run_matcher_produce m c d comm joins) rs)
      (\<lambda>v. ?g conts (?mp v v) v)" for conts
    by (rule implements_reading [where f = "\<lambda>v0 v. ?g conts (?mp v0 v) v"],
        rule implements_bind [where g = "?g conts", OF fetch_implements last])
      (simp_all only: fst_conv snd_conv view_of_def space_view.select_convs)
  show ?case
    unfolding run_matcher_produce.simps
    by (rule implements_bind [where g = "\<lambda>conts v. ?g conts (?mp v v) v", OF on_store_implements [OF get_continuations_view] fetched])
      (simp add: on_tuples_def v_get_continuations_def v_matched_join_def [abs_def] cong: option.case_cong)
qed

lemma get_comm_or_produce_candidate_implements:
  "space_implements r (get_comm_or_produce_candidate m c d comms joins)
     (\<lambda>v. (v, first_some (\<lambda>comm. map_option (Pair comm) (first_some (v_matched_join m c d comm v) joins)) comms))"
proof (induction comms)
  case Nil
  show ?case unfolding get_comm_or_produce_candidate.simps(1) first_some.simps(1) by (rule implements_ret)
next
  case (Cons comm comms)
  let ?g = "\<lambda>r v. (v, case r of Some pc \<Rightarrow> Some (comm, pc)
      | None \<Rightarrow> first_some (\<lambda>comm. map_option (Pair comm) (first_some (v_matched_join m c d comm v) joins)) comms)"
  have "space_implements r (case x of Some pc \<Rightarrow> ret (Some (comm, pc)) | None \<Rightarrow> get_comm_or_produce_candidate m c d comms joins) (?g x)" for x
    by (cases x; simp only: option.case; rule Cons.IH implements_ret)
  then show ?case
    unfolding get_comm_or_produce_candidate.simps
    by (rule implements_bind [where g = ?g, OF run_matcher_produce_implements]) (simp split: option.split)
qed

subsection \<open>Replayed consumes and produces\<close>

definition in_trace :: "comm list \<Rightarrow> comm \<Rightarrow> bool" where
  "in_trace comms comm \<longleftrightarrow> (\<exists>c \<in> set comms. comm_eq c comm)"

definition spec_replay_consume ::
  "('p \<Rightarrow> 'a \<Rightarrow> 'a option) \<Rightarrow> 'c::linorder list \<Rightarrow> 'p list \<Rightarrow> 'k \<Rightarrow> bool \<Rightarrow> nat btset \<Rightarrow> Tuple_Types.consume \<Rightarrow>
   ('c, 'p, 'a, 'k) space_view \<times> replay_data \<Rightarrow>
   (('c, 'p, 'a, 'k) space_view \<times> replay_data) \<times> (failure + ('c, 'p, 'a, 'k) action_result)" where
  "spec_replay_consume m channels patterns k persist peeks ref w =
     (let (v, rd) = w; wk = the_continuation patterns k persist peeks ref;
          wait = ((v\<lparr>sv_tuples := v_wait channels wk (sv_tuples v)\<rparr>, rd), Inr None)
      in case comms_for_consume rd ref of
           None \<Rightarrow> wait
         | Some comms \<Rightarrow>
             (case first_some (\<lambda>comm. map_option (Pair comm) (v_matched_consume m channels patterns v comm)) comms of
                None \<Rightarrow> wait
              | Some (_, cs) \<Rightarrow>
                  if in_trace comms (v_comm cs ref peeks v)
                  then ((v\<lparr>sv_tuples := v_take cs (sv_tuples v)\<rparr>, unbind (v_comm cs ref peeks v) rd),
                        Inr (wrap_result channels wk cs))
                  else (w, Inl (Failed ReplayCommNotInTrace))))"

definition spec_replay_produce ::
  "('p \<Rightarrow> 'a \<Rightarrow> 'a option) \<Rightarrow> 'c::linorder \<Rightarrow> 'a \<Rightarrow> bool \<Rightarrow> Tuple_Types.produce \<Rightarrow>
   ('c, 'p, 'a, 'k) space_view \<times> replay_data \<Rightarrow>
   (('c, 'p, 'a, 'k) space_view \<times> replay_data) \<times> (failure + ('c, 'p, 'a, 'k) action_result)" where
  "spec_replay_produce m c a persist ref w =
     (let d = \<lparr>dt_a = a, dt_persist = persist, dt_source = ref\<rparr>; joins = snd (v_get_joins c (sv_tuples (fst w)));
          v = (if persist then id else v_count ref) (fst w); rd = snd w;
          store = ((v\<lparr>sv_tuples := fst (v_put_datum c d (sv_tuples v))\<rparr>, rd), Inr None)
      in case comms_for_produce rd ref of
           None \<Rightarrow> store
         | Some comms \<Rightarrow>
             (case first_some (\<lambda>comm. map_option (Pair comm) (first_some (v_matched_join m c d comm v) joins)) comms of
                None \<Rightarrow> store
              | Some (_, pc) \<Rightarrow>
                  let wk = pc_continuation pc; comm = v_comm (pc_data_candidates pc) (wc_source wk) (wc_peeks wk) v in
                  if in_trace comms comm
                  then ((v\<lparr>sv_tuples := v_fire pc (sv_tuples v)\<rparr>, unbind comm rd),
                        Inr (wrap_result (pc_channels pc) wk (pc_data_candidates pc)))
                  else ((v, rd), Inl (Failed ReplayCommNotInTrace))))"

lemma keep_matching_indices: "distinct (map snd ds) \<Longrightarrow> distinct (map snd (keep_matching n comm ds))"
  unfolding keep_matching_def by (rule distinct_map_filter)

lemma distinct_indexed_data: "distinct (map snd (indexed_data ds))"
  unfolding snd_indexed_data by (simp add: distinct_map)

lemma keep_consume_indices_ok:
  "indices_ok (v_fetch (\<lambda>_ ds. keep_matching n comm (indexed_data ds)) channels t)"
  by (simp add: indices_ok_def bm_get_v_fetch keep_matching_indices distinct_indexed_data)

lemma keep_produce_indices_ok:
  "indices_ok (v_fetch (\<lambda>ch ds. keep_matching n comm (with_in_flight_unsorted c d ch ds)) channels t)"
proof -
  have "distinct (map snd (with_in_flight_unsorted c d ch ds))" for ch ds
  proof -
    have "- 1 \<notin> set (map snd (indexed_data ds))" unfolding snd_indexed_data by auto
    then show ?thesis using distinct_indexed_data [of ds] by (simp add: with_in_flight_unsorted_def)
  qed
  then show ?thesis by (simp add: indices_ok_def bm_get_v_fetch keep_matching_indices)
qed

lemma first_some_Some: "first_some f xs = Some y \<Longrightarrow> \<exists>x \<in> set xs. f x = Some y"
  by (induction xs) (auto split: option.splits)

lemma matched_consume_distinct:
  "v_matched_consume m channels patterns v comm = Some cs \<Longrightarrow> distinct (taken cs c)"
  unfolding v_matched_consume_def by (rule matched_distinct [OF _ keep_consume_indices_ok])

lemma matched_join_distinct:
  assumes "v_matched_join m c d comm v channels = Some pc"
  shows "distinct (taken (pc_data_candidates pc) ch)"
  using first_match_Some [OF assms [unfolded v_matched_join_def extract_first_match_def]]
    extract_taken [OF _ keep_produce_indices_ok, of "zip channels (wc_patterns (pc_continuation pc))"] by blast

lemma comm_of_replay_implements:
  "replay_implements r (comm_of_replay cs ref peeks) (\<lambda>w. (w, v_comm cs ref peeks (fst w)))"
  by (simp add: implements_def comm_of_replay_def replay_view_def comm_of_def v_comm_def view_of_def)

lemma remove_bindings_implements:
  "replay_implements r (remove_bindings_for comm) (\<lambda>w. ((fst w, unbind comm (snd w)), ()))"
  by (simp add: implements_def remove_bindings_for_def replay_view_def replay_ok_def)

lemma replay_locked_consume_refines:
  fixes r :: "('c::linorder, 'p, 'a, 'k) history_reader_base"
  shows "replay_refines r (replay_locked_consume m channels patterns k persist peeks ref)
     (spec_replay_consume m channels patterns k persist peeks ref)"
proof -
  let ?wk = "the_continuation patterns k persist peeks ref"
  let ?wait = "\<lambda>w. ((fst w\<lparr>sv_tuples := v_wait channels ?wk (sv_tuples (fst w))\<rparr>, snd w), None)"
  let ?taken = "\<lambda>cs w. ((fst w\<lparr>sv_tuples := v_take cs (sv_tuples (fst w))\<rparr>, unbind (v_comm cs ref peeks (fst w)) (snd w)),
      wrap_result channels ?wk cs)"
  let ?fire = "\<lambda>comms cs w. if in_trace comms (v_comm cs ref peeks (fst w)) then succeeds (?taken cs) w
      else (w, Inl (Failed ReplayCommNotInTrace))"
  have wait: "replay_refines r (on_space (store_waiting_continuation channels ?wk)) (succeeds ?wait)"
    by (rule refines_succeeds [OF implements_cong [OF on_space_implements [OF store_waiting_continuation_implements]]])
      (simp add: on_view_def)
  have take: "replay_implements r (and_then (on_space (store_persistent_data cs)) (\<lambda>_.
      and_then (remove_bindings_for comm) (\<lambda>_. ret (wrap_result channels ?wk cs))))
      (\<lambda>w. ((fst w\<lparr>sv_tuples := v_take cs (sv_tuples (fst w))\<rparr>, unbind comm (snd w)), wrap_result channels ?wk cs))"
    if "\<And>c. distinct (taken cs c)" for cs comm
    by (rule implements_bind [OF on_space_implements [OF store_persistent_data_implements [OF that]]
          implements_bind [OF remove_bindings_implements implements_ret refl]]) (simp add: on_view_def)
  have fire: "replay_refines r (and_then (comm_of_replay cs ref peeks) (\<lambda>comm.
      if \<not> (\<exists>c \<in> set comms. comm_eq c comm) then throw (Failed ReplayCommNotInTrace)
      else and_then (on_space (store_persistent_data cs)) (\<lambda>_.
           and_then (remove_bindings_for comm) (\<lambda>_. ret (wrap_result channels ?wk cs))))) (?fire comms cs)"
    if "\<And>c. distinct (taken cs c)" for cs comms
    by (rule refines_bind [OF comm_of_replay_implements refines_if [OF refines_throw refines_succeeds [OF take [OF that]]]])
      (simp add: in_trace_def succeeds_def)
  let ?found = "\<lambda>comms w. first_some (\<lambda>comm. map_option (Pair comm) (v_matched_consume m channels patterns (fst w) comm)) comms"
  let ?k = "\<lambda>comms x. case x of None \<Rightarrow> on_space (store_waiting_continuation channels ?wk)
      | Some (_, cs) \<Rightarrow> and_then (comm_of_replay cs ref peeks) (\<lambda>comm.
          if \<not> (\<exists>c \<in> set comms. comm_eq c comm) then throw (Failed ReplayCommNotInTrace)
          else and_then (on_space (store_persistent_data cs)) (\<lambda>_.
               and_then (remove_bindings_for comm) (\<lambda>_. ret (wrap_result channels ?wk cs))))"
  let ?g = "\<lambda>comms x w. case x of None \<Rightarrow> succeeds ?wait w | Some (_, cs) \<Rightarrow> ?fire comms cs w"
  have k: "replay_refines r (?k comms (?found comms w)) (?g comms (?found comms w))" for comms w
  proof (cases "?found comms w")
    case None
    show ?thesis unfolding None option.case by (rule wait)
  next
    case (Some e)
    obtain comm cs where e: "e = (comm, cs)" by fastforce
    have "v_matched_consume m channels patterns (fst w) comm = Some cs" using first_some_Some [OF Some] e by auto
    then show ?thesis unfolding Some e option.case prod.case by (intro fire matched_consume_distinct)
  qed
  have searched: "replay_refines r (and_then (on_space (get_comm_and_consume_candidates m channels patterns comms)) (?k comms))
      (\<lambda>w. ?g comms (?found comms w) w)" for comms
    by (rule refines_bind_result [where g = "?g comms", OF on_space_implements [OF get_comm_and_consume_candidates_implements]])
      (simp_all only: on_view_def fst_conv snd_conv prod.collapse k)
  let ?m = "\<lambda>rr. case comms_for_consume (rr_data rr) ref of
        None \<Rightarrow> on_space (store_waiting_continuation channels ?wk)
      | Some comms \<Rightarrow> and_then (on_space (get_comm_and_consume_candidates m channels patterns comms)) (?k comms)"
  let ?f = "\<lambda>w0. case comms_for_consume (snd w0) ref of
      None \<Rightarrow> succeeds ?wait | Some comms \<Rightarrow> \<lambda>w. ?g comms (?found comms w) w"
  have "replay_refines r (?m rr) (?f (replay_view rr))" for rr
    by (cases "comms_for_consume (rr_data rr) ref"; simp only: replay_view_def snd_conv option.case; rule wait searched)
  then have "replay_refines r (\<lambda>rr. ?m rr rr) (spec_replay_consume m channels patterns k persist peeks ref)"
    by (rule refines_reading [where m = ?m and f = ?f])
      (simp add: spec_replay_consume_def split_beta Let_def succeeds_def split: option.split)
  moreover have "(\<lambda>rr. ?m rr rr) = replay_locked_consume m channels patterns k persist peeks ref"
    unfolding replay_locked_consume_def [abs_def] Let_def the_continuation_def by (simp add: fun_eq_iff split: option.split)
  ultimately show ?thesis by simp
qed

definition spec_handle_match ::
  "('c::linorder, 'p, 'a, 'k) produce_candidate \<Rightarrow> comm list \<Rightarrow> ('c, 'p, 'a, 'k) space_view \<times> replay_data \<Rightarrow>
   (('c, 'p, 'a, 'k) space_view \<times> replay_data) \<times> (failure + ('c, 'p, 'a, 'k) action_result)" where
  "spec_handle_match pc comms w =
     (let (v, rd) = w; wk = pc_continuation pc; comm = v_comm (pc_data_candidates pc) (wc_source wk) (wc_peeks wk) v in
      if in_trace comms comm
      then ((v\<lparr>sv_tuples := v_fire pc (sv_tuples v)\<rparr>, unbind comm rd),
            Inr (wrap_result (pc_channels pc) wk (pc_data_candidates pc)))
      else (w, Inl (Failed ReplayCommNotInTrace)))"

lemma handle_match_refines:
  assumes "\<And>c. distinct (taken (pc_data_candidates pc) c)"
  shows "replay_refines r (handle_match pc comms) (spec_handle_match pc comms)"
proof -
  let ?wk = "pc_continuation pc" and ?cs = "pc_data_candidates pc"
  let ?rm = "on_space (if \<not> wc_persist ?wk then on_store (remove_continuation (pc_channels pc) (pc_continuation_index pc)) else ret ())"
  have removed: "replay_implements r
      (and_then ?rm (\<lambda>_.
       and_then (on_space (remove_matched_datum_and_join (pc_channels pc) ?cs)) (\<lambda>_.
       and_then (remove_bindings_for comm) (\<lambda>_. ret (wrap_result (pc_channels pc) ?wk ?cs)))))
      (\<lambda>w. ((fst w\<lparr>sv_tuples := v_fire pc (sv_tuples (fst w))\<rparr>, unbind comm (snd w)), wrap_result (pc_channels pc) ?wk ?cs))" for comm
    by (rule implements_bind [OF on_space_implements [OF remove_fired_implements] implements_bind
          [OF on_space_implements [OF remove_matched_implements [OF assms]] implements_bind
            [OF remove_bindings_implements implements_ret refl] refl]])
      (simp add: on_view_def v_fire_def)
  show ?thesis
    unfolding handle_match_def Let_def
    by (rule refines_bind [OF comm_of_replay_implements refines_if [OF refines_throw refines_succeeds [OF removed]]])
      (simp add: spec_handle_match_def in_trace_def succeeds_def split_beta Let_def)
qed

lemma count_implements:
  "space_implements r (if \<not> persist then increment_produce_counter p else ret ())
     (\<lambda>v. ((if persist then id else v_count p) v, ()))"
  by (auto simp: implements_def increment_produce_counter_def v_count_def view_of_def space_ok_def)

lemma replay_locked_produce_refines:
  fixes r :: "('c::linorder, 'p, 'a, 'k) history_reader_base"
  shows "replay_refines r (replay_locked_produce m c a persist ref) (spec_replay_produce m c a persist ref)"
proof -
  let ?d = "\<lparr>dt_a = a, dt_persist = persist, dt_source = ref\<rparr>"
  let ?store = "\<lambda>w. ((fst w\<lparr>sv_tuples := fst (v_put_datum c ?d (sv_tuples (fst w)))\<rparr>, snd w), None)"
  let ?found = "\<lambda>joins comms w. first_some (\<lambda>comm. map_option (Pair comm) (first_some (v_matched_join m c ?d comm (fst w)) joins)) comms"
  let ?k = "\<lambda>comms x. case x of None \<Rightarrow> on_space (store_data c a persist ref) | Some (_, pc) \<Rightarrow> handle_match pc comms"
  let ?g = "\<lambda>comms x w. case x of None \<Rightarrow> succeeds ?store w | Some (_, pc) \<Rightarrow> spec_handle_match pc comms w"
  have store: "replay_refines r (on_space (store_data c a persist ref)) (succeeds ?store)"
    by (rule refines_succeeds [OF implements_cong [OF on_space_implements [OF store_data_implements]]]) (simp add: on_view_def)
  have k: "replay_refines r (?k comms (?found joins comms w)) (?g comms (?found joins comms w))" for joins comms w
  proof (cases "?found joins comms w")
    case None
    show ?thesis unfolding None option.case by (rule store)
  next
    case (Some e)
    obtain comm pc where e: "e = (comm, pc)" by fastforce
    obtain channels where "v_matched_join m c ?d comm (fst w) channels = Some pc"
      using first_some_Some [OF Some] e by (auto dest: first_some_Some)
    then show ?thesis unfolding Some e option.case prod.case by (intro handle_match_refines matched_join_distinct)
  qed
  have searched: "replay_refines r (and_then (on_space (get_comm_or_produce_candidate m c ?d comms joins)) (?k comms))
      (\<lambda>w. ?g comms (?found joins comms w) w)" for comms joins
    by (rule refines_bind_result [where g = "?g comms", OF on_space_implements [OF get_comm_or_produce_candidate_implements]])
      (simp_all only: on_view_def fst_conv snd_conv prod.collapse k)
  let ?m = "\<lambda>joins rr. case comms_for_produce (rr_data rr) ref of
        None \<Rightarrow> on_space (store_data c a persist ref)
      | Some comms \<Rightarrow> and_then (on_space (get_comm_or_produce_candidate m c ?d comms joins)) (?k comms)"
  let ?f = "\<lambda>joins w0. case comms_for_produce (snd w0) ref of
      None \<Rightarrow> succeeds ?store | Some comms \<Rightarrow> \<lambda>w. ?g comms (?found joins comms w) w"
  have "replay_refines r (?m joins rr) (?f joins (replay_view rr))" for joins rr
    by (cases "comms_for_produce (rr_data rr) ref"; simp only: replay_view_def snd_conv option.case; rule store searched)
  then have found: "replay_refines r (\<lambda>rr. ?m joins rr rr) (\<lambda>w. ?f joins w w)" for joins
    by (rule refines_reading [where m = "?m joins" and f = "?f joins"]) simp
  note counted = refines_bind [where g = "\<lambda>_ w. ?f joins w w" for joins, OF on_space_implements [OF count_implements] found]
  have "replay_refines r
      (and_then (on_space (on_store (get_joins c))) (\<lambda>joins.
       and_then (on_space (if \<not> persist then increment_produce_counter ref else ret ())) (\<lambda>_ rr. ?m joins rr rr)))
      (spec_replay_produce m c a persist ref)"
    by (rule refines_bind [OF on_space_implements [OF on_store_implements [OF get_joins_view]] counted [OF refl]])
      (auto simp: spec_replay_produce_def Let_def on_view_def on_tuples_def v_get_joins_def succeeds_def spec_handle_match_def
        split: option.split)
  moreover have eq: "(\<lambda>_ rr. ?m joins rr rr) = (\<lambda>_ rr. case comms_for_produce (rr_data rr) ref of
         None \<Rightarrow> on_space (store_data c a persist ref) rr
       | Some comms \<Rightarrow> and_then (on_space (get_comm_or_produce_candidate m c ?d comms joins)) (?k comms) rr)" for joins
    by (auto simp: fun_eq_iff split: option.split)
  ultimately show ?thesis unfolding replay_locked_produce_def by (simp only: eq)
qed

lemma replay_consume_refines:
  assumes "channels \<noteq> []" "length channels = length patterns"
  shows "replay_refines r (replay_consume env channels patterns k persist peeks)
    (spec_replay_consume (se_matcher env) channels patterns k persist peeks (consume_ref env channels patterns k persist))"
  using assms replay_locked_consume_refines by (simp add: replay_consume_def)

lemma replay_produce_refines:
  "replay_refines r (replay_produce env c a persist)
    (spec_replay_produce (se_matcher env) c a persist (produce_ref env c a persist))"
  unfolding replay_produce_def
  by (rule refines_bind [OF on_space_implements [OF on_store_implements [OF get_joins_view]] replay_locked_produce_refines])
    (simp add: on_view_def on_tuples_def v_get_joins_def)

section \<open>Runs of the replay space\<close>

primrec run_replay ::
  "('c::linorder, 'p, 'a, 'k) space_env \<Rightarrow> ('c, 'p, 'a, 'k) command \<Rightarrow> ('c, 'p, 'a, 'k, ('c, 'p, 'a, 'k) outcome) replay_op" where
  "run_replay env (Produce c a persist) = (\<lambda>rr. map_prod id (map_sum id Acted) (replay_produce env c a persist rr))"
| "run_replay env (Consume cs ps k persist peeks) =
     (\<lambda>rr. map_prod id (map_sum id Acted) (replay_consume env cs ps k persist peeks rr))"
| "run_replay env (Install cs ps k) = (\<lambda>rr. map_prod id (map_sum id Installed) (replay_install env cs ps k rr))"
| "run_replay env (Native_Put p key b) = on_space (run_command env (Native_Put p key b))"
| "run_replay env (Native_Delete p key) = on_space (run_command env (Native_Delete p key))"

primrec spec_replay ::
  "('c::linorder, 'p, 'a, 'k) space_env \<Rightarrow> ('c, 'p, 'a, 'k) command \<Rightarrow> ('c, 'p, 'a, 'k) space_view \<times> replay_data \<Rightarrow>
   (('c, 'p, 'a, 'k) space_view \<times> replay_data) \<times> (failure + ('c, 'p, 'a, 'k) outcome)" where
  "spec_replay env (Produce c a persist) = (\<lambda>w.
     map_prod id (map_sum id Acted) (spec_replay_produce (se_matcher env) c a persist (produce_ref env c a persist) w))"
| "spec_replay env (Consume cs ps k persist peeks) = (\<lambda>w.
     map_prod id (map_sum id Acted)
       (if cs = [] \<or> length cs \<noteq> length ps then (w, Inl Panicked)
        else spec_replay_consume (se_matcher env) cs ps k persist peeks (consume_ref env cs ps k persist) w))"
| "spec_replay env (Install cs ps k) = on_view (spec_command env (Install cs ps k))"
| "spec_replay env (Native_Put p key b) = on_view (spec_command env (Native_Put p key b))"
| "spec_replay env (Native_Delete p key) = on_view (spec_command env (Native_Delete p key))"

lemma replay_command_refines: "replay_refines r (run_replay env c) (spec_replay env c)"
proof (cases c)
  case (Produce ch a persist)
  then show ?thesis using refines_mapped [OF replay_produce_refines [of r env ch a persist]] by simp
next
  case (Consume cs ps k persist peeks)
  have "replay_refines r (replay_consume env cs ps k persist peeks)
      (\<lambda>w. if cs = [] \<or> length cs \<noteq> length ps then (w, Inl Panicked)
        else spec_replay_consume (se_matcher env) cs ps k persist peeks (consume_ref env cs ps k persist) w)"
    using refines_throw [of "replay_ok r" replay_view Panicked] replay_consume_refines [of cs ps r env k persist peeks]
    by (auto simp: replay_consume_def)
  from refines_mapped [OF this] show ?thesis using Consume by simp
next
  case (Install cs ps k)
  have "(\<lambda>rr. map_prod id (map_sum id Installed) (replay_install env cs ps k rr)) = on_space (run_command env (Install cs ps k))"
    by (auto simp: fun_eq_iff on_space_def replay_install_def split_beta Let_def)
  then show ?thesis using Install on_space_refines [OF command_refines [of r env c]] by simp
qed (use on_space_refines [OF command_refines [of r env c]] in \<open>simp_all del: run_command.simps spec_command.simps\<close>)

interpretation replay: machine "replay_ok r" replay_view "run_replay env" "spec_replay env" for r env
  by unfold_locales (rule replay_command_refines)

end
