(* ===== verification/Replay_Law.thy ===== *)
theory Replay_Law
  imports Replay
begin

text \<open>
  Replay determinism: the commands of a play, run again by a replay space rigged with the log of the
  play, give the same results and the same tuple space and use up every recorded communication.

  The law holds for commands whose hashes tell them apart, on distinct channels, provided every produce
  that fires uses its own datum. The last condition can fail (\<open>Space_Runs.produce_lost\<close>), and then
  the log of a play is refused by its own replay.
\<close>

section \<open>Searching on distinct channels\<close>

text \<open>On distinct channels the patterns do not compete: each one searches the data of its channel.\<close>

lemma extract_pointwise:
  assumes "distinct (map fst pairs)"
  shows "extract_data_candidates pairs mp m =
    map (\<lambda>q. case bm_get mp (fst q) of None \<Rightarrow> None
      | Some ds \<Rightarrow> map_option fst (find_matching_data_candidate (fst q) ds (snd q) m)) pairs"
  using assms
proof (induction pairs arbitrary: mp)
  case (Cons q pairs)
  obtain c p where q: "q = (c, p)" by fastforce
  have "bm_get (bm_insert c rm mp) (fst q') = bm_get mp (fst q')" if "q' \<in> set pairs" for q' rm
    using Cons.prems q that by auto
  then show ?case using Cons q by (auto split: option.split prod.split cong: map_cong)
qed simp

lemma extract_fetched:
  assumes "distinct channels"
  shows "extract_data_candidates (zip channels patterns) (v_fetch f channels t) m =
    map (\<lambda>q. map_option fst (find_matching_data_candidate (fst q) (f (fst q) (vw_data t (fst q))) (snd q) m)) (zip channels patterns)"
  unfolding extract_pointwise [OF distinct_fst_zip [OF assms]]
  by (intro map_cong refl) (simp add: bm_get_v_fetch in_zip_left)

lemma find_one:
  assumes "candidate_from m p ch e x"
  shows "map_option fst (find_matching_data_candidate ch [e] p m) = Some x"
  using assms by (cases e) (auto simp: find_matching_data_candidate_def candidate_from_def)

lemma find_nothing [simp]: "find_matching_data_candidate ch [] p m = None"
  by (simp add: find_matching_data_candidate_def)

section \<open>Hashes that tell commands apart\<close>

definition data_hashes :: "('c, 'p, 'a, 'k) tuple_view \<Rightarrow> 'c \<Rightarrow> hash32 list" where
  "data_hashes t c = map (\<lambda>d. pr_hash (dt_source d)) (vw_data t c)"

definition conts_at :: "('c, 'p, 'a, 'k) tuple_view \<Rightarrow> 'c list \<Rightarrow> ('p, 'k) waiting_continuation list" where
  "conts_at t channels = snd (v_get_continuations channels t)"

definition cont_hashes :: "('c, 'p, 'a, 'k) tuple_view \<Rightarrow> 'c list \<Rightarrow> hash32 list" where
  "cont_hashes t channels = map (\<lambda>wc. cs_hash (wc_source wc)) (conts_at t channels)"

text \<open>
  \<open>home\<close> and \<open>khome\<close> give the channel of a produce hash and the channels of a consume hash. Within a
  channel the data, and within a join the continuations, have different hashes.
\<close>

definition homed :: "(hash32 \<Rightarrow> 'c) \<Rightarrow> (hash32 \<Rightarrow> 'c list) \<Rightarrow> ('c, 'p, 'a, 'k) tuple_view \<Rightarrow> bool" where
  "homed home khome t \<longleftrightarrow>
     (\<forall>c. distinct (data_hashes t c) \<and> (\<forall>h \<in> set (data_hashes t c). home h = c)) \<and>
     (\<forall>channels. distinct (cont_hashes t channels) \<and> (\<forall>h \<in> set (cont_hashes t channels). khome h = channels) \<and>
        (\<forall>wc \<in> set (conts_at t channels). distinct channels \<and> length (wc_patterns wc) = length channels))"

primrec produce_hashes :: "('c::linorder, 'p, 'a, 'k) space_env \<Rightarrow> ('c, 'p, 'a, 'k) command list \<Rightarrow> hash32 list" where
  "produce_hashes env [] = []"
| "produce_hashes env (c # cs) =
     (case c of Produce ch a persist \<Rightarrow> [pr_hash (produce_ref env ch a persist)] | _ \<Rightarrow> []) @ produce_hashes env cs"

primrec consume_hashes :: "('c::linorder, 'p, 'a, 'k) space_env \<Rightarrow> ('c, 'p, 'a, 'k) command list \<Rightarrow> hash32 list" where
  "consume_hashes env [] = []"
| "consume_hashes env (c # cs) =
     (case c of Consume chs ps k persist peeks \<Rightarrow> [cs_hash (consume_ref env chs ps k persist)] | _ \<Rightarrow> []) @ consume_hashes env cs"

primrec home_ok ::
  "('c::linorder, 'p, 'a, 'k) space_env \<Rightarrow> (hash32 \<Rightarrow> 'c) \<Rightarrow> (hash32 \<Rightarrow> 'c list) \<Rightarrow> ('c, 'p, 'a, 'k) command \<Rightarrow> bool" where
  "home_ok env home khome (Produce c a persist) = (home (pr_hash (produce_ref env c a persist)) = c)"
| "home_ok env home khome (Consume cs ps k persist peeks) =
     (cs \<noteq> [] \<and> length cs = length ps \<and> distinct cs \<and> khome (cs_hash (consume_ref env cs ps k persist)) = cs)"
| "home_ok env home khome (Install cs ps k) = False"
| "home_ok env home khome (Native_Put p key b) = True"
| "home_ok env home khome (Native_Delete p key) = True"

definition fresh ::
  "('c::linorder, 'p, 'a, 'k) space_env \<Rightarrow> (hash32 \<Rightarrow> 'c) \<Rightarrow> (hash32 \<Rightarrow> 'c list) \<Rightarrow> ('c, 'p, 'a, 'k) tuple_view \<Rightarrow>
   ('c, 'p, 'a, 'k) command list \<Rightarrow> bool" where
  "fresh env home khome t cmds \<longleftrightarrow>
     (\<forall>c \<in> set cmds. home_ok env home khome c) \<and> distinct (produce_hashes env cmds) \<and> distinct (consume_hashes env cmds) \<and>
     (\<forall>c. set (data_hashes t c) \<inter> set (produce_hashes env cmds) = {}) \<and>
     (\<forall>channels. set (cont_hashes t channels) \<inter> set (consume_hashes env cmds) = {})"

section \<open>The communications of a play\<close>

definition consume_match ::
  "('c::linorder, 'p, 'a, 'k) space_env \<Rightarrow> 'c list \<Rightarrow> 'p list \<Rightarrow> ('c, 'p, 'a, 'k) space_view \<Rightarrow> ('c, 'a) consume_candidate list option" where
  "consume_match env channels patterns v =
     those (extract_data_candidates (zip channels patterns)
       (v_fetch (\<lambda>_ ds. by_produce_hash (indexed_data ds)) channels (sv_tuples v)) (se_matcher env))"

definition in_flight_datum :: "('c::linorder, 'p, 'a, 'k) space_env \<Rightarrow> 'c \<Rightarrow> 'a \<Rightarrow> bool \<Rightarrow> 'a datum" where
  "in_flight_datum env c a persist = \<lparr>dt_a = a, dt_persist = persist, dt_source = produce_ref env c a persist\<rparr>"

definition produce_match ::
  "('c::linorder, 'p, 'a, 'k) space_env \<Rightarrow> 'c \<Rightarrow> 'a \<Rightarrow> bool \<Rightarrow> ('c, 'p, 'a, 'k) space_view \<Rightarrow> ('c, 'p, 'a, 'k) produce_candidate option" where
  "produce_match env c a persist v =
     spec_candidate (se_matcher env) (snd (v_get_joins c (sv_tuples v))) c (in_flight_datum env c a persist) (sv_tuples v)"

definition counted :: "('c::linorder, 'p, 'a, 'k) space_env \<Rightarrow> 'c \<Rightarrow> 'a \<Rightarrow> bool \<Rightarrow> ('c, 'p, 'a, 'k) space_view \<Rightarrow> ('c, 'p, 'a, 'k) space_view" where
  "counted env c a persist v = (if persist then v else v_count (produce_ref env c a persist) v)"

definition pc_comm :: "('c, 'p, 'a, 'k) produce_candidate \<Rightarrow> ('c, 'p, 'a, 'k) space_view \<Rightarrow> comm" where
  "pc_comm pc v = v_comm (pc_data_candidates pc) (wc_source (pc_continuation pc)) (wc_peeks (pc_continuation pc)) v"

text \<open>The communication that a command makes, if any.\<close>

primrec play_comm ::
  "('c::linorder, 'p, 'a, 'k) space_env \<Rightarrow> ('c, 'p, 'a, 'k) command \<Rightarrow> ('c, 'p, 'a, 'k) space_view \<Rightarrow> comm option" where
  "play_comm env (Produce c a persist) v =
     map_option (\<lambda>pc. pc_comm pc (counted env c a persist v)) (produce_match env c a persist v)"
| "play_comm env (Consume cs ps k persist peeks) v =
     map_option (\<lambda>xs. v_comm xs (consume_ref env cs ps k persist) peeks v) (consume_match env cs ps v)"
| "play_comm env (Install cs ps k) v = None"
| "play_comm env (Native_Put p key b) v = None"
| "play_comm env (Native_Delete p key) v = None"

text \<open>The communications of a run, the last one first, as they are in the log.\<close>

primrec play_comms ::
  "('c::linorder, 'p, 'a, 'k) space_env \<Rightarrow> ('c, 'p, 'a, 'k) command list \<Rightarrow> ('c, 'p, 'a, 'k) space_view \<Rightarrow> comm list" where
  "play_comms env [] v = []"
| "play_comms env (c # cs) v =
     play_comms env cs (fst (spec_command env c v)) @ (case play_comm env c v of None \<Rightarrow> [] | Some x \<Rightarrow> [x])"

text \<open>A produce that fires uses its own datum.\<close>

primrec fair ::
  "('c::linorder, 'p, 'a, 'k) space_env \<Rightarrow> ('c, 'p, 'a, 'k) command \<Rightarrow> ('c, 'p, 'a, 'k) space_view \<Rightarrow> bool" where
  "fair env (Produce c a persist) v =
     (case produce_match env c a persist v of
        None \<Rightarrow> True | Some pc \<Rightarrow> \<exists>x \<in> set (pc_data_candidates pc). cc_datum_index x = - 1)"
| "fair env (Consume cs ps k persist peeks) v = True"
| "fair env (Install cs ps k) v = True"
| "fair env (Native_Put p key b) v = True"
| "fair env (Native_Delete p key) v = True"

primrec fair_run ::
  "('c::linorder, 'p, 'a, 'k) space_env \<Rightarrow> ('c, 'p, 'a, 'k) command list \<Rightarrow> ('c, 'p, 'a, 'k) space_view \<Rightarrow> bool" where
  "fair_run env [] v = True"
| "fair_run env (c # cs) v = (fair env c v \<and> fair_run env cs (fst (spec_command env c v)))"

section \<open>What a command leaves\<close>

lemma spec_produce_cases:
  "sv_tuples (fst (spec_command env (Produce c a persist) v)) =
     (case produce_match env c a persist v of
        None \<Rightarrow> fst (v_put_datum c (in_flight_datum env c a persist) (sv_tuples v)) | Some pc \<Rightarrow> v_fire pc (sv_tuples v))"
  "sv_counter (fst (spec_command env (Produce c a persist) v)) = sv_counter (counted env c a persist v)"
  "sv_native (fst (spec_command env (Produce c a persist) v)) = sv_native v"
  "snd (spec_command env (Produce c a persist) v) =
     Inr (Acted (case produce_match env c a persist v of None \<Rightarrow> None
       | Some pc \<Rightarrow> wrap_result (pc_channels pc) (pc_continuation pc) (pc_data_candidates pc)))"
  by (simp_all add: succeeds_def spec_produce_def Let_def produce_match_def in_flight_datum_def counted_def v_log_def v_count_def
      split: option.split)

lemma spec_consume_cases:
  assumes "cs \<noteq> []" "length cs = length ps"
  shows "sv_tuples (fst (spec_command env (Consume cs ps k persist peeks) v)) =
     (case consume_match env cs ps v of
        None \<Rightarrow> v_wait cs (the_continuation ps k persist peeks (consume_ref env cs ps k persist)) (sv_tuples v)
      | Some xs \<Rightarrow> v_take xs (sv_tuples v))"
    "sv_counter (fst (spec_command env (Consume cs ps k persist peeks) v)) = sv_counter v"
    "sv_native (fst (spec_command env (Consume cs ps k persist peeks) v)) = sv_native v"
    "snd (spec_command env (Consume cs ps k persist peeks) v) =
     Inr (Acted (case consume_match env cs ps v of None \<Rightarrow> None
       | Some xs \<Rightarrow> wrap_result cs (the_continuation ps k persist peeks (consume_ref env cs ps k persist)) xs))"
  using assms by (simp_all add: succeeds_def spec_consume_def Let_def consume_match_def v_log_def split: option.split)

lemma data_hashes_updates [simp]:
  "data_hashes (v_wait cs wk t) = data_hashes t"
  "data_hashes (fst (v_put_datum c d t)) = (data_hashes t)(c := pr_hash (dt_source d) # data_hashes t c)"
  by (simp_all add: data_hashes_def v_wait_def v_put_datum_def fun_eq_iff)

lemma conts_at_updates [simp]:
  "conts_at (fst (v_put_datum c d t)) = conts_at t" "conts_at (v_take xs t) = conts_at t" "conts_at (v_unjoin cs xs t) = conts_at t"
  by (simp_all add: conts_at_def v_get_continuations_def v_put_datum_def v_take_def v_unjoin_def fun_eq_iff)

lemma mset_conts_wait:
  "mset (conts_at (v_wait cs wk t) cs') = mset (conts_at t cs') + (if cs' = cs then {#wk#} else {#})"
  by (simp add: conts_at_def v_get_continuations_def v_wait_def split: option.split)

lemma remove_index_Cons: "remove_index (x # xs) (Suc i) = x # remove_index xs i"
  by (simp add: remove_index_def)

lemma nths_keep: "\<exists>I. xs = nths xs I"
  by (rule exI [of _ UNIV]) (simp add: nths_all)

lemma nths_drop: "\<exists>I. remove_index xs j = nths xs I"
  by (rule exI, rule remove_index_nths)

lemma conts_at_remove:
  "\<exists>I. conts_at (fst (v_remove_continuation cs i t)) cs' = nths (conts_at t cs') I"
proof (cases "cs' = cs")
  case False
  then have "conts_at (fst (v_remove_continuation cs i t)) cs' = conts_at t cs'"
    by (auto simp: conts_at_def v_get_continuations_def v_remove_continuation_def split: option.split nat.split)
  then show ?thesis using nths_keep by metis
next
  case True
  have "conts_at (fst (v_remove_continuation cs i t)) cs = remove_index (conts_at t cs) i \<or>
      conts_at (fst (v_remove_continuation cs i t)) cs = conts_at t cs"
    by (auto simp: conts_at_def v_get_continuations_def v_remove_continuation_def remove_index_Cons split: option.split nat.split)
  then show ?thesis unfolding True using nths_keep nths_drop by metis
qed

text \<open>\<open>thinned t t'\<close>: \<open>t'\<close> has fewer data and continuations.\<close>

definition thinned :: "('c, 'p, 'a, 'k) tuple_view \<Rightarrow> ('c, 'p, 'a, 'k) tuple_view \<Rightarrow> bool" where
  "thinned t t' \<longleftrightarrow>
     (\<forall>c. \<exists>I. vw_data t' c = nths (vw_data t c) I) \<and> (\<forall>channels. \<exists>I. conts_at t' channels = nths (conts_at t channels) I)"

lemma take_thinned: "thinned t (v_take xs t)"
proof -
  have "\<exists>I. vw_data (v_take xs t) c = nths (vw_data t c) I" for c by (auto simp: v_take_def)
  then show ?thesis using nths_keep by (auto simp: thinned_def)
qed

lemma vw_data_remove_continuation [simp]: "vw_data (fst (v_remove_continuation cs i t)) = vw_data t"
  by (simp add: v_remove_continuation_def split: option.split nat.split)

lemma fire_thinned: "thinned t (v_fire pc t)"
proof -
  have "\<exists>I. conts_at (v_fire pc t) channels = nths (conts_at t channels) I" for channels
    using conts_at_remove [of "pc_channels pc" "pc_continuation_index pc" t channels] nths_keep by (auto simp: v_fire_def)
  moreover have "\<exists>I. vw_data (v_fire pc t) c = nths (vw_data t c) I" for c
    by (simp add: v_fire_def v_unjoin_def v_take_def) blast
  ultimately show ?thesis by (simp add: thinned_def)
qed

lemma thinned_hashes:
  assumes "thinned t t'"
  shows "set (data_hashes t' c) \<subseteq> set (data_hashes t c)" "set (cont_hashes t' channels) \<subseteq> set (cont_hashes t channels)"
proof -
  obtain I J where "vw_data t' c = nths (vw_data t c) I" "conts_at t' channels = nths (conts_at t channels) J"
    using assms unfolding thinned_def by metis
  then show "set (data_hashes t' c) \<subseteq> set (data_hashes t c)" "set (cont_hashes t' channels) \<subseteq> set (cont_hashes t channels)"
    by (auto simp: data_hashes_def cont_hashes_def dest: in_set_nthsD)
qed

lemma nths_map: "map f (nths xs I) = nths (map f xs) I"
  by (simp add: nths_def zip_map1 filter_map comp_def split_beta)

lemma homed_thinned:
  assumes "homed home khome t" "thinned t t'"
  shows "homed home khome t'"
proof -
  have "distinct (data_hashes t' c)" for c
    using assms unfolding homed_def thinned_def data_hashes_def by (metis nths_map distinct_nthsI)
  moreover have "distinct (cont_hashes t' channels)" for channels
    using assms unfolding homed_def thinned_def cont_hashes_def by (metis nths_map distinct_nthsI)
  moreover have "set (conts_at t' channels) \<subseteq> set (conts_at t channels)" for channels
    using assms(2) unfolding thinned_def by (metis in_set_nthsD subsetI)
  ultimately show ?thesis
    using assms(1) thinned_hashes [OF assms(2)] unfolding homed_def by (meson subsetD)
qed

lemma cont_hashes_wait:
  "mset (cont_hashes (v_wait cs wk t) cs') =
     mset (cont_hashes t cs') + (if cs' = cs then {#cs_hash (wc_source wk)#} else {#})"
  by (simp add: cont_hashes_def mset_conts_wait)

lemma set_wait:
  "set (cont_hashes (v_wait cs wk t) cs') = set (cont_hashes t cs') \<union> (if cs' = cs then {cs_hash (wc_source wk)} else {})"
  "set (conts_at (v_wait cs wk t) cs') = set (conts_at t cs') \<union> (if cs' = cs then {wk} else {})"
  unfolding set_mset_mset [symmetric] cont_hashes_wait mset_conts_wait by simp_all

lemma wc_source_the_continuation [simp]: "wc_source (the_continuation ps k persist peeks ref) = ref"
  "wc_patterns (the_continuation ps k persist peeks ref) = ps"
  by (simp_all add: the_continuation_def)

lemma homed_wait:
  assumes h: "homed home khome t" and new: "khome (cs_hash (wc_source wk)) = cs" "distinct cs" "length (wc_patterns wk) = length cs"
    "cs_hash (wc_source wk) \<notin> set (cont_hashes t cs)"
  shows "homed home khome (v_wait cs wk t)"
proof -
  have "distinct (cont_hashes (v_wait cs wk t) cs')" for cs'
  proof (cases "cs' = cs")
    case True
    have "mset (cont_hashes (v_wait cs wk t) cs) = mset (cs_hash (wc_source wk) # cont_hashes t cs)"
      by (simp add: cont_hashes_wait)
    moreover have "distinct (cs_hash (wc_source wk) # cont_hashes t cs)" using h new(4) by (simp add: homed_def)
    ultimately show ?thesis unfolding True by (metis mset_eq_imp_distinct_iff)
  next
    case False
    then have "mset (cont_hashes (v_wait cs wk t) cs') = mset (cont_hashes t cs')" by (simp add: cont_hashes_wait)
    then show ?thesis using h unfolding homed_def by (metis mset_eq_imp_distinct_iff)
  qed
  then show ?thesis using h new(1-3) unfolding homed_def data_hashes_updates set_wait by auto
qed

lemma homed_put:
  assumes "homed home khome t" "home (pr_hash (dt_source d)) = c" "pr_hash (dt_source d) \<notin> set (data_hashes t c)"
  shows "homed home khome (fst (v_put_datum c d t))"
  using assms by (simp add: homed_def cont_hashes_def)

text \<open>The tuples after a command: its own hash may join, or some go.\<close>

lemma command_tuples:
  assumes ok: "home_ok env home khome c"
  obtains
    (grown) "play_comm env c v = None"
      "sv_tuples (fst (spec_command env c v)) = sv_tuples v \<or>
       (\<exists>ch a persist. c = Produce ch a persist \<and>
          sv_tuples (fst (spec_command env c v)) = fst (v_put_datum ch (in_flight_datum env ch a persist) (sv_tuples v))) \<or>
       (\<exists>cs ps k persist peeks. c = Consume cs ps k persist peeks \<and>
          sv_tuples (fst (spec_command env c v)) =
            v_wait cs (the_continuation ps k persist peeks (consume_ref env cs ps k persist)) (sv_tuples v))"
  | (thinned) x where "play_comm env c v = Some x" "thinned (sv_tuples v) (sv_tuples (fst (spec_command env c v)))"
proof (cases c)
  case (Produce ch a persist)
  then show thesis
    using that fire_thinned by (cases "produce_match env ch a persist v") (auto simp: spec_produce_cases simp del: spec_command.simps)
next
  case (Consume cs ps k persist peeks)
  then have args: "cs \<noteq> []" "length cs = length ps" using ok by simp_all
  show thesis
    using that Consume take_thinned
    by (cases "consume_match env cs ps v") (auto simp: spec_consume_cases [OF args] simp del: spec_command.simps)
qed (use ok that in auto)

lemma fresh_head:
  "fresh env home khome t (c # cs) \<Longrightarrow> home_ok env home khome c"
  unfolding fresh_def by (drule conjunct1) simp

lemma fresh_parts:
  assumes "fresh env home khome t cmds"
  shows "distinct (produce_hashes env cmds)" "distinct (consume_hashes env cmds)"
    "h \<in> set (data_hashes t ch) \<Longrightarrow> h \<notin> set (produce_hashes env cmds)"
    "h \<in> set (cont_hashes t chs) \<Longrightarrow> h \<notin> set (consume_hashes env cmds)"
  using assms unfolding fresh_def by blast+

lemma fresh_produce:
  assumes "fresh env home khome t (Produce c a persist # cs)"
  shows "pr_hash (produce_ref env c a persist) \<notin> set (data_hashes t ch)"
    "pr_hash (produce_ref env c a persist) \<notin> set (produce_hashes env cs)"
  using fresh_parts(1,3) [OF assms] by auto

lemma fresh_consume:
  assumes "fresh env home khome t (Consume ks ps k persist peeks # cs)"
  shows "cs_hash (consume_ref env ks ps k persist) \<notin> set (cont_hashes t chs)"
    "cs_hash (consume_ref env ks ps k persist) \<notin> set (consume_hashes env cs)"
  using fresh_parts(2,4) [OF assms] by auto

lemma command_keeps_homed:
  assumes h: "homed home khome (sv_tuples v)" and f: "fresh env home khome (sv_tuples v) (c # cs)"
  shows "homed home khome (sv_tuples (fst (spec_command env c v)))"
    and "set (data_hashes (sv_tuples (fst (spec_command env c v))) ch) \<subseteq> set (data_hashes (sv_tuples v) ch) \<union> set (produce_hashes env [c])"
    and "set (cont_hashes (sv_tuples (fst (spec_command env c v))) chs) \<subseteq> set (cont_hashes (sv_tuples v) chs) \<union> set (consume_hashes env [c])"
proof -
  note ok = fresh_head [OF f]
  let ?P = "homed home khome (sv_tuples (fst (spec_command env c v))) \<and>
    (\<forall>ch. set (data_hashes (sv_tuples (fst (spec_command env c v))) ch) \<subseteq> set (data_hashes (sv_tuples v) ch) \<union> set (produce_hashes env [c])) \<and>
    (\<forall>chs. set (cont_hashes (sv_tuples (fst (spec_command env c v))) chs) \<subseteq> set (cont_hashes (sv_tuples v) chs) \<union> set (consume_hashes env [c]))"
  have ?P
    using ok
  proof (cases rule: command_tuples [of env home khome c v])
    case (thinned x)
    show ?thesis
      by (intro conjI allI homed_thinned [OF h thinned(2)] le_supI1 thinned_hashes [OF thinned(2)])
  next
    case grown
    from grown(2) show ?thesis
    proof (elim disjE exE conjE)
      assume "sv_tuples (fst (spec_command env c v)) = sv_tuples v"
      then show ?thesis using h by simp
    next
      fix ch a persist assume c: "c = Produce ch a persist"
        "sv_tuples (fst (spec_command env c v)) = fst (v_put_datum ch (in_flight_datum env ch a persist) (sv_tuples v))"
      have "pr_hash (produce_ref env ch a persist) \<notin> set (data_hashes (sv_tuples v) ch)"
        by (rule fresh_produce(1) [OF f [unfolded c(1)]])
      then have "homed home khome (sv_tuples (fst (spec_command env c v)))"
        unfolding c(2) using ok c(1) by (intro homed_put [OF h]) (simp_all add: in_flight_datum_def)
      then show ?thesis unfolding c(2) by (auto simp: c(1) in_flight_datum_def cont_hashes_def)
    next
      fix ks ps k persist peeks assume c: "c = Consume ks ps k persist peeks"
        "sv_tuples (fst (spec_command env c v)) = v_wait ks (the_continuation ps k persist peeks (consume_ref env ks ps k persist)) (sv_tuples v)"
      let ?wk = "the_continuation ps k persist peeks (consume_ref env ks ps k persist)"
      have "cs_hash (consume_ref env ks ps k persist) \<notin> set (cont_hashes (sv_tuples v) ks)"
        by (rule fresh_consume(1) [OF f [unfolded c(1)]])
      then have "homed home khome (sv_tuples (fst (spec_command env c v)))"
        unfolding c(2) using ok c(1) by (intro homed_wait [OF h]) simp_all
      moreover have "set (cont_hashes (v_wait ks ?wk (sv_tuples v)) chs) \<subseteq> set (cont_hashes (sv_tuples v) chs) \<union> {cs_hash (consume_ref env ks ps k persist)}" for chs
        unfolding set_wait by auto
      ultimately show ?thesis unfolding c(2) by (auto simp: c(1))
    qed
  qed
  then show "homed home khome (sv_tuples (fst (spec_command env c v)))"
    "set (data_hashes (sv_tuples (fst (spec_command env c v))) ch) \<subseteq> set (data_hashes (sv_tuples v) ch) \<union> set (produce_hashes env [c])"
    "set (cont_hashes (sv_tuples (fst (spec_command env c v))) chs) \<subseteq> set (cont_hashes (sv_tuples v) chs) \<union> set (consume_hashes env [c])"
    by blast+
qed

lemma hashes_Cons:
  "set (produce_hashes env (c # cs)) = set (produce_hashes env [c]) \<union> set (produce_hashes env cs)"
  "set (consume_hashes env (c # cs)) = set (consume_hashes env [c]) \<union> set (consume_hashes env cs)"
  by simp_all

lemma command_keeps_fresh:
  assumes h: "homed home khome (sv_tuples v)" and f: "fresh env home khome (sv_tuples v) (c # cs)"
  shows "fresh env home khome (sv_tuples (fst (spec_command env c v))) cs"
proof -
  note p = fresh_parts [OF f, unfolded hashes_Cons [of env c cs]]
  have "distinct (produce_hashes env [c] @ produce_hashes env cs)" "distinct (consume_hashes env [c] @ consume_hashes env cs)"
    using p(1,2) by simp_all
  moreover have "\<forall>d \<in> set cs. home_ok env home khome d" using f unfolding fresh_def by simp
  ultimately show ?thesis
    using p(3,4) command_keeps_homed(2,3) [OF h f] unfolding fresh_def distinct_append by blast
qed

section \<open>What a communication says\<close>

abbreviation hash_of :: "'a datum \<times> int \<Rightarrow> hash32" where
  "hash_of e \<equiv> pr_hash (dt_source (fst e))"

abbreviation hashes_of :: "comm \<Rightarrow> hash32 set" where
  "hashes_of x \<equiv> pr_hash ` set (cm_produces x)"

lemma comm_produces:
  "mset (cm_produces (v_comm xs ref peeks v)) = mset (map (\<lambda>x. dt_source (cc_datum x)) xs)"
  "cm_consume (v_comm xs ref peeks v) = ref"
  by (simp_all add: v_comm_def comm_apply_def Let_def)

lemma hashes_of_comm: "hashes_of (v_comm xs ref peeks v) = (\<lambda>x. pr_hash (dt_source (cc_datum x))) ` set xs"
proof -
  have "set (cm_produces (v_comm xs ref peeks v)) = (\<lambda>x. dt_source (cc_datum x)) ` set xs"
    using arg_cong [OF comm_produces(1) [of xs ref peeks v], of set_mset] by simp
  then show ?thesis by (simp add: image_image)
qed

lemma bm_get_collect_counters:
  "bm_get (fold (\<lambda>(k, v) m. bm_insert k v m) (map (\<lambda>p. (f p, g (f p))) ps) m) h =
     (if h \<in> f ` set ps then Some (g h) else bm_get m h)"
  by (induction ps arbitrary: m) auto

lemma comm_times:
  assumes "h \<in> hashes_of (v_comm xs ref peeks v)"
  shows "bm_get_or 0 (cm_times_repeated (v_comm xs ref peeks v)) h = bm_get_or 0 (sv_counter v) h"
proof -
  have "cm_times_repeated (v_comm xs ref peeks v) = produce_counters (sv_counter v) (cm_produces (v_comm xs ref peeks v))"
    by (simp add: v_comm_def comm_apply_def Let_def)
  then show ?thesis
    using assms bm_get_collect_counters [of pr_hash "bm_get_or 0 (sv_counter v)" "cm_produces (v_comm xs ref peeks v)" "[]" h]
    by (simp add: produce_counters_def bm_collect_def bm_get_or_def)
qed

lemma matches_iff:
  "matches n x d \<longleftrightarrow> pr_hash (dt_source d) \<in> hashes_of x \<and>
     (dt_persist d \<or> bm_get_or 0 n (pr_hash (dt_source d)) = bm_get_or 0 (cm_times_repeated x) (pr_hash (dt_source d)))"
proof -
  have "(\<exists>p \<in> set (cm_produces x). pr_hash p = pr_hash (dt_source d)) \<longleftrightarrow> pr_hash (dt_source d) \<in> hashes_of x"
    by (metis image_iff)
  then show ?thesis by (simp add: matches_def produce_eq_def produce_counter_value_def)
qed

lemma matches_own:
  "pr_hash (dt_source d) \<in> hashes_of (v_comm xs ref peeks v) \<Longrightarrow> matches (sv_counter v) (v_comm xs ref peeks v) d"
  by (simp add: matches_iff comm_times)

lemma keep_one:
  assumes e: "e \<in> set L" "matches n x (fst e)" and d: "distinct (map hash_of L)"
    and u: "\<And>e'. e' \<in> set L \<Longrightarrow> matches n x (fst e') \<Longrightarrow> hash_of e' = hash_of e"
  shows "keep_matching n x L = [e]"
proof -
  obtain A B where L: "L = A @ e # B" using e(1) by (meson split_list)
  have "\<not> matches n x (fst e')" if "e' \<in> set A \<union> set B" for e'
  proof
    assume m: "matches n x (fst e')"
    have "hash_of e' = hash_of e" using that m by (intro u) (auto simp: L)
    then show False using that d by (auto simp: L image_iff)
  qed
  then show ?thesis using e(2) by (simp add: keep_matching_def L split_beta)
qed

text \<open>Candidates drawn one from each channel.\<close>

definition drawn ::
  "('p \<Rightarrow> 'a \<Rightarrow> 'a option) \<Rightarrow> ('c \<Rightarrow> 'a datum list \<Rightarrow> 'a indexed) \<Rightarrow> 'c list \<Rightarrow> 'p list \<Rightarrow> ('c, 'p, 'a, 'k) tuple_view \<Rightarrow>
   ('c, 'a) consume_candidate list \<Rightarrow> bool" where
  "drawn m f channels patterns t xs \<longleftrightarrow>
     length xs = length channels \<and>
     (\<forall>i < length channels. \<exists>e \<in> set (f (channels ! i) (vw_data t (channels ! i))). candidate_from m (patterns ! i) (channels ! i) e (xs ! i))"

lemma extract_drawn:
  assumes "extract_data_candidates (zip channels patterns) (v_fetch f channels t) m = map Some xs" "length patterns = length channels"
  shows "drawn m f channels patterns t xs"
proof -
  note l = extract_sound [OF assms(1)]
  have n: "length xs = length channels" using list_all2_lengthD [OF l] assms(2) by simp
  have "\<exists>e \<in> set (f (channels ! i) (vw_data t (channels ! i))). candidate_from m (patterns ! i) (channels ! i) e (xs ! i)"
    if "i < length channels" for i
    using list_all2_nthD [OF l, of i] that assms(2) by (auto simp: bm_get_v_fetch)
  then show ?thesis by (simp add: drawn_def n)
qed

lemma drawn_homes:
  assumes "drawn m f channels patterns t xs" "\<And>ch e. e \<in> set (f ch (vw_data t ch)) \<Longrightarrow> home (hash_of e) = ch"
  shows "map (\<lambda>x. home (pr_hash (dt_source (cc_datum x)))) xs = channels"
proof (rule nth_equalityI)
  show n: "length (map (\<lambda>x. home (pr_hash (dt_source (cc_datum x)))) xs) = length channels" using assms(1) by (simp add: drawn_def)
  fix i assume "i < length (map (\<lambda>x. home (pr_hash (dt_source (cc_datum x)))) xs)"
  then have i: "i < length xs" "i < length channels" using n by simp_all
  then obtain e where "e \<in> set (f (channels ! i) (vw_data t (channels ! i)))" "candidate_from m (patterns ! i) (channels ! i) e (xs ! i)"
    using assms(1) by (auto simp: drawn_def)
  then show "map (\<lambda>x. home (pr_hash (dt_source (cc_datum x)))) xs ! i = channels ! i"
    using assms(2) i(1) by (simp add: candidate_from_def)
qed

lemma comm_homes:
  assumes "map (\<lambda>x. home (pr_hash (dt_source (cc_datum x)))) xs = channels" "distinct channels"
  shows "distinct (map (\<lambda>p. home (pr_hash p)) (cm_produces (v_comm xs ref peeks v)))"
proof -
  have "mset (map (\<lambda>p. home (pr_hash p)) (cm_produces (v_comm xs ref peeks v))) = mset channels"
    unfolding mset_map comm_produces(1) using assms(1) by (simp add: multiset.map_comp comp_def flip: mset_map)
  then show ?thesis using assms(2) by (metis mset_eq_imp_distinct_iff)
qed

lemma homes_inj:
  assumes "distinct (map (\<lambda>p. home (pr_hash p)) (cm_produces x))" "h \<in> hashes_of x" "h' \<in> hashes_of x" "home h = home h'"
  shows "h = h'"
  using assms by (auto simp: distinct_map inj_on_def)

text \<open>
  The search with a communication finds the candidates that made it, whatever the order in which the
  replay looks at the data.
\<close>

lemma replay_finds:
  assumes dr: "drawn m f channels patterns t xs" "distinct channels" "length patterns = length channels"
    and x: "x = v_comm xs ref peeks v"
    and g: "\<And>ch. set (g ch (vw_data t ch)) = set (f ch (vw_data t ch))" "\<And>ch. distinct (map hash_of (g ch (vw_data t ch)))"
    and home: "\<And>ch e. e \<in> set (f ch (vw_data t ch)) \<Longrightarrow> home (hash_of e) = ch"
  shows "extract_data_candidates (zip channels patterns)
      (v_fetch (\<lambda>ch ds. keep_matching (sv_counter v) x (g ch ds)) channels t) m = map Some xs"
proof -
  have n: "length xs = length channels" using dr(1) by (simp add: drawn_def)
  have "map (\<lambda>x. home (pr_hash (dt_source (cc_datum x)))) xs = channels" using dr(1) home by (rule drawn_homes)
  then have "distinct (map (\<lambda>p. home (pr_hash p)) (cm_produces x))" unfolding x using dr(2) by (rule comm_homes)
  note inj = homes_inj [OF this]
  have "map_option fst (find_matching_data_candidate (channels ! i)
      (keep_matching (sv_counter v) x (g (channels ! i) (vw_data t (channels ! i)))) (patterns ! i) m) = Some (xs ! i)"
    if i: "i < length channels" for i
  proof -
    obtain e where e: "e \<in> set (f (channels ! i) (vw_data t (channels ! i)))" "candidate_from m (patterns ! i) (channels ! i) e (xs ! i)"
      using dr(1) i by (auto simp: drawn_def)
    have h: "hash_of e \<in> hashes_of x"
      unfolding x hashes_of_comm using e(2) i n by (intro image_eqI [of _ _ "xs ! i"]) (simp_all add: candidate_from_def)
    have "keep_matching (sv_counter v) x (g (channels ! i) (vw_data t (channels ! i))) = [e]"
    proof (rule keep_one)
      show "e \<in> set (g (channels ! i) (vw_data t (channels ! i)))" using e(1) g(1) by simp
      show "matches (sv_counter v) x (fst e)" using matches_own h unfolding x by blast
      fix e' assume e': "e' \<in> set (g (channels ! i) (vw_data t (channels ! i)))" "matches (sv_counter v) x (fst e')"
      then have "home (hash_of e') = channels ! i" "hash_of e' \<in> hashes_of x" using home g(1) by (auto simp: matches_iff)
      then show "hash_of e' = hash_of e" using inj h home [OF e(1)] by metis
    qed (rule g(2))
    then show ?thesis using find_one [OF e(2)] by simp
  qed
  then show ?thesis
    unfolding extract_fetched [OF dr(2)] using n dr(3) by (intro nth_equalityI) simp_all
qed

lemma keep_nothing: "(\<And>e. e \<in> set L \<Longrightarrow> hash_of e \<notin> hashes_of x) \<Longrightarrow> keep_matching n x L = []"
  unfolding keep_matching_def filter_empty_conv matches_iff case_prod_beta by blast

lemma replay_misses:
  assumes "distinct channels" "length patterns = length channels" "c \<in> set channels"
    and "keep_matching n x (g c (vw_data t c)) = []"
  shows "None \<in> set (extract_data_candidates (zip channels patterns)
      (v_fetch (\<lambda>ch ds. keep_matching n x (g ch ds)) channels t) m)"
proof -
  obtain i where i: "i < length channels" "channels ! i = c" using assms(3) by (metis in_set_conv_nth)
  then have "(c, patterns ! i) \<in> set (zip channels patterns)" using assms(2) by (force simp: set_zip)
  then show ?thesis unfolding extract_fetched [OF assms(1)] using assms(4) by (force intro: rev_image_eqI)
qed

section \<open>Communications still to come\<close>

text \<open>
  What is known, before the commands \<open>cmds\<close> run on \<open>t\<close>, of a communication they will make: its data lie on
  different channels, its parts are there or will come from the commands, and it waits for a consume
  or a produce that has not run yet.
\<close>

definition late ::
  "('c::linorder, 'p, 'a, 'k) space_env \<Rightarrow> (hash32 \<Rightarrow> 'c) \<Rightarrow> (hash32 \<Rightarrow> 'c list) \<Rightarrow> ('c, 'p, 'a, 'k) command list \<Rightarrow>
   ('c, 'p, 'a, 'k) tuple_view \<Rightarrow> comm \<Rightarrow> bool" where
  "late env home khome cmds t x \<longleftrightarrow>
     distinct (map (\<lambda>p. home (pr_hash p)) (cm_produces x)) \<and>
     (cs_hash (cm_consume x) \<in> set (consume_hashes env cmds) \<or> (\<exists>chs. cs_hash (cm_consume x) \<in> set (cont_hashes t chs))) \<and>
     (\<forall>h \<in> hashes_of x. h \<in> set (produce_hashes env cmds) \<or> (\<exists>c. h \<in> set (data_hashes t c))) \<and>
     (cs_hash (cm_consume x) \<in> set (consume_hashes env cmds) \<or>
      (\<exists>h \<in> hashes_of x. h \<in> set (produce_hashes env cmds) \<and> home h \<in> set (khome (cs_hash (cm_consume x)))))"

lemma indexed_hash: "e \<in> set (indexed_data (vw_data t c)) \<Longrightarrow> hash_of e \<in> set (data_hashes t c)"
  using fst_indexed_data [of "vw_data t c"] by (auto simp: data_hashes_def)

lemma sorted_hash: "e \<in> set (by_produce_hash (indexed_data (vw_data t c))) \<Longrightarrow> hash_of e \<in> set (data_hashes t c)"
  by (simp add: by_produce_hash_def indexed_hash)

lemma in_flight_cases:
  assumes "e \<in> set (with_in_flight c d ch (vw_data t ch))"
  obtains "ch = c" "e = (d, - 1)" | "0 \<le> snd e" "hash_of e \<in> set (data_hashes t ch)"
  using assms sorted_hash [of e t ch] in_indexed_data [of e "vw_data t ch"]
  by (auto simp: with_in_flight_def Let_def by_produce_hash_def split: if_splits)

lemma homed_data: "homed home khome t \<Longrightarrow> h \<in> set (data_hashes t c) \<Longrightarrow> home h = c"
  by (simp add: homed_def)

lemma consume_match_drawn:
  assumes "consume_match env cs ps v = Some xs" "length cs = length ps"
  shows "drawn (se_matcher env) (\<lambda>_ ds. by_produce_hash (indexed_data ds)) cs ps (sv_tuples v) xs"
  using assms unfolding consume_match_def those_eq_map by (intro extract_drawn) simp_all

lemma produce_match_drawn:
  assumes h: "homed home khome (sv_tuples v)" and pc: "produce_match env c a persist v = Some pc"
  shows "drawn (se_matcher env) (with_in_flight c (in_flight_datum env c a persist)) (pc_channels pc)
      (wc_patterns (pc_continuation pc)) (sv_tuples v) (pc_data_candidates pc)"
    and "distinct (pc_channels pc)" "length (wc_patterns (pc_continuation pc)) = length (pc_channels pc)"
    and "khome (cs_hash (wc_source (pc_continuation pc))) = pc_channels pc"
    and "cs_hash (wc_source (pc_continuation pc)) \<in> set (cont_hashes (sv_tuples v) (pc_channels pc))"
proof -
  note c = spec_candidate_Some [OF pc [unfolded produce_match_def]]
  have mem: "pc_continuation pc \<in> set (conts_at (sv_tuples v) (pc_channels pc))"
    using nth_mem [OF c(3)] unfolding c(4) conts_at_def .
  then show d: "distinct (pc_channels pc)" "length (wc_patterns (pc_continuation pc)) = length (pc_channels pc)"
    using h by (auto simp: homed_def)
  show k: "cs_hash (wc_source (pc_continuation pc)) \<in> set (cont_hashes (sv_tuples v) (pc_channels pc))"
    using mem by (simp add: cont_hashes_def)
  then show "khome (cs_hash (wc_source (pc_continuation pc))) = pc_channels pc" using h by (simp add: homed_def)
  show "drawn (se_matcher env) (with_in_flight c (in_flight_datum env c a persist)) (pc_channels pc)
      (wc_patterns (pc_continuation pc)) (sv_tuples v) (pc_data_candidates pc)"
    by (rule extract_drawn [OF c(2) d(2)])
qed

lemma drawn_hashes:
  assumes "drawn m f channels patterns t xs" "h \<in> hashes_of (v_comm xs ref peeks v)"
  obtains ch e where "ch \<in> set channels" "e \<in> set (f ch (vw_data t ch))" "h = hash_of e"
proof -
  obtain x where "x \<in> set xs" "h = pr_hash (dt_source (cc_datum x))" using assms(2) unfolding hashes_of_comm by auto
  then obtain i where i: "i < length xs" "h = pr_hash (dt_source (cc_datum (xs ! i)))" by (metis in_set_conv_nth)
  then have n: "i < length channels" using assms(1) by (simp add: drawn_def)
  then obtain e where "e \<in> set (f (channels ! i) (vw_data t (channels ! i)))" "candidate_from m (patterns ! i) (channels ! i) e (xs ! i)"
    using assms(1) by (auto simp: drawn_def)
  then show thesis using that [of "channels ! i" e] n i(2) by (simp add: candidate_from_def)
qed

lemma consume_comm_late:
  assumes h: "homed home khome (sv_tuples v)" and ok: "home_ok env home khome (Consume cs ps k persist peeks)"
    and xs: "consume_match env cs ps v = Some xs"
  shows "late env home khome [Consume cs ps k persist peeks] (sv_tuples v) (v_comm xs (consume_ref env cs ps k persist) peeks v)"
proof -
  let ?f = "\<lambda>_ ds. by_produce_hash (indexed_data ds)"
  have args: "length cs = length ps" "distinct cs" using ok by simp_all
  note d = consume_match_drawn [OF xs args(1)]
  have "home (hash_of e) = ch" if "e \<in> set (?f ch (vw_data (sv_tuples v) ch))" for ch e
    using homed_data [OF h sorted_hash] that by blast
  with d have "map (\<lambda>x. home (pr_hash (dt_source (cc_datum x)))) xs = cs" by (rule drawn_homes)
  from comm_homes [OF this args(2)] have D: "distinct (map (\<lambda>p. home (pr_hash p)) (cm_produces (v_comm xs (consume_ref env cs ps k persist) peeks v)))" .
  have "\<exists>c. h \<in> set (data_hashes (sv_tuples v) c)" if "h \<in> hashes_of (v_comm xs (consume_ref env cs ps k persist) peeks v)" for h
    using drawn_hashes [OF d that] sorted_hash by metis
  then show ?thesis using D unfolding late_def comm_produces(2) by simp
qed

lemma fair_own:
  assumes d: "drawn m (with_in_flight c dt) channels patterns t xs" and f: "\<exists>x \<in> set xs. cc_datum_index x = - 1"
  shows "c \<in> set channels" "pr_hash (dt_source dt) \<in> hashes_of (v_comm xs ref peeks v)"
proof -
  obtain i where i: "i < length xs" "cc_datum_index (xs ! i) = - 1" using f by (metis in_set_conv_nth)
  then have n: "i < length channels" using d by (simp add: drawn_def)
  then obtain e where e: "e \<in> set (with_in_flight c dt (channels ! i) (vw_data t (channels ! i)))"
      "candidate_from m (patterns ! i) (channels ! i) e (xs ! i)"
    using d by (auto simp: drawn_def)
  have "snd e = - 1" using e(2) i(2) by (simp add: candidate_from_def)
  with e(1) have "channels ! i = c \<and> e = (dt, - 1)" by (auto elim: in_flight_cases)
  then show "c \<in> set channels" "pr_hash (dt_source dt) \<in> hashes_of (v_comm xs ref peeks v)"
    using n e(2) i(1) unfolding hashes_of_comm by (auto simp: candidate_from_def intro!: image_eqI [of _ _ "xs ! i"])
qed

lemma in_flight_home:
  assumes "homed home khome t" "home (pr_hash (dt_source d)) = c" "e \<in> set (with_in_flight c d ch (vw_data t ch))"
  shows "home (hash_of e) = ch"
  using assms(3) homed_data [OF assms(1)] assms(2) by (auto elim!: in_flight_cases)

lemma produce_comm_late:
  assumes h: "homed home khome (sv_tuples v)" and ok: "home_ok env home khome (Produce c a persist)"
    and pc: "produce_match env c a persist v = Some pc" and fair: "fair env (Produce c a persist) v"
  shows "late env home khome [Produce c a persist] (sv_tuples v) (pc_comm pc v')"
proof -
  let ?d = "in_flight_datum env c a persist"
  note p = produce_match_drawn [OF h pc]
  have src: "home (pr_hash (dt_source ?d)) = c" "dt_source ?d = produce_ref env c a persist" using ok by (simp_all add: in_flight_datum_def)
  have "map (\<lambda>x. home (pr_hash (dt_source (cc_datum x)))) (pc_data_candidates pc) = pc_channels pc"
    using p(1) in_flight_home [OF h src(1)] by (rule drawn_homes)
  from comm_homes [OF this p(2)] have D: "distinct (map (\<lambda>q. home (pr_hash q)) (cm_produces (pc_comm pc v')))" unfolding pc_comm_def .
  have "\<exists>x \<in> set (pc_data_candidates pc). cc_datum_index x = - 1" using fair pc by simp
  note own = fair_own [OF p(1) this]
  have "pr_hash (produce_ref env c a persist) \<in> hashes_of (pc_comm pc v')" using own(2) unfolding src(2) pc_comm_def .
  moreover have "home (pr_hash (produce_ref env c a persist)) \<in> set (khome (cs_hash (wc_source (pc_continuation pc))))"
    using own(1) src p(4) by simp
  moreover have "h = pr_hash (produce_ref env c a persist) \<or> (\<exists>ch. h \<in> set (data_hashes (sv_tuples v) ch))"
    if hx: "h \<in> hashes_of (pc_comm pc v')" for h
  proof -
    obtain ch e where "e \<in> set (with_in_flight c ?d ch (vw_data (sv_tuples v) ch))" "h = hash_of e"
      using drawn_hashes [OF p(1) hx [unfolded pc_comm_def]] by blast
    then show ?thesis using src(2) by (auto elim!: in_flight_cases)
  qed
  moreover have "cm_consume (pc_comm pc v') = wc_source (pc_continuation pc)" by (simp add: pc_comm_def comm_produces)
  ultimately show ?thesis using D p(5) unfolding late_def by auto
qed

lemma play_comm_late:
  assumes "homed home khome (sv_tuples v)" "home_ok env home khome c" "fair env c v" "play_comm env c v = Some x"
  shows "late env home khome [c] (sv_tuples v) x"
  using assms(4)
proof (cases c)
  case (Produce ch a persist)
  obtain pc where pc: "produce_match env ch a persist v = Some pc" "x = pc_comm pc (counted env ch a persist v)"
    using assms(4) Produce by auto
  show ?thesis unfolding Produce pc(2) by (rule produce_comm_late [OF assms(1) _ pc(1)]) (use assms(2,3) Produce in simp_all)
next
  case (Consume cs ps k persist peeks)
  obtain xs where xs: "consume_match env cs ps v = Some xs" "x = v_comm xs (consume_ref env cs ps k persist) peeks v"
    using assms(4) Consume by auto
  show ?thesis unfolding Consume xs(2) by (rule consume_comm_late [OF assms(1) _ xs(1)]) (use assms(2) Consume in simp)
qed simp_all

lemma late_earlier:
  assumes l: "late env home khome cs t' x"
    and d: "\<And>ch. set (data_hashes t' ch) \<subseteq> set (data_hashes t ch) \<union> set (produce_hashes env [c])"
    and k: "\<And>chs. set (cont_hashes t' chs) \<subseteq> set (cont_hashes t chs) \<union> set (consume_hashes env [c])"
  shows "late env home khome (c # cs) t x"
  unfolding late_def hashes_Cons [of env c cs]
proof (intro conjI)
  show "distinct (map (\<lambda>p. home (pr_hash p)) (cm_produces x))" using l by (simp add: late_def)
  show "cs_hash (cm_consume x) \<in> set (consume_hashes env [c]) \<union> set (consume_hashes env cs) \<or> (\<exists>chs. cs_hash (cm_consume x) \<in> set (cont_hashes t chs))"
    using l k unfolding late_def by blast
  show "\<forall>h \<in> hashes_of x. h \<in> set (produce_hashes env [c]) \<union> set (produce_hashes env cs) \<or> (\<exists>c. h \<in> set (data_hashes t c))"
    using l d unfolding late_def by blast
  show "cs_hash (cm_consume x) \<in> set (consume_hashes env [c]) \<union> set (consume_hashes env cs) \<or>
      (\<exists>h \<in> hashes_of x. h \<in> set (produce_hashes env [c]) \<union> set (produce_hashes env cs) \<and> home h \<in> set (khome (cs_hash (cm_consume x))))"
    using l unfolding late_def by blast
qed

lemma late_first: "late env home khome [c] t x \<Longrightarrow> late env home khome (c # cs) t x"
  unfolding late_def hashes_Cons [of env c cs] by blast

lemma play_comms_late:
  assumes "homed home khome (sv_tuples v)" "fresh env home khome (sv_tuples v) cmds" "fair_run env cmds v"
    and "x \<in> set (play_comms env cmds v)"
  shows "late env home khome cmds (sv_tuples v) x"
  using assms
proof (induction cmds arbitrary: v)
  case (Cons c cs)
  let ?v = "fst (spec_command env c v)"
  note k = command_keeps_homed [OF Cons.prems(1,2)]
  consider "play_comm env c v = Some x" | "x \<in> set (play_comms env cs ?v)"
    using Cons.prems(4) by (auto split: option.splits)
  then show ?case
  proof cases
    case 1
    then show ?thesis using play_comm_late [OF Cons.prems(1) fresh_head [OF Cons.prems(2)]] Cons.prems(3) late_first by simp
  next
    case 2
    have "late env home khome cs (sv_tuples ?v) x"
      using Cons.IH [OF k(1) command_keeps_fresh [OF Cons.prems(1,2)] _ 2] Cons.prems(3) by simp
    then show ?thesis using k(2,3) by (rule late_earlier)
  qed
qed simp

section \<open>Bindings\<close>

text \<open>The communications of \<open>F\<close> that use the hash, if the hash was logged.\<close>

definition bindings :: "hash32 set \<Rightarrow> (comm \<Rightarrow> hash32 \<Rightarrow> bool) \<Rightarrow> comm list \<Rightarrow> hash32 \<Rightarrow> comm list option" where
  "bindings logged use F h = (let l = filter (\<lambda>x. use x h) F in if l = [] \<or> h \<notin> logged then None else Some l)"

definition by_consume_hash :: "comm \<Rightarrow> hash32 \<Rightarrow> bool" where
  "by_consume_hash x h \<longleftrightarrow> cs_hash (cm_consume x) = h"

definition by_produces_hash :: "comm \<Rightarrow> hash32 \<Rightarrow> bool" where
  "by_produces_hash x h \<longleftrightarrow> h \<in> hashes_of x"

definition bound :: "hash32 set \<Rightarrow> hash32 set \<Rightarrow> replay_data \<Rightarrow> comm list \<Rightarrow> bool" where
  "bound consumes produces rd F \<longleftrightarrow>
     bm_get (rd_by_consume rd) = bindings consumes by_consume_hash F \<and>
     bm_get (rd_by_produce rd) = bindings produces by_produces_hash F"

lemma remove_first_none: "\<forall>y \<in> set l. \<not> q y \<Longrightarrow> remove_first q l = l"
  by (induction l) auto

lemma remove_first_last: "\<forall>y \<in> set l. \<not> q y \<Longrightarrow> q x \<Longrightarrow> remove_first q (l @ [x]) = l"
  by (induction l) auto

lemma bindings_snoc:
  "bindings logged use (F @ [x]) h =
     (if use x h \<and> h \<in> logged then Some (filter (\<lambda>x. use x h) F @ [x]) else bindings logged use F h)"
  by (simp add: bindings_def Let_def)

lemma remove_binding_last:
  assumes "\<forall>y \<in> set F. \<not> comm_eq y x" "use x k" "bm_get m k = bindings logged use (F @ [x]) k \<or> bm_get m k = bindings logged use F k"
  shows "bm_get (remove_binding k x m) = (bm_get m)(k := bindings logged use F k)"
proof -
  have none: "\<forall>y \<in> set (filter (\<lambda>y. use y k) F). \<not> comm_eq y x" using assms(1) by simp
  show ?thesis
    using assms(2,3) remove_first_last [OF none, of x] remove_first_none [OF none]
    by (auto simp: remove_binding_def bindings_snoc Let_def bm_get_remove fun_eq_iff bindings_def split: if_splits)
qed

lemma unbind_bound:
  assumes b: "bound consumes produces rd (F @ [x])" and n: "\<forall>y \<in> set F. \<not> comm_eq y x"
  shows "bound consumes produces (unbind x rd) F"
proof -
  have c: "bm_get (remove_binding (cs_hash (cm_consume x)) x (rd_by_consume rd)) = bindings consumes by_consume_hash F"
    using b remove_binding_last [OF n, of by_consume_hash "cs_hash (cm_consume x)" "rd_by_consume rd" consumes]
    by (auto simp: bound_def fun_eq_iff bindings_snoc by_consume_hash_def)
  let ?rm = "\<lambda>ps m. fold (\<lambda>p. remove_binding (pr_hash p) x) ps m"
  have p: "bm_get (?rm ps m) h = (if h \<in> pr_hash ` set ps then bindings produces by_produces_hash F h else bm_get m h)"
    if "set ps \<subseteq> set (cm_produces x)"
      "\<forall>h. bm_get m h = bindings produces by_produces_hash (F @ [x]) h \<or> bm_get m h = bindings produces by_produces_hash F h" for ps m h
    using that
  proof (induction ps arbitrary: m)
    case (Cons p ps)
    have u: "by_produces_hash x (pr_hash p)" using Cons.prems(1) by (auto simp: by_produces_hash_def)
    have r: "bm_get (remove_binding (pr_hash p) x m) = (bm_get m)(pr_hash p := bindings produces by_produces_hash F (pr_hash p))"
      using n u Cons.prems(2) by (intro remove_binding_last) blast+
    show ?case
      using Cons.IH [of "remove_binding (pr_hash p) x m"] Cons.prems by (auto simp: r)
  qed simp
  have "bm_get (?rm (cm_produces x) (rd_by_produce rd)) = bindings produces by_produces_hash F"
    using p [of "cm_produces x" "rd_by_produce rd"] b
    by (auto simp: bound_def fun_eq_iff bindings_snoc by_produces_hash_def)
  moreover have "unbind x rd = \<lparr>rd_by_consume = remove_binding (cs_hash (cm_consume x)) x (rd_by_consume rd), rd_by_produce = ?rm (cm_produces x) (rd_by_produce rd)\<rparr>"
  proof -
    have "fold (\<lambda>p. remove_produce_binding p x) ps rd' = rd'\<lparr>rd_by_produce := ?rm ps (rd_by_produce rd')\<rparr>" for ps rd'
      by (induction ps arbitrary: rd') (simp_all add: remove_produce_binding_def)
    then show ?thesis by (simp add: unbind_def remove_consume_binding_def)
  qed
  ultimately show ?thesis using c by (simp add: bound_def)
qed

lemma bound_empty: "bound consumes produces rd [] \<Longrightarrow> replay_data_is_empty rd"
proof -
  assume b: "bound consumes produces rd []"
  have "bindings logged use [] = Map.empty" for logged use by (simp add: bindings_def fun_eq_iff)
  then show ?thesis using b by (simp add: bound_def replay_data_is_empty_def)
qed

primrec comms_in :: "event list \<Rightarrow> comm list" where
  "comms_in [] = []"
| "comms_in (e # es) = (case e of EComm x \<Rightarrow> x # comms_in es | _ \<Rightarrow> comms_in es)"

lemma bind_comm_bound:
  assumes b: "bound (set consumes) (set produces) rd F" and d: "distinct (map pr_hash (cm_produces x))"
  shows "bound (set consumes) (set produces) (bind_comm consumes produces x rd) (F @ [x])"
proof -
  let ?f = "\<lambda>p m. if pr_hash p \<in> set produces then bm_entry (pr_hash p) [] (\<lambda>v. v @ [x]) m else m"
  have "bm_get (fold ?f ps m) h = (if h \<in> pr_hash ` set ps \<and> h \<in> set produces then Some (bm_get_or [] m h @ [x]) else bm_get m h)"
    if "distinct (map pr_hash ps)" for ps m h
    using that by (induction ps arbitrary: m) (auto simp: bm_get_or_def)
  from this [OF d, of "rd_by_produce rd"]
  have "bm_get (rd_by_produce (bind_comm consumes produces x rd)) = bindings (set produces) by_produces_hash (F @ [x])"
    using b by (auto simp: bind_comm_def bound_def fun_eq_iff bindings_snoc by_produces_hash_def bm_get_or_def bindings_def Let_def)
  moreover have "bm_get (rd_by_consume (bind_comm consumes produces x rd)) = bindings (set consumes) by_consume_hash (F @ [x])"
    using b by (auto simp: bind_comm_def bound_def fun_eq_iff bindings_snoc by_consume_hash_def bm_get_or_def bindings_def Let_def)
  ultimately show ?thesis by (simp add: bound_def)
qed

lemma build_bound:
  assumes "\<forall>x \<in> set (comms_in log). distinct (map pr_hash (cm_produces x))"
  shows "bound (set (logged_consumes log [])) (set (logged_produces log [])) (build_replay_data log) (comms_in log)"
proof -
  let ?C = "logged_consumes log []" and ?P = "logged_produces log []"
  have "bound (set ?C) (set ?P) (fold (\<lambda>e rd. case e of EComm x \<Rightarrow> bind_comm ?C ?P x rd | _ \<Rightarrow> rd) es rd) (F @ comms_in es)"
    if "bound (set ?C) (set ?P) rd F" "\<forall>x \<in> set (comms_in es). distinct (map pr_hash (cm_produces x))" for es rd F
    using that
  proof (induction es arbitrary: rd F)
    case (Cons e es)
    show ?case
    proof (cases e)
      case (EComm x)
      then show ?thesis using Cons.IH [OF bind_comm_bound [OF Cons.prems(1), of x]] Cons.prems(2) by simp
    qed (use Cons in simp_all)
  qed simp
  moreover have "bound (set ?C) (set ?P) replay_data_default []"
    by (simp add: bound_def replay_data_default_def bindings_def fun_eq_iff)
  ultimately show ?thesis using assms by (fastforce simp: build_replay_data_def Let_def)
qed

lemma set_logged:
  "set (logged_consumes log s) = set s \<union> {cs_hash c |c. EConsume c \<in> set log}"
  "set (logged_produces log s) = set s \<union> {pr_hash p |p. EProduce p \<in> set log}"
  by (induction log arbitrary: s) (auto split: event.splits)

section \<open>One command of the replay\<close>

lemma consume_misses:
  assumes h: "homed home khome (sv_tuples v)" and y: "distinct (map (\<lambda>p. home (pr_hash p)) (cm_produces y))"
    and g: "g \<in> hashes_of y" "home g \<in> set channels" "g \<notin> set (data_hashes (sv_tuples v) (home g))"
    and args: "distinct channels" "length patterns = length channels"
  shows "v_matched_consume m channels patterns v y = None"
proof -
  have "keep_matching (sv_counter v) y (indexed_data (vw_data (sv_tuples v) (home g))) = []"
  proof (rule keep_nothing)
    fix e assume "e \<in> set (indexed_data (vw_data (sv_tuples v) (home g)))"
    from indexed_hash [OF this] have e: "hash_of e \<in> set (data_hashes (sv_tuples v) (home g))" .
    show "hash_of e \<notin> hashes_of y" using homes_inj [OF y _ g(1), of "hash_of e"] homed_data [OF h e] e g(3) by metis
  qed
  from replay_misses [OF args g(2), of _ _ "\<lambda>_. indexed_data", OF this] show ?thesis
    unfolding v_matched_consume_def those_None by blast
qed

lemma candidates_of_hash: "(wc, i) \<in> set (candidates_of x conts) \<Longrightarrow> wc \<in> set conts \<and> cs_hash (wc_source wc) = cs_hash (cm_consume x)"
  by (auto simp: candidates_of_def consume_eq_def in_set_enumerate_eq)

lemma candidates_of_stored:
  assumes "(wc, i) \<in> set (candidates_of x (conts_at t channels))"
  shows "wc \<in> set (conts_at t channels)" "cs_hash (cm_consume x) \<in> set (cont_hashes t channels)"
  using candidates_of_hash [OF assms] image_eqI [of "cs_hash (cm_consume x)" "\<lambda>wc. cs_hash (wc_source wc)" wc "set (conts_at t channels)"]
  by (simp_all add: cont_hashes_def)

lemma join_misses:
  assumes "\<And>wc i. (wc, i) \<in> set (candidates_of y (conts_at (sv_tuples v) channels)) \<Longrightarrow>
    None \<in> set (extract_data_candidates (zip channels (wc_patterns wc))
      (v_fetch (\<lambda>ch ds. keep_matching (sv_counter v) y (with_in_flight_unsorted c d ch ds)) channels (sv_tuples v)) m)"
  shows "v_matched_join m c d y v channels = None"
  unfolding v_matched_join_def extract_first_match_def first_match_None conts_at_def [symmetric] set_sort
  using assms by blast

lemma join_absent:
  assumes "cs_hash (cm_consume y) \<notin> set (cont_hashes (sv_tuples v) channels)"
  shows "v_matched_join m c d y v channels = None"
proof (rule join_misses)
  fix wc i assume "(wc, i) \<in> set (candidates_of y (conts_at (sv_tuples v) channels))"
  from candidates_of_stored(2) [OF this] assms show "None \<in> set (extract_data_candidates (zip channels (wc_patterns wc))
      (v_fetch (\<lambda>ch ds. keep_matching (sv_counter v) y (with_in_flight_unsorted c d ch ds)) channels (sv_tuples v)) m)" by blast
qed

lemma produce_misses:
  assumes h: "homed home khome (sv_tuples v)" and y: "distinct (map (\<lambda>p. home (pr_hash p)) (cm_produces y))"
    and g: "g \<in> hashes_of y" "home g \<in> set (khome (cs_hash (cm_consume y)))" "g \<notin> set (data_hashes (sv_tuples v) (home g))"
    and d: "home (pr_hash (dt_source d)) = c" "pr_hash (dt_source d) \<noteq> g"
  shows "v_matched_join m c d y v channels = None"
proof (rule join_misses)
  fix wc i assume "(wc, i) \<in> set (candidates_of y (conts_at (sv_tuples v) channels))"
  note wc = candidates_of_stored(1) [OF this] and hash = candidates_of_stored(2) [OF this]
  have k: "khome (cs_hash (cm_consume y)) = channels" using h hash by (simp add: homed_def)
  have args: "distinct channels" "length (wc_patterns wc) = length channels" using h wc by (auto simp: homed_def)
  have "keep_matching (sv_counter v) y (with_in_flight_unsorted c d (home g) (vw_data (sv_tuples v) (home g))) = []"
  proof (rule keep_nothing)
    fix e assume "e \<in> set (with_in_flight_unsorted c d (home g) (vw_data (sv_tuples v) (home g)))"
    then consider "home g = c" "e = (d, - 1)" | "hash_of e \<in> set (data_hashes (sv_tuples v) (home g))"
      using indexed_hash [of e] by (fastforce simp: with_in_flight_unsorted_def split: if_splits)
    then show "hash_of e \<notin> hashes_of y"
    proof cases
      case 1
      then show ?thesis using homes_inj [OF y _ g(1), of "hash_of e"] d by auto
    next
      case 2
      then show ?thesis using homes_inj [OF y _ g(1), of "hash_of e"] homed_data [OF h 2] g(3) by metis
    qed
  qed
  then show "None \<in> set (extract_data_candidates (zip channels (wc_patterns wc))
      (v_fetch (\<lambda>ch ds. keep_matching (sv_counter v) y (with_in_flight_unsorted c d ch ds)) channels (sv_tuples v)) m)"
    using g(2) unfolding k by (intro replay_misses [OF args, where c = "home g" and g = "with_in_flight_unsorted c d"])
qed

lemma first_some_None: "(\<And>x. x \<in> set xs \<Longrightarrow> f x = None) \<Longrightarrow> first_some f xs = None"
  by (induction xs) auto

subsection \<open>Consume\<close>

lemma bindings_mem: "bindings logged use F h = Some l \<Longrightarrow> y \<in> set l \<Longrightarrow> y \<in> set F \<and> use y h"
  by (auto simp: bindings_def Let_def split: if_splits)

lemma bindings_last:
  assumes "h \<in> logged" "use x h" "\<And>y. y \<in> set F \<Longrightarrow> \<not> use y h"
  shows "bindings logged use (F @ [x]) h = Some [x]"
  using assms by (auto simp: bindings_snoc filter_empty_conv)

lemma map_hash_indexed: "map hash_of (indexed_data (vw_data t ch)) = data_hashes t ch"
proof -
  have "map hash_of (indexed_data (vw_data t ch)) = map (\<lambda>d. pr_hash (dt_source d)) (map snd (enumerate 0 (vw_data t ch)))"
    unfolding map_map by (simp add: indexed_data_def split_beta comp_def)
  then show ?thesis unfolding map_snd_enumerate data_hashes_def .
qed

lemma replayed_consume_found:
  assumes h: "homed home khome (sv_tuples v)" and ok: "home_ok env home khome (Consume cs ps k persist peeks)"
    and xs: "consume_match env cs ps v = Some xs" and same: "sv_tuples v' = sv_tuples v" "sv_counter v' = sv_counter v"
  shows "v_matched_consume (se_matcher env) cs ps v' (v_comm xs ref peeks v) = Some xs"
proof -
  have args: "length cs = length ps" "distinct cs" using ok by simp_all
  have "extract_data_candidates (zip cs ps)
      (v_fetch (\<lambda>_ ds. keep_matching (sv_counter v) (v_comm xs ref peeks v) (indexed_data ds)) cs (sv_tuples v)) (se_matcher env) = map Some xs"
  proof (rule replay_finds [OF consume_match_drawn [OF xs args(1)] args(2) args(1) [symmetric] refl, where home = home])
    show "distinct (map hash_of (indexed_data (vw_data (sv_tuples v) ch)))" for ch
      using h by (simp add: map_hash_indexed homed_def)
    show "home (hash_of e) = ch" if "e \<in> set (by_produce_hash (indexed_data (vw_data (sv_tuples v) ch)))" for ch e
      using homed_data [OF h sorted_hash [OF that]] .
  qed (simp add: by_produce_hash_def)
  then show ?thesis by (simp add: v_matched_consume_def same those_eq_map)
qed

subsection \<open>Produce\<close>

lemma first_some_only: "x \<in> set xs \<Longrightarrow> f x = Some y \<Longrightarrow> (\<And>z. z \<in> set xs \<Longrightarrow> z \<noteq> x \<Longrightarrow> f z = None) \<Longrightarrow> first_some f xs = Some y"
proof (induction xs)
  case (Cons z zs)
  then show ?case by (cases "z = x") auto
qed simp

lemma filter_enumerate_empty: "(\<And>w. w \<in> set ws \<Longrightarrow> \<not> q w) \<Longrightarrow> filter (\<lambda>(j, w). q w) (enumerate n ws) = []"
  by (induction ws arbitrary: n) simp_all

lemma candidates_of_one:
  assumes "i < length conts" "conts ! i = wc" "cs_hash (wc_source wc) = cs_hash (cm_consume x)"
    and d: "distinct (map (\<lambda>wc. cs_hash (wc_source wc)) conts)"
  shows "candidates_of x conts = [(wc, i)]"
proof -
  have split: "conts = take i conts @ wc # drop (Suc i) conts" using assms(1,2) id_take_nth_drop by metis
  have "cs_hash (cm_consume x) \<noteq> cs_hash (wc_source w)" if "w \<in> set (take i conts) \<union> set (drop (Suc i) conts)" for w
    using d that assms(3) by (subst (asm) split) (auto simp: image_iff)
  then have "filter (\<lambda>(j, w). cs_hash (cm_consume x) = cs_hash (wc_source w)) (enumerate n (take i conts)) = []"
    "filter (\<lambda>(j, w). cs_hash (cm_consume x) = cs_hash (wc_source w)) (enumerate n (drop (Suc i) conts)) = []" for n
    by (intro filter_enumerate_empty; blast)+
  then show ?thesis
    unfolding candidates_of_def consume_eq_def by (subst split) (use assms(1,3) in \<open>simp add: enumerate_append_eq\<close>)
qed

lemma set_unsorted: "set (with_in_flight_unsorted c d ch ds) = set (with_in_flight c d ch ds)"
  by (simp add: with_in_flight_unsorted_def with_in_flight_def by_produce_hash_def Let_def)

lemma unsorted_hashes:
  assumes "homed home khome t" "pr_hash (dt_source d) \<notin> set (data_hashes t c)"
  shows "distinct (map hash_of (with_in_flight_unsorted c d ch (vw_data t ch)))"
  using assms by (simp add: with_in_flight_unsorted_def map_hash_indexed homed_def)

lemma replayed_join_found:
  assumes h: "homed home khome (sv_tuples v)" and ok: "home_ok env home khome (Produce c a persist)"
    and pc: "produce_match env c a persist v = Some pc"
    and new: "pr_hash (produce_ref env c a persist) \<notin> set (data_hashes (sv_tuples v) c)" and same: "sv_tuples v' = sv_tuples v"
  shows "v_matched_join (se_matcher env) c (in_flight_datum env c a persist) (pc_comm pc v') v' (pc_channels pc) = Some pc"
proof -
  let ?d = "in_flight_datum env c a persist" and ?x = "pc_comm pc v'" and ?wc = "pc_continuation pc"
  note dr = produce_match_drawn [OF h pc] and cand = spec_candidate_Some [OF pc [unfolded produce_match_def]]
  have src: "home (pr_hash (dt_source ?d)) = c" "dt_source ?d = produce_ref env c a persist" using ok by (simp_all add: in_flight_datum_def)
  have hash: "cs_hash (wc_source ?wc) = cs_hash (cm_consume ?x)" by (simp add: pc_comm_def comm_produces)
  have "distinct (map (\<lambda>wc. cs_hash (wc_source wc)) (snd (v_get_continuations (pc_channels pc) (sv_tuples v))))"
    using h by (simp add: homed_def cont_hashes_def conts_at_def)
  note one = candidates_of_one [OF cand(3,4) hash this]
  have "extract_data_candidates (zip (pc_channels pc) (wc_patterns ?wc))
      (v_fetch (\<lambda>ch ds. keep_matching (sv_counter v') ?x (with_in_flight_unsorted c ?d ch ds)) (pc_channels pc) (sv_tuples v))
      (se_matcher env) = map Some (pc_data_candidates pc)"
    using unsorted_hashes [OF h, of ?d c] new in_flight_home [OF h src(1)] unfolding src(2)
    by (intro replay_finds [OF dr(1-3) pc_comm_def, where home = home] set_unsorted) blast+
  then show ?thesis unfolding v_matched_join_def same one extract_first_match_def by simp
qed

lemma replayed_produce_found:
  assumes h: "homed home khome (sv_tuples v)" and ok: "home_ok env home khome (Produce c a persist)"
    and pc: "produce_match env c a persist v = Some pc"
    and new: "pr_hash (produce_ref env c a persist) \<notin> set (data_hashes (sv_tuples v) c)" and same: "sv_tuples v' = sv_tuples v"
  shows "first_some (v_matched_join (se_matcher env) c (in_flight_datum env c a persist) (pc_comm pc v') v')
    (snd (v_get_joins c (sv_tuples v))) = Some pc"
proof (rule first_some_only [where x = "pc_channels pc"])
  show "v_matched_join (se_matcher env) c (in_flight_datum env c a persist) (pc_comm pc v') v' (pc_channels pc) = Some pc"
    by (rule replayed_join_found [OF h ok pc new same])
  show "pc_channels pc \<in> set (snd (v_get_joins c (sv_tuples v)))" by (rule spec_candidate_Some(1) [OF pc [unfolded produce_match_def]])
  fix chs assume "chs \<noteq> pc_channels pc"
  moreover have "khome (cs_hash (cm_consume (pc_comm pc v'))) = pc_channels pc"
    using produce_match_drawn(4) [OF h pc] by (simp add: pc_comm_def comm_produces)
  ultimately have "cs_hash (cm_consume (pc_comm pc v')) \<notin> set (cont_hashes (sv_tuples v') chs)"
    using h same unfolding homed_def by metis
  then show "v_matched_join (se_matcher env) c (in_flight_datum env c a persist) (pc_comm pc v') v' chs = None" by (rule join_absent)
qed

subsection \<open>The steps\<close>

lemma replay_stores:
  assumes "\<And>comms y chs. comms_for_produce rd (produce_ref env c a persist) = Some comms \<Longrightarrow> y \<in> set comms \<Longrightarrow>
    v_matched_join (se_matcher env) c (in_flight_datum env c a persist) y (counted env c a persist v) chs = None"
  shows "spec_replay env (Produce c a persist) (v, rd) =
    (((counted env c a persist v)\<lparr>sv_tuples := fst (v_put_datum c (in_flight_datum env c a persist) (sv_tuples v))\<rparr>, rd), Inr (Acted None))"
proof -
  let ?f = "\<lambda>y. first_some (v_matched_join (se_matcher env) c (in_flight_datum env c a persist) y (counted env c a persist v))
    (snd (v_get_joins c (sv_tuples v)))"
  have n: "first_some (\<lambda>y. map_option (Pair y) (?f y)) comms = None"
    if "comms_for_produce rd (produce_ref env c a persist) = Some comms" for comms
    using assms [OF that] by (intro first_some_None) (simp add: first_some_None)
  have "(if persist then id else v_count (produce_ref env c a persist)) v = counted env c a persist v"
    "sv_tuples (counted env c a persist v) = sv_tuples v" by (simp_all add: counted_def v_count_def)
  then show ?thesis
    using n by (cases "comms_for_produce rd (produce_ref env c a persist)")
      (simp_all add: spec_replay_produce_def Let_def in_flight_datum_def)
qed

lemma replay_fires:
  assumes "comms_for_produce rd (produce_ref env c a persist) = Some [x]" "x = pc_comm pc (counted env c a persist v)"
    and "first_some (v_matched_join (se_matcher env) c (in_flight_datum env c a persist) x (counted env c a persist v))
      (snd (v_get_joins c (sv_tuples v))) = Some pc"
  shows "spec_replay env (Produce c a persist) (v, rd) =
    (((counted env c a persist v)\<lparr>sv_tuples := v_fire pc (sv_tuples v)\<rparr>, unbind x rd),
     Inr (Acted (wrap_result (pc_channels pc) (pc_continuation pc) (pc_data_candidates pc))))"
proof -
  have "(if persist then id else v_count (produce_ref env c a persist)) v = counted env c a persist v"
    "sv_tuples (counted env c a persist v) = sv_tuples v" by (simp_all add: counted_def v_count_def)
  moreover have "in_trace [x] (pc_comm pc (counted env c a persist v))" by (simp add: assms(2) in_trace_def comm_eq_def)
  ultimately show ?thesis
    using assms by (simp add: spec_replay_produce_def Let_def in_flight_datum_def pc_comm_def)
qed

lemma replay_waits:
  assumes "cs \<noteq> []" "length cs = length ps"
    and "\<And>comms y. comms_for_consume rd (consume_ref env cs ps k persist) = Some comms \<Longrightarrow> y \<in> set comms \<Longrightarrow>
      v_matched_consume (se_matcher env) cs ps v y = None"
  shows "spec_replay env (Consume cs ps k persist peeks) (v, rd) =
    ((v\<lparr>sv_tuples := v_wait cs (the_continuation ps k persist peeks (consume_ref env cs ps k persist)) (sv_tuples v)\<rparr>, rd), Inr (Acted None))"
proof -
  have "first_some (\<lambda>y. map_option (Pair y) (v_matched_consume (se_matcher env) cs ps v y)) comms = None"
    if "comms_for_consume rd (consume_ref env cs ps k persist) = Some comms" for comms
    using assms(3) [OF that] by (intro first_some_None) simp
  then show ?thesis
    using assms(1,2) by (cases "comms_for_consume rd (consume_ref env cs ps k persist)") (simp_all add: spec_replay_consume_def)
qed

lemma replay_takes:
  assumes "cs \<noteq> []" "length cs = length ps"
    and "comms_for_consume rd (consume_ref env cs ps k persist) = Some [x]" "x = v_comm xs (consume_ref env cs ps k persist) peeks v"
    and "v_matched_consume (se_matcher env) cs ps v x = Some xs"
  shows "spec_replay env (Consume cs ps k persist peeks) (v, rd) =
    ((v\<lparr>sv_tuples := v_take xs (sv_tuples v)\<rparr>, unbind x rd),
     Inr (Acted (wrap_result cs (the_continuation ps k persist peeks (consume_ref env cs ps k persist)) xs)))"
proof -
  have "in_trace [x] (v_comm xs (consume_ref env cs ps k persist) peeks v)" by (simp add: assms(4) in_trace_def comm_eq_def)
  then show ?thesis using assms by (simp add: spec_replay_consume_def)
qed

definition same_space :: "('c, 'p, 'a, 'k) space_view \<Rightarrow> ('c, 'p, 'a, 'k) space_view \<Rightarrow> bool" where
  "same_space v v' \<longleftrightarrow> sv_tuples v' = sv_tuples v \<and> sv_counter v' = sv_counter v \<and> sv_native v' = sv_native v"

lemma same_comms:
  assumes "same_space v v'"
  shows "v_comm xs ref peeks v' = v_comm xs ref peeks v" "same_space (counted env c a persist v) (counted env c a persist v')"
    "sv_tuples (counted env c a persist v) = sv_tuples v" "pc_comm pc v' = pc_comm pc v"
  using assms by (simp_all add: same_space_def v_comm_def counted_def v_count_def pc_comm_def)

lemma not_comm_eq:
  "cs_hash (cm_consume y) \<noteq> cs_hash (cm_consume x) \<Longrightarrow> \<not> comm_eq y x"
  "h \<in> hashes_of x \<Longrightarrow> h \<notin> hashes_of y \<Longrightarrow> \<not> comm_eq y x"
proof -
  have "hashes_of y = hashes_of x" if "comm_eq y x"
  proof -
    have "list_all2 (\<lambda>p q. pr_hash p = pr_hash q) (cm_produces y) (cm_produces x)"
      using that by (auto simp: comm_eq_def produce_eq_def elim: list_all2_mono)
    then have "map pr_hash (cm_produces y) = map pr_hash (cm_produces x)" by (simp add: list_all2_map2 list_all2_map1 flip: list.rel_eq)
    then show ?thesis by (metis set_map)
  qed
  then show "h \<in> hashes_of x \<Longrightarrow> h \<notin> hashes_of y \<Longrightarrow> \<not> comm_eq y x" by blast
qed (simp add: comm_eq_def consume_eq_def)

lemma late_parts:
  assumes "late env home khome cs t y"
  shows "cs_hash (cm_consume y) \<in> set (consume_hashes env cs) \<or> (\<exists>chs. cs_hash (cm_consume y) \<in> set (cont_hashes t chs))"
    and "h \<in> hashes_of y \<Longrightarrow> h \<in> set (produce_hashes env cs) \<or> (\<exists>c. h \<in> set (data_hashes t c))"
    and "cs_hash (cm_consume y) \<in> set (consume_hashes env cs) \<or>
      (\<exists>h \<in> hashes_of y. h \<in> set (produce_hashes env cs) \<and> home h \<in> set (khome (cs_hash (cm_consume y))))"
    and "distinct (map (\<lambda>p. home (pr_hash p)) (cm_produces y))"
  using assms unfolding late_def by blast+

lemma consume_step:
  fixes v v' :: "('c::linorder, 'p, 'a, 'k) space_view"
  assumes c_def: "c = Consume ks ps k persist peeks" and F_def: "F = play_comms env cs (fst (spec_command env c v))"
    and h: "homed home khome (sv_tuples v)" and f: "fresh env home khome (sv_tuples v) (c # cs)" and same: "same_space v v'"
    and late: "\<forall>y \<in> set F. late env home khome cs (sv_tuples (fst (spec_command env c v))) y"
    and b: "bound C P rd (play_comms env (c # cs) v)" and C: "cs_hash (consume_ref env ks ps k persist) \<in> C"
  shows "\<exists>v1 rd1. spec_replay env c (v', rd) = ((v1, rd1), snd (spec_command env c v)) \<and>
    same_space (fst (spec_command env c v)) v1 \<and> bound C P rd1 F"
proof -
  let ?ref = "consume_ref env ks ps k persist"
  note ok = fresh_head [OF f, unfolded c_def] and new = fresh_consume [OF f [unfolded c_def]]
  have args: "ks \<noteq> []" "length ks = length ps" "distinct ks" "khome (cs_hash ?ref) = ks" using ok by simp_all
  note out = spec_consume_cases [OF args(1,2), of env k persist peeks v]
  show ?thesis
  proof (cases "consume_match env ks ps v")
    case None
    have bF: "bound C P rd F" using b None by (simp add: c_def F_def)
    have "v_matched_consume (se_matcher env) ks ps v' y = None"
      if y: "comms_for_consume rd ?ref = Some comms" "y \<in> set comms" for comms y
    proof -
      have yF: "y \<in> set F" "cs_hash (cm_consume y) = cs_hash ?ref"
        using bindings_mem [of C by_consume_hash F "cs_hash ?ref" comms y] y bF
        by (simp_all add: bound_def comms_for_consume_def by_consume_hash_def)
      from late_parts(3) [OF bspec [OF late yF(1)]] obtain g where
        g: "g \<in> hashes_of y" "g \<in> set (produce_hashes env cs)" "home g \<in> set ks"
        unfolding yF(2) args(4) using new(2) by blast
      have D: "distinct (map (\<lambda>p. home (pr_hash p)) (cm_produces y))" using late yF(1) by (simp add: late_def)
      have "g \<notin> set (data_hashes (sv_tuples v') (home g))"
        using fresh_parts(3) [OF f] g(2) same by (auto simp: same_space_def)
      then show ?thesis
        using h same g args by (intro consume_misses [OF _ D]) (simp_all add: same_space_def)
    qed
    from replay_waits [OF args(1,2) this] show ?thesis
      using same bF None by (simp add: c_def out same_space_def del: spec_command.simps spec_replay.simps)
  next
    case (Some xs)
    let ?x = "v_comm xs ?ref peeks v"
    have bF: "bound C P rd (F @ [?x])" using b Some by (simp add: c_def F_def)
    have no: "cs_hash (cm_consume y) \<noteq> cs_hash ?ref" if "y \<in> set F" for y
    proof -
      have "set (cont_hashes (sv_tuples (fst (spec_command env c v))) chs) \<subseteq> set (cont_hashes (sv_tuples v) chs)" for chs
        using thinned_hashes(2) [OF take_thinned] by (simp add: c_def out Some del: spec_command.simps)
      then have "cs_hash (cm_consume y) \<in> set (consume_hashes env cs) \<or> (\<exists>chs. cs_hash (cm_consume y) \<in> set (cont_hashes (sv_tuples v) chs))"
        using late_parts(1) [OF bspec [OF late that]] by blast
      then show ?thesis using new by auto
    qed
    have "bindings C by_consume_hash (F @ [?x]) (cs_hash ?ref) = Some [?x]"
      using C no by (intro bindings_last) (simp_all add: by_consume_hash_def comm_produces)
    then have "comms_for_consume rd ?ref = Some [?x]" using bF by (simp add: bound_def comms_for_consume_def)
    moreover have "v_matched_consume (se_matcher env) ks ps v' ?x = Some xs"
      using same by (intro replayed_consume_found [OF h ok Some]) (simp_all add: same_space_def)
    ultimately have "spec_replay env c (v', rd) = ((v'\<lparr>sv_tuples := v_take xs (sv_tuples v')\<rparr>, unbind ?x rd),
        Inr (Acted (wrap_result ks (the_continuation ps k persist peeks ?ref) xs)))"
      unfolding c_def by (intro replay_takes [OF args(1,2)]) (simp_all only: same_comms [OF same])
    moreover have "bound C P (unbind ?x rd) F"
      using no by (intro unbind_bound [OF bF]) (simp add: not_comm_eq comm_produces)
    ultimately show ?thesis using same Some by (simp add: c_def out same_space_def del: spec_command.simps spec_replay.simps)
  qed
qed

lemma produce_step_misses:
  assumes h: "homed home khome (sv_tuples v)" and f: "fresh env home khome (sv_tuples v) (Produce ch a persist # cs)"
    and y: "late env home khome cs t y" "pr_hash (produce_ref env ch a persist) \<in> hashes_of y"
  shows "v_matched_join m ch (in_flight_datum env ch a persist) y v chs = None"
proof -
  let ?p = "produce_ref env ch a persist"
  have src: "home (pr_hash (dt_source (in_flight_datum env ch a persist))) = ch" "dt_source (in_flight_datum env ch a persist) = ?p"
    using fresh_head [OF f] by (simp_all add: in_flight_datum_def)
  have D: "distinct (map (\<lambda>p. home (pr_hash p)) (cm_produces y))" using y(1) by (simp add: late_def)
  from late_parts(3) [OF y(1)] consider "cs_hash (cm_consume y) \<in> set (consume_hashes env cs)"
    | g where "g \<in> hashes_of y" "g \<in> set (produce_hashes env cs)" "home g \<in> set (khome (cs_hash (cm_consume y)))"
    by blast
  then show ?thesis
  proof cases
    case 1
    then show ?thesis using fresh_parts(4) [OF f] by (intro join_absent) auto
  next
    case 2
    have "g \<notin> set (data_hashes (sv_tuples v) (home g))" using fresh_parts(3) [OF f] 2(2) by auto
    moreover have "pr_hash (dt_source (in_flight_datum env ch a persist)) \<noteq> g" using fresh_produce(2) [OF f] 2(2) src(2) by metis
    ultimately show ?thesis by (intro produce_misses [OF h D 2(1,3)] src(1))
  qed
qed

lemma produce_step:
  fixes v v' :: "('c::linorder, 'p, 'a, 'k) space_view"
  assumes c_def: "c = Produce ch a persist" and F_def: "F = play_comms env cs (fst (spec_command env c v))"
    and h: "homed home khome (sv_tuples v)" and f: "fresh env home khome (sv_tuples v) (c # cs)" and same: "same_space v v'"
    and fair: "fair env c v"
    and late: "\<forall>y \<in> set F. late env home khome cs (sv_tuples (fst (spec_command env c v))) y"
    and b: "bound C P rd (play_comms env (c # cs) v)" and P: "pr_hash (produce_ref env ch a persist) \<in> P"
  shows "\<exists>v1 rd1. spec_replay env c (v', rd) = ((v1, rd1), snd (spec_command env c v)) \<and>
    same_space (fst (spec_command env c v)) v1 \<and> bound C P rd1 F"
proof -
  let ?p = "produce_ref env ch a persist" and ?v = "counted env ch a persist v" and ?v' = "counted env ch a persist v'"
  note ok = fresh_head [OF f, unfolded c_def] and new = fresh_produce [OF f [unfolded c_def]]
  note out = spec_produce_cases [of env ch a persist v] and s = same_comms [OF same] and s' = same_comms [OF same_comms(2) [OF same, of env ch a persist]]
  have t': "sv_tuples ?v' = sv_tuples v" using s(2,3) by (simp add: same_space_def)
  show ?thesis
  proof (cases "produce_match env ch a persist v")
    case None
    have bF: "bound C P rd F" using b None by (simp add: c_def F_def)
    have "v_matched_join (se_matcher env) ch (in_flight_datum env ch a persist) y ?v' chs = None"
      if y: "comms_for_produce rd ?p = Some comms" "y \<in> set comms" for comms y chs
    proof -
      have yF: "y \<in> set F" "pr_hash ?p \<in> hashes_of y"
        using bindings_mem [of P by_produces_hash F "pr_hash ?p" comms y] y bF
        by (simp_all add: bound_def comms_for_produce_def by_produces_hash_def)
      show ?thesis
        using h f unfolding c_def t' [symmetric] by (rule produce_step_misses [OF _ _ bspec [OF late yF(1)] yF(2)])
    qed
    from replay_stores [OF this] show ?thesis
      using same s(2) bF None by (simp add: c_def out same_space_def counted_def v_count_def del: spec_command.simps spec_replay.simps)
  next
    case (Some pc)
    let ?x = "pc_comm pc ?v"
    have bF: "bound C P rd (F @ [?x])" using b Some by (simp add: c_def F_def)
    have own: "pr_hash ?p \<in> hashes_of ?x"
      using fair_own(2) [OF produce_match_drawn(1) [OF h Some]] fair Some unfolding c_def pc_comm_def by (simp add: in_flight_datum_def)
    have no: "pr_hash ?p \<notin> hashes_of y" if "y \<in> set F" for y
    proof -
      have "set (data_hashes (sv_tuples (fst (spec_command env c v))) ch') \<subseteq> set (data_hashes (sv_tuples v) ch')" for ch'
        using thinned_hashes(1) [OF fire_thinned] by (simp add: c_def out Some del: spec_command.simps)
      then show ?thesis using late_parts(2) [OF bspec [OF late that]] new by blast
    qed
    have "bindings P by_produces_hash (F @ [?x]) (pr_hash ?p) = Some [?x]"
      using P no own by (intro bindings_last) (simp_all add: by_produces_hash_def)
    then have "comms_for_produce rd ?p = Some [?x]" using bF by (simp add: bound_def comms_for_produce_def)
    moreover have "first_some (v_matched_join (se_matcher env) ch (in_flight_datum env ch a persist) ?x ?v')
        (snd (v_get_joins ch (sv_tuples v'))) = Some pc"
      using replayed_produce_found [OF h ok Some new(1) t'] same unfolding s'(4) by (simp add: same_space_def)
    ultimately have "spec_replay env c (v', rd) = ((?v'\<lparr>sv_tuples := v_fire pc (sv_tuples v')\<rparr>, unbind ?x rd),
        Inr (Acted (wrap_result (pc_channels pc) (pc_continuation pc) (pc_data_candidates pc))))"
      unfolding c_def by (intro replay_fires) (simp_all only: s'(4))
    moreover have "bound C P (unbind ?x rd) F"
      using no not_comm_eq(2) [OF own] by (intro unbind_bound [OF bF]) blast
    ultimately show ?thesis
      using same s(2) Some by (simp add: c_def out same_space_def counted_def v_count_def del: spec_command.simps spec_replay.simps)
  qed
qed

lemma replay_step:
  assumes h: "homed home khome (sv_tuples v)" and f: "fresh env home khome (sv_tuples v) (c # cs)" and same: "same_space v v'"
    and fair: "fair_run env (c # cs) v" and b: "bound C P rd (play_comms env (c # cs) v)"
    and logged: "set (consume_hashes env (c # cs)) \<subseteq> C" "set (produce_hashes env (c # cs)) \<subseteq> P"
  shows "\<exists>v1 rd1. spec_replay env c (v', rd) = ((v1, rd1), snd (spec_command env c v)) \<and>
    same_space (fst (spec_command env c v)) v1 \<and> bound C P rd1 (play_comms env cs (fst (spec_command env c v)))"
proof -
  have late: "\<forall>y \<in> set (play_comms env cs (fst (spec_command env c v))). late env home khome cs (sv_tuples (fst (spec_command env c v))) y"
    using play_comms_late [OF command_keeps_homed(1) [OF h f] command_keeps_fresh [OF h f]] fair by simp
  have fair_c: "fair env c v" using fair by simp
  show ?thesis
  proof (cases c)
    case (Produce ch a persist)
    have "pr_hash (produce_ref env ch a persist) \<in> P" using logged(2) Produce by simp
    then show ?thesis by (rule produce_step [OF Produce refl h f same fair_c late b])
  next
    case (Consume ks ps k persist peeks)
    have "cs_hash (consume_ref env ks ps k persist) \<in> C" using logged(1) Consume by simp
    then show ?thesis by (rule consume_step [OF Consume refl h f same late b])
  next
    case (Install ks ps k)
    then show ?thesis using fresh_head [OF f] by simp
  qed (use same b in \<open>auto simp: same_space_def on_view_def split_beta succeeds_def\<close>)
qed

section \<open>The law\<close>

lemma command_log:
  assumes "home_ok env home khome c"
  shows "comms_in (sv_log (fst (spec_command env c v))) = (case play_comm env c v of None \<Rightarrow> [] | Some x \<Rightarrow> [x]) @ comms_in (sv_log v)"
    and "set (sv_log v) \<subseteq> set (sv_log (fst (spec_command env c v)))"
    and "h \<in> set (consume_hashes env [c]) \<Longrightarrow> \<exists>k. h = cs_hash k \<and> EConsume k \<in> set (sv_log (fst (spec_command env c v)))"
    and "h \<in> set (produce_hashes env [c]) \<Longrightarrow> \<exists>p. h = pr_hash p \<and> EProduce p \<in> set (sv_log (fst (spec_command env c v)))"
  using assms
  by (cases c; auto simp: succeeds_def spec_produce_def spec_consume_def consume_match_def produce_match_def in_flight_datum_def
      pc_comm_def counted_def v_log_def v_count_def v_comm_def Let_def split: option.splits)+

lemma run_log:
  assumes "homed home khome (sv_tuples v)" "fresh env home khome (sv_tuples v) cmds"
  defines "log \<equiv> sv_log (fst (run_all (spec_command env) cmds v))"
  shows "comms_in log = play_comms env cmds v @ comms_in (sv_log v)" "set (sv_log v) \<subseteq> set log"
    and "set (consume_hashes env cmds) \<subseteq> {cs_hash c |c. EConsume c \<in> set log}"
    and "set (produce_hashes env cmds) \<subseteq> {pr_hash p |p. EProduce p \<in> set log}"
proof -
  have "comms_in (sv_log (fst (run_all (spec_command env) cmds v))) = play_comms env cmds v @ comms_in (sv_log v) \<and>
      set (sv_log v) \<subseteq> set (sv_log (fst (run_all (spec_command env) cmds v))) \<and>
      set (consume_hashes env cmds) \<subseteq> {cs_hash c |c. EConsume c \<in> set (sv_log (fst (run_all (spec_command env) cmds v)))} \<and>
      set (produce_hashes env cmds) \<subseteq> {pr_hash p |p. EProduce p \<in> set (sv_log (fst (run_all (spec_command env) cmds v)))}"
    using assms(1,2)
  proof (induction cmds arbitrary: v)
    case (Cons c cs)
    let ?v = "fst (spec_command env c v)"
    have run: "fst (run_all (spec_command env) (c # cs) v) = fst (run_all (spec_command env) cs ?v)" by (simp add: split_beta Let_def)
    note l = command_log [OF fresh_head [OF Cons.prems(2)], where v = v]
    note IH = Cons.IH [OF command_keeps_homed(1) [OF Cons.prems] command_keeps_fresh [OF Cons.prems]]
    have "set (sv_log v) \<subseteq> set (sv_log (fst (run_all (spec_command env) cs ?v)))" using l(2) IH by blast
    moreover have "set (consume_hashes env (c # cs)) \<subseteq> {cs_hash c |c. EConsume c \<in> set (sv_log (fst (run_all (spec_command env) cs ?v)))}"
      using l(3) IH unfolding hashes_Cons [of env c cs] by blast
    moreover have "set (produce_hashes env (c # cs)) \<subseteq> {pr_hash p |p. EProduce p \<in> set (sv_log (fst (run_all (spec_command env) cs ?v)))}"
      using l(4) IH unfolding hashes_Cons [of env c cs] by blast
    ultimately show ?case unfolding run using l(1) IH by (simp del: produce_hashes.simps consume_hashes.simps)
  qed simp
  then show "comms_in log = play_comms env cmds v @ comms_in (sv_log v)" "set (sv_log v) \<subseteq> set log"
    "set (consume_hashes env cmds) \<subseteq> {cs_hash c |c. EConsume c \<in> set log}"
    "set (produce_hashes env cmds) \<subseteq> {pr_hash p |p. EProduce p \<in> set log}"
    unfolding log_def by blast+
qed

lemma replay_run:
  assumes "homed home khome (sv_tuples v)" "fresh env home khome (sv_tuples v) cmds" "same_space v v'" "fair_run env cmds v"
    and "bound C P rd (play_comms env cmds v)" "set (consume_hashes env cmds) \<subseteq> C" "set (produce_hashes env cmds) \<subseteq> P"
  shows "\<exists>v1 rd1. run_all (spec_replay env) cmds (v', rd) = ((v1, rd1), snd (run_all (spec_command env) cmds v)) \<and>
    same_space (fst (run_all (spec_command env) cmds v)) v1 \<and> bound C P rd1 []"
  using assms
proof (induction cmds arbitrary: v v' rd)
  case (Cons c cs)
  let ?v = "fst (spec_command env c v)"
  obtain v1 rd1 where step: "spec_replay env c (v', rd) = ((v1, rd1), snd (spec_command env c v))"
    and s: "same_space ?v v1" and b: "bound C P rd1 (play_comms env cs ?v)"
    using replay_step [OF Cons.prems] by blast
  have rest: "fair_run env cs ?v" "set (consume_hashes env cs) \<subseteq> C" "set (produce_hashes env cs) \<subseteq> P"
    using Cons.prems(4,6,7) by simp_all
  from Cons.IH [OF command_keeps_homed(1) [OF Cons.prems(1,2)] command_keeps_fresh [OF Cons.prems(1,2)] s rest(1) b rest(2,3)]
  show ?case by (auto simp: step split_beta Let_def simp del: spec_replay.simps spec_command.simps)
qed simp

text \<open>
  C1: Replay determinism: take a play of produces, consumes and native writes, with hashes that tell the
  commands and the stored data and continuations apart, joins on distinct channels, and every produce
  that fires using its own datum. The replay space rigged with the play's event log and started from the
  same tuples and produce counters returns the same results for the same commands, ends with the same
  tuple space and the same native store, and has used up every recorded communication, so that
  \<^verbatim>\<open>check_replay_data\<close> accepts.
\<close>

theorem replay_reproduces_play:
  assumes "space_ok r rs" "replay_ok r' rr" "same_space (view_of rs) (view_of (rr_space rr))" "rs_event_log rs = []"
    and "homed home khome (store_view (rs_store rs))" "fresh env home khome (store_view (rs_store rs)) cmds"
    and "fair_run env cmds (view_of rs)"
    and play: "run_all (run_command env) cmds rs = (rs1, results)"
    and replay: "run_all (run_replay env) cmds (rig (rs_event_log rs1) rr) = (rr1, results')"
  shows "results' = results \<and> store_view (rs_store (rr_space rr1)) = store_view (rs_store rs1) \<and>
    rs_native (rr_space rr1) = rs_native rs1 \<and> check_replay_data rr1 = Inr ()"
proof -
  let ?v = "view_of rs" and ?log = "rs_event_log rs1"
  have h: "homed home khome (sv_tuples ?v)" and f: "fresh env home khome (sv_tuples ?v) cmds" using assms(5,6) by (simp_all add: view_of_def)
  have v1: "view_of rs1 = fst (run_all (spec_command env) cmds ?v)" "results = snd (run_all (spec_command env) cmds ?v)"
    using space.runs_view [OF assms(1), of env cmds] space.runs_results [OF assms(1), of env cmds] play by simp_all
  have log: "?log = sv_log (fst (run_all (spec_command env) cmds ?v))" unfolding v1(1) [symmetric] by (simp add: view_of_def)
  note l = run_log [OF h f, folded log]
  have comms: "comms_in ?log = play_comms env cmds ?v" using l(1) assms(4) by (simp add: view_of_def)
  have "distinct (map pr_hash (cm_produces x))" if "x \<in> set (comms_in ?log)" for x
    using play_comms_late [OF h f assms(7)] that unfolding comms late_def distinct_map by (auto simp: inj_on_def)
  then have b: "bound (set (logged_consumes ?log [])) (set (logged_produces ?log [])) (build_replay_data ?log) (play_comms env cmds ?v)"
    using build_bound [of ?log] comms by simp
  obtain w rd1 where r: "run_all (spec_replay env) cmds (view_of (rr_space rr), build_replay_data ?log) = ((w, rd1), results)"
      "same_space (view_of rs1) w" "bound (set (logged_consumes ?log [])) (set (logged_produces ?log [])) rd1 []"
    using replay_run [OF h f assms(3,7) b] l(3,4) unfolding set_logged v1 by auto
  have "replay_ok r' (rig ?log rr)" "replay_view (rig ?log rr) = (view_of (rr_space rr), build_replay_data ?log)"
    using assms(2) by (simp_all add: replay_ok_def replay_view_def rig_def)
  then have "replay_view rr1 = (w, rd1)" "results' = results"
    using replay.runs_view [of r' "rig ?log rr" env cmds] replay.runs_results [of r' "rig ?log rr" env cmds] replay r(1) by simp_all
  then show ?thesis
    using r(2) bound_empty [OF r(3)] by (auto simp: replay_view_def same_space_def view_of_def check_replay_data_def)
qed

lemma sample_homed: "homed home khome (store_view (rs_store sample_space))"
  by (simp add: homed_def data_hashes_def cont_hashes_def conts_at_def v_get_continuations_def sample_tuples)

lemma sample_fresh:
  "fresh sample_env (\<lambda>_. 5) (\<lambda>_. [5]) (store_view (rs_store sample_space)) [Produce 5 6 False, Consume [5] [6] 7 False []]"
  by (simp add: fresh_def data_hashes_def cont_hashes_def conts_at_def v_get_continuations_def sample_tuples)

lemma sample_fair: "fair_run sample_env [Produce 5 6 False, Consume [5] [6] 7 False []] (view_of sample_space)"
  by (simp add: produce_match_def v_get_joins_def sample_view_tuples sample_tuples)

theorem replay_reproduces_play_witness:
  "let cmds = [Produce 5 6 False, Consume [5] [6] 7 False []];
       (played, results) = run_all (run_command sample_env) cmds sample_space;
       (replayed, results') = run_all (run_replay sample_env) cmds (rig (rs_event_log played) (replay_rspace_new sample_space))
   in results' = results \<and> store_view (rs_store (rr_space replayed)) = store_view (rs_store played) \<and> check_replay_data replayed = Inr ()"
proof -
  let ?cmds = "[Produce 5 6 False, Consume [5] [6] 7 False []]"
  obtain played results where p: "run_all (run_command sample_env) ?cmds sample_space = (played, results)" by fastforce
  obtain replayed results' where
    q: "run_all (run_replay sample_env) ?cmds (rig (rs_event_log played) (replay_rspace_new sample_space)) = (replayed, results')" by fastforce
  have "replay_ok (current_reader sample_env sample_space) (replay_rspace_new sample_space)"
    "same_space (view_of sample_space) (view_of (rr_space (replay_rspace_new sample_space)))" "rs_event_log sample_space = []"
    using sample_space_ok by (simp_all add: replay_ok_def replay_rspace_new_def same_space_def sample_space_def rspace_new_def)
  from replay_reproduces_play [OF sample_space_ok this sample_homed sample_fresh sample_fair p q]
  show ?thesis unfolding Let_def p q prod.case by blast
qed

section \<open>Plays that are refused\<close>

text \<open>A produce that no recorded communication names is not bound, and nothing binds it later.\<close>

lemma build_unbound:
  assumes "\<forall>x. EComm x \<in> set log \<longrightarrow> h \<notin> hashes_of x"
  shows "bm_get (rd_by_produce (build_replay_data log)) h = None"
proof -
  have one: "bm_get (fold (\<lambda>p m. if pr_hash p \<in> set P then bm_entry (pr_hash p) [] (\<lambda>v. v @ [x]) m else m) ps m) h = None"
    if "h \<notin> pr_hash ` set ps" "bm_get m h = None" for P x ps and m :: "(hash32, comm list) btmap"
    using that by (induction ps arbitrary: m) auto
  have "bm_get (rd_by_produce (fold (\<lambda>e rd. case e of EComm x \<Rightarrow> bind_comm C P x rd | _ \<Rightarrow> rd) es rd)) h = None"
    if "set es \<subseteq> set log" "bm_get (rd_by_produce rd) h = None" for C P es rd
    using that
  proof (induction es arbitrary: rd)
    case (Cons e es)
    show ?case
    proof (cases e)
      case (EComm x)
      then have "h \<notin> hashes_of x" using assms Cons.prems(1) by auto
      then have "bm_get (rd_by_produce (bind_comm C P x rd)) h = None" using one Cons.prems(2) by (simp add: bind_comm_def)
      then show ?thesis using Cons.IH Cons.prems(1) EComm by simp
    qed (use Cons in simp_all)
  qed simp
  then show ?thesis by (simp add: build_replay_data_def Let_def replay_data_default_def)
qed

lemma unbind_unbound:
  assumes "bm_get (rd_by_produce rd) h = None"
  shows "bm_get (rd_by_produce (unbind x rd)) h = None"
proof -
  have "bm_get (remove_binding k x m) h = None" if "bm_get m h = None" for k m
    using that by (cases "h = k") (auto simp: remove_binding_def Let_def bm_get_remove split: option.split)
  then have "bm_get (rd_by_produce (fold (\<lambda>p. remove_produce_binding p x) ps rd)) h = None" if "bm_get (rd_by_produce rd) h = None" for ps rd
    using that by (induction ps arbitrary: rd) (simp_all add: remove_produce_binding_def)
  then show ?thesis using assms by (simp add: unbind_def remove_consume_binding_def)
qed

lemma replay_command_unbound:
  assumes "bm_get (rd_by_produce (snd w)) h = None"
  shows "bm_get (rd_by_produce (snd (fst (spec_replay env c w)))) h = None"
proof -
  obtain v rd where w: "w = (v, rd)" by fastforce
  have "snd (fst (spec_replay env c w)) = rd \<or> (\<exists>x. snd (fst (spec_replay env c w)) = unbind x rd)"
    unfolding w by (cases c)
      (auto simp: spec_replay_produce_def spec_replay_consume_def on_view_def Let_def split_beta split: option.splits)
  then show ?thesis using assms unbind_unbound unfolding w by auto
qed

lemma replay_run_unbound:
  assumes "bm_get (rd_by_produce (snd w)) h = None"
  shows "bm_get (rd_by_produce (snd (fst (run_all (spec_replay env) cmds w)))) h = None"
  using assms by (induction cmds arbitrary: w) (simp_all add: split_beta Let_def replay_command_unbound del: spec_replay.simps)

lemma unbound_produce_stores:
  assumes "bm_get (rd_by_produce (snd w)) (pr_hash (produce_ref env c a persist)) = None"
  shows "snd (spec_replay env (Produce c a persist) w) = Inr (Acted None)"
  using assms by (simp add: spec_replay_produce_def comms_for_produce_def Let_def)

text \<open>
  C38: a play can be refused by its own replay. In the run in which a produce fires a persistent
  continuation with an older datum, the communication that is logged does not name the produce that
  made it. The replay of the same commands from the same space, rigged with the log of the play, stores
  that datum instead, so its results are not those of the play.
\<close>

theorem lost_produce_fails_replay:
  assumes "space_ok r rs" "quiet (store_view (rs_store rs)) c" "rs_event_log rs = []" "se_matcher env p a = Some a'"
    "se_matcher env p b = None" "se_matcher env p' a = None" "se_matcher env p' b = None"
    and hash: "pr_hash (produce_ref env c a False) \<noteq> pr_hash (produce_ref env c b False)"
    and cmds: "cmds = [Consume [c] [p] k True [], Produce c a False, Produce c a False, Consume [c] [p'] k' False [], Produce c b False]"
    and play: "run_all (run_command env) cmds rs = (rs1, results)"
    and replay: "run_all (run_replay env) cmds (rig (rs_event_log rs1) (replay_rspace_new rs)) = (rr1, results')"
  shows "(\<exists>fired. last results = Inr (Acted (Some fired))) \<and> last results' = Inr (Acted None)"
proof -
  let ?rr = "rig (rs_event_log rs1) (replay_rspace_new rs)" and ?h = "pr_hash (produce_ref env c b False)"
  have "quiet (sv_tuples (view_of rs)) c" using assms(2) by (simp add: view_of_def)
  from lost_view [OF this assms(4-7), of k k'] obtain v1 fired fired' where
    v1: "run_all (spec_command env) cmds (view_of rs) =
      (v1, [Inr (Acted None), Inr (Acted (Some fired)), Inr (Acted None), Inr (Acted None), Inr (Acted (Some fired'))])"
    and log: "only_comm (produce_ref env c a False) (sv_log (view_of rs)) \<longrightarrow> only_comm (produce_ref env c a False) (sv_log v1)"
    unfolding cmds by metis
  have one: "view_of rs1 = v1" "last results = Inr (Acted (Some fired'))"
    using space.runs_view [OF assms(1), of env cmds] space.runs_results [OF assms(1), of env cmds] play v1 by simp_all
  have "only_comm (produce_ref env c a False) (rs_event_log rs1)"
    using log one(1) assms(3) by (auto simp: only_comm_def view_of_def)
  then have none: "bm_get (rd_by_produce (snd (replay_view ?rr))) ?h = None"
    using hash by (simp add: replay_view_def rig_def build_unbound only_comm_def)
  have "replay_ok r ?rr" using assms(1) by (simp add: replay_ok_def rig_def replay_rspace_new_def)
  then have "results' = snd (run_all (spec_replay env) cmds (replay_view ?rr))"
    using replay.runs_results [of r ?rr env cmds] replay by simp
  moreover have "last (snd (run_all (spec_replay env) (cs @ [Produce c b False]) w)) = Inr (Acted None)"
    if "bm_get (rd_by_produce (snd w)) ?h = None" for cs w
    using unbound_produce_stores [OF replay_run_unbound [OF that, of env cs]]
    by (simp add: run_all_append split_beta Let_def del: spec_replay.simps)
  from this [OF none, of "butlast cmds"] have "last (snd (run_all (spec_replay env) cmds (replay_view ?rr))) = Inr (Acted None)"
    by (simp add: cmds del: spec_replay.simps run_all.simps)
  ultimately show ?thesis using one(2) by auto
qed

lemma sample_hashes_differ: "pr_hash (produce_ref sample_env 5 6 False) \<noteq> pr_hash (produce_ref sample_env 5 10 False)"
proof
  assume "pr_hash (produce_ref sample_env 5 6 False) = pr_hash (produce_ref sample_env 5 10 False)"
  then have "sample_digest (encode_seq_byte_vectors [sample_digest [5], [6], bool8 False]) =
      sample_digest (encode_seq_byte_vectors [sample_digest [5], [10], bool8 False])"
    by (simp add: produce_ref_def sample_env_def byte_serializers_def produce_apply_def hash_produce_def hash_channel_def Let_def)
  moreover have "sample_digest bs ! 1 = sum_list bs" for bs by (simp add: sample_digest_def)
  ultimately have "sum_list (encode_seq_byte_vectors [sample_digest [5], [6], bool8 False]) =
      sum_list (encode_seq_byte_vectors [sample_digest [5], [10], bool8 False])" by metis
  then show False by (simp add: encode_seq_byte_vectors_def)
qed

theorem lost_produce_fails_replay_witness:
  "let cmds = [Consume [5] [6] 7 True [], Produce 5 6 False, Produce 5 6 False, Consume [5] [8] 9 False [], Produce 5 10 False];
       (played, results) = run_all (run_command sample_env) cmds sample_space;
       (replayed, results') = run_all (run_replay sample_env) cmds (rig (rs_event_log played) (replay_rspace_new sample_space))
   in results' \<noteq> results"
proof -
  let ?cmds = "[Consume [5] [6] 7 True [], Produce 5 6 False, Produce 5 6 False, Consume [5] [8] 9 False [], Produce 5 10 False]"
  obtain played results where p: "run_all (run_command sample_env) ?cmds sample_space = (played, results)" by fastforce
  obtain replayed results' where
    q: "run_all (run_replay sample_env) ?cmds (rig (rs_event_log played) (replay_rspace_new sample_space)) = (replayed, results')" by fastforce
  have "rs_event_log sample_space = []" by (simp add: sample_space_def rspace_new_def)
  from lost_produce_fails_replay [OF sample_space_ok sample_quiet this _ _ _ _ sample_hashes_differ refl p q, of 6]
  show ?thesis unfolding Let_def p q prod.case by (auto simp: sample_matcher)
qed

end
