(* ===== verification/Merger.thy ===== *)
theory Merger
  imports History_Repository
begin

text \<open>
  Merging of event logs and state changes (\<^verbatim>\<open>rspace/src/merger\<close>, \<^verbatim>\<open>rspace/src/trace/tuplespace_event.rs\<close>):
  the index of an event log, the conflict and dependency tests on two indices, the change of state
  between two history states and the trie actions that apply a change to a base state.

  A set of produces or of consumes is ordered by hash: it is the map from the hash to the element. An
  insertion keeps the element that is there, a union that of the left set. Numeric channels hold 64-bit
  integers whose sum wraps, as in a release build.
\<close>

section \<open>Sets of events\<close>

type_synonym produces = "(hash32, produce) btmap"
type_synonym consumes = "(hash32, consume) btmap"

definition add_produce :: "produce \<Rightarrow> produces \<Rightarrow> produces" where
  "add_produce p s = bm_entry (pr_hash p) p id s"

definition add_consume :: "consume \<Rightarrow> consumes \<Rightarrow> consumes" where
  "add_consume c s = bm_entry (cs_hash c) c id s"

definition ev_union :: "(hash32, 'x) btmap \<Rightarrow> (hash32, 'x) btmap \<Rightarrow> (hash32, 'x) btmap" where
  "ev_union a b = fold (\<lambda>(h, x). bm_entry h x id) b a"

definition ev_diff :: "(hash32, 'x) btmap \<Rightarrow> (hash32, 'y) btmap \<Rightarrow> (hash32, 'x) btmap" where
  "ev_diff a b = filter (\<lambda>(h, x). bm_get b h = None) a"

definition ev_intersect :: "(hash32, 'x) btmap \<Rightarrow> (hash32, 'y) btmap \<Rightarrow> (hash32, 'x) btmap" where
  "ev_intersect a b = filter (\<lambda>(h, x). bm_get b h \<noteq> None) a"

section \<open>The index of an event log\<close>

type_synonym number_channels_diff = "(hash32, 64 word) btmap"

record event_log_index =
  produces_linear :: produces
  produces_persistent :: produces
  produces_consumed :: produces
  produces_peeked :: produces
  produces_copied_by_peek :: produces
  produces_touching_base_joins :: produces
  consumes_linear_and_peeks :: consumes
  consumes_persistent :: consumes
  consumes_produced :: consumes
  produces_mergeable :: produces
  consumes_mergeable :: consumes
  number_channels_data :: number_channels_diff

definition index_empty :: event_log_index where
  "index_empty =
     \<lparr>produces_linear = [], produces_persistent = [], produces_consumed = [], produces_peeked = [],
      produces_copied_by_peek = [], produces_touching_base_joins = [], consumes_linear_and_peeks = [],
      consumes_persistent = [], consumes_produced = [], produces_mergeable = [], consumes_mergeable = [],
      number_channels_data = []\<rparr>"

text \<open>One event of the loop of \<^verbatim>\<open>EventLogIndex::apply\<close>.\<close>

fun index_event :: "(produce \<Rightarrow> bool) \<Rightarrow> (produce \<Rightarrow> bool) \<Rightarrow> event \<Rightarrow> event_log_index \<Rightarrow> event_log_index" where
  "index_event exists_in_pre touches_join (EProduce p) e =
     (let e = (if exists_in_pre p then e\<lparr>produces_copied_by_peek := add_produce p (produces_copied_by_peek e)\<rparr> else e);
          e = (if touches_join p then e\<lparr>produces_touching_base_joins := add_produce p (produces_touching_base_joins e)\<rparr> else e)
      in if pr_persistent p then e\<lparr>produces_persistent := add_produce p (produces_persistent e)\<rparr>
         else e\<lparr>produces_linear := add_produce p (produces_linear e)\<rparr>)"
| "index_event exists_in_pre touches_join (EConsume c) e =
     (if cs_persistent c then e\<lparr>consumes_persistent := add_consume c (consumes_persistent e)\<rparr>
      else e\<lparr>consumes_linear_and_peeks := add_consume c (consumes_linear_and_peeks e)\<rparr>)"
| "index_event exists_in_pre touches_join (EComm c) e =
     (let e = (if cm_peeks c = [] then e\<lparr>produces_consumed := fold add_produce (cm_produces c) (produces_consumed e)\<rparr>
               else e\<lparr>produces_peeked := fold add_produce (cm_produces c) (produces_peeked e)\<rparr>)
      in e\<lparr>consumes_produced := add_consume (cm_consume c) (consumes_produced e)\<rparr>)"

definition index_apply ::
  "event list \<Rightarrow> (produce \<Rightarrow> bool) \<Rightarrow> (produce \<Rightarrow> bool) \<Rightarrow> number_channels_diff \<Rightarrow> event_log_index" where
  "index_apply event_log exists_in_pre touches_join mergeable_chs =
     (let e = fold (index_event exists_in_pre touches_join) event_log index_empty;
          all_produces = ev_union (ev_union (ev_union (produces_linear e) (produces_persistent e)) (produces_consumed e)) (produces_peeked e);
          all_consumes = ev_union (ev_union (consumes_linear_and_peeks e) (consumes_persistent e)) (consumes_produced e)
      in e\<lparr>produces_mergeable := filter (\<lambda>(h, p). bm_get mergeable_chs (pr_channels_hash p) \<noteq> None) all_produces,
           consumes_mergeable := filter (\<lambda>(h, c). \<exists>ch \<in> set (cs_channels_hashes c). bm_get mergeable_chs ch \<noteq> None) all_consumes,
           number_channels_data := mergeable_chs\<rparr>)"

section \<open>What a log creates and destroys\<close>

definition produces_created :: "event_log_index \<Rightarrow> produces" where
  "produces_created e = ev_diff (ev_union (produces_linear e) (produces_persistent e)) (produces_copied_by_peek e)"

definition consumes_created :: "event_log_index \<Rightarrow> consumes" where
  "consumes_created e = ev_union (consumes_linear_and_peeks e) (consumes_persistent e)"

definition produces_created_and_not_destroyed :: "event_log_index \<Rightarrow> produces" where
  "produces_created_and_not_destroyed e =
     ev_diff (ev_union (ev_diff (produces_linear e) (produces_consumed e)) (produces_persistent e)) (produces_copied_by_peek e)"

definition consumes_created_and_not_destroyed :: "event_log_index \<Rightarrow> consumes" where
  "consumes_created_and_not_destroyed e =
     ev_union (ev_diff (consumes_linear_and_peeks e) (consumes_produced e)) (consumes_persistent e)"

definition produces_affected :: "event_log_index \<Rightarrow> produces" where
  "produces_affected e =
     (let external_destroyed = filter (\<lambda>(h, p). \<not> pr_persistent p) (ev_diff (produces_consumed e) (produces_created e))
      in ev_union (produces_created_and_not_destroyed e) external_destroyed)"

definition consumes_affected :: "event_log_index \<Rightarrow> consumes" where
  "consumes_affected e =
     (let external_destroyed = filter (\<lambda>(h, c). \<not> cs_persistent c) (ev_diff (consumes_produced e) (consumes_created e))
      in ev_union (consumes_created_and_not_destroyed e) external_destroyed)"

definition combine_produces_copied_by_peek :: "event_log_index \<Rightarrow> event_log_index \<Rightarrow> produces" where
  "combine_produces_copied_by_peek x y =
     ev_diff (ev_union (produces_copied_by_peek x) (produces_copied_by_peek y)) (ev_union (produces_created x) (produces_created y))"

definition add_numbers :: "number_channels_diff \<Rightarrow> number_channels_diff \<Rightarrow> number_channels_diff" where
  "add_numbers x y = fold (\<lambda>(k, v). bm_entry k 0 (\<lambda>n. n + v)) y x"

definition index_combine :: "event_log_index \<Rightarrow> event_log_index \<Rightarrow> event_log_index" where
  "index_combine x y =
     \<lparr>produces_linear = ev_union (produces_linear x) (produces_linear y),
      produces_persistent = ev_union (produces_persistent x) (produces_persistent y),
      produces_consumed = ev_union (produces_consumed x) (produces_consumed y),
      produces_peeked = ev_union (produces_peeked x) (produces_peeked y),
      produces_copied_by_peek = combine_produces_copied_by_peek x y,
      produces_touching_base_joins = ev_union (produces_touching_base_joins x) (produces_touching_base_joins y),
      consumes_linear_and_peeks = ev_union (consumes_linear_and_peeks x) (consumes_linear_and_peeks y),
      consumes_persistent = ev_union (consumes_persistent x) (consumes_persistent y),
      consumes_produced = ev_union (consumes_produced x) (consumes_produced y),
      produces_mergeable = ev_union (produces_mergeable x) (produces_mergeable y),
      consumes_mergeable = ev_union (consumes_mergeable x) (consumes_mergeable y),
      number_channels_data = add_numbers (number_channels_data x) (number_channels_data y)\<rparr>"

section \<open>Conflicts and dependencies\<close>

definition depends :: "event_log_index \<Rightarrow> event_log_index \<Rightarrow> bool" where
  "depends target source =
     (let produces_source = ev_diff (produces_created_and_not_destroyed source) (produces_mergeable source);
          produces_target = ev_diff (produces_consumed target) (produces_mergeable source);
          consumes_source = consumes_created_and_not_destroyed source;
          consumes_target = consumes_produced target
      in ev_intersect produces_source produces_target \<noteq> [] \<or> ev_intersect consumes_source consumes_target \<noteq> [])"

definition potential_comms :: "event_log_index \<Rightarrow> event_log_index \<Rightarrow> hash32 list" where
  "potential_comms left right =
     concat (map (\<lambda>(_, p). concat (map (\<lambda>(_, c).
       if pr_channels_hash p \<in> set (cs_channels_hashes c) then [pr_channels_hash p] else [])
       (consumes_created_and_not_destroyed right))) (produces_created_and_not_destroyed left))"

definition conflicts :: "event_log_index \<Rightarrow> event_log_index \<Rightarrow> hash32 list" where
  "conflicts a b =
     (let shared_consumes = ev_intersect (consumes_produced a) (consumes_produced b);
          mergeable_consumes = ev_intersect (consumes_mergeable a) (consumes_mergeable b);
          consume_races = filter (\<lambda>(_, c). \<not> cs_persistent c) (ev_diff shared_consumes mergeable_consumes);
          shared_produces = ev_intersect (produces_consumed a) (produces_consumed b);
          mergeable_produces = ev_intersect (produces_mergeable a) (produces_mergeable b);
          produce_races = filter (\<lambda>(_, p). \<not> pr_persistent p) (ev_diff shared_produces mergeable_produces)
      in concat (map (\<lambda>(_, c). cs_channels_hashes c) consume_races) @ map (\<lambda>(_, p). pr_channels_hash p) produce_races @
         potential_comms a b @ potential_comms b a @
         map (\<lambda>(_, p). pr_channels_hash p) (ev_union (produces_touching_base_joins a) (produces_touching_base_joins b)))"

definition are_conflicting :: "event_log_index \<Rightarrow> event_log_index \<Rightarrow> bool" where
  "are_conflicting a b \<longleftrightarrow> conflicts a b \<noteq> []"

section \<open>Changes of state\<close>

text \<open>\<^verbatim>\<open>seq_diff\<close>: the difference of two lists as bags, in the order of the first.\<close>

definition seq_diff :: "'x list \<Rightarrow> 'x list \<Rightarrow> 'x list" where
  "seq_diff a b = fold remove1 b a"

record channel_change =
  cg_added :: "bytes list"
  cg_removed :: "bytes list"

definition change_empty :: channel_change where
  "change_empty = \<lparr>cg_added = [], cg_removed = []\<rparr>"

definition change_combine :: "channel_change \<Rightarrow> channel_change \<Rightarrow> channel_change" where
  "change_combine x y = \<lparr>cg_added = cg_added x @ cg_added y, cg_removed = cg_removed x @ cg_removed y\<rparr>"

definition combine_channel_change_map ::
  "('k::linorder, channel_change) btmap \<Rightarrow> ('k, channel_change) btmap \<Rightarrow> ('k, channel_change) btmap" where
  "combine_channel_change_map x y =
     fold (\<lambda>(k, v) out. case bm_get out k of
                           Some existing \<Rightarrow> bm_insert k (change_combine existing v) out
                         | None \<Rightarrow> bm_insert k v out) y x"

record state_change =
  datums_changes :: "(hash32, channel_change) btmap"
  kont_changes :: "(hash32 list, channel_change) btmap"
  consume_channels_to_join :: "(hash32 list, bytes) btmap"

definition state_change_empty :: state_change where
  "state_change_empty = \<lparr>datums_changes = [], kont_changes = [], consume_channels_to_join = []\<rparr>"

definition state_change_combine :: "state_change \<Rightarrow> state_change \<Rightarrow> state_change" where
  "state_change_combine x y =
     \<lparr>datums_changes = combine_channel_change_map (datums_changes x) (datums_changes y),
      kont_changes = combine_channel_change_map (kont_changes x) (kont_changes y),
      consume_channels_to_join =
        fold (\<lambda>(k, v). bm_insert k v) (consume_channels_to_join y) (consume_channels_to_join x)\<rparr>"

definition compute_value_change :: "bytes list \<Rightarrow> bytes list \<Rightarrow> channel_change" where
  "compute_value_change start_value end_value =
     \<lparr>cg_added = seq_diff end_value start_value, cg_removed = seq_diff start_value end_value\<rparr>"

text \<open>A reader that keeps the raw bytes (\<^verbatim>\<open>HistoryReaderBinary\<close>).\<close>

record ('c, 'p, 'a, 'k) binary_reader =
  br_data :: "hash32 \<Rightarrow> failure + 'a datum_b list"
  br_continuations :: "hash32 \<Rightarrow> failure + ('p, 'k) waiting_continuation_b list"
  br_joins :: "hash32 \<Rightarrow> failure + 'c joins_b list"

definition raw_data :: "('c, 'p, 'a, 'k) binary_reader \<Rightarrow> hash32 \<Rightarrow> failure + bytes list" where
  "raw_data r h = map_sum id (map db_raw) (br_data r h)"

definition raw_continuations :: "('c, 'p, 'a, 'k) binary_reader \<Rightarrow> hash32 \<Rightarrow> failure + bytes list" where
  "raw_continuations r h = map_sum id (map wb_raw) (br_continuations r h)"

definition raw_joins :: "('c, 'p, 'a, 'k) binary_reader \<Rightarrow> hash32 \<Rightarrow> failure + bytes list" where
  "raw_joins r h = map_sum id (map jb_raw) (br_joins r h)"

datatype merge_failure =
    ReaderFailed failure | JoinInconsistency | IndexPanic | EmptyProduceChange | EmptyConsumeChange
  | EmptyMergedChange | NoJoinBytes

text \<open>\<^verbatim>\<open>let cur = diff.entry(key).or_default(); cur.added.extend(..); cur.removed.extend(..)\<close>.\<close>

definition extend_change :: "'k::linorder \<Rightarrow> channel_change \<Rightarrow> ('k, channel_change) btmap \<Rightarrow> ('k, channel_change) btmap" where
  "extend_change k change m = bm_entry k change_empty (\<lambda>cur. change_combine cur change) m"

fun produce_changes ::
  "('c, 'p, 'a, 'k) binary_reader \<Rightarrow> ('c, 'p, 'a, 'k) binary_reader \<Rightarrow> hash32 list \<Rightarrow> (hash32, channel_change) btmap \<Rightarrow>
   merge_failure + (hash32, channel_change) btmap" where
  "produce_changes pre post [] diff = Inr diff"
| "produce_changes pre post (history_pointer # rest) diff =
     (case raw_data pre history_pointer of
        Inl e \<Rightarrow> Inl (ReaderFailed e)
      | Inr start \<Rightarrow>
          (case raw_data post history_pointer of
             Inl e \<Rightarrow> Inl (ReaderFailed e)
           | Inr end \<Rightarrow> produce_changes pre post rest (extend_change history_pointer (compute_value_change start end) diff)))"

text \<open>The join record whose channels are those of the consume, in whatever order.\<close>

definition find_join ::
  "(bytes \<Rightarrow> hash32) \<Rightarrow> ('c \<Rightarrow> bytes) \<Rightarrow> hash32 list \<Rightarrow> 'c joins_b list \<Rightarrow> bytes option" where
  "find_join dg enc_c consume_channels joins =
     map_option jb_raw
       (List.find (\<lambda>j. sort consume_channels = sort (map (hash_channel dg enc_c) (jb_decoded j))) joins)"

fun consume_changes ::
  "(bytes \<Rightarrow> hash32) \<Rightarrow> ('c \<Rightarrow> bytes) \<Rightarrow> ('c, 'p, 'a, 'k) binary_reader \<Rightarrow> ('c, 'p, 'a, 'k) binary_reader \<Rightarrow>
   hash32 list list \<Rightarrow> (hash32 list, channel_change) btmap \<Rightarrow> (hash32 list, bytes) btmap \<Rightarrow>
   merge_failure + (hash32 list, channel_change) btmap \<times> (hash32 list, bytes) btmap" where
  "consume_changes dg enc_c pre post [] diff joins = Inr (diff, joins)"
| "consume_changes dg enc_c pre post (consume_channels # rest) diff joins =
     (let history_pointer = hash_hashes dg consume_channels in
      case raw_continuations pre history_pointer of
        Inl e \<Rightarrow> Inl (ReaderFailed e)
      | Inr start \<Rightarrow>
          (case raw_continuations post history_pointer of
             Inl e \<Rightarrow> Inl (ReaderFailed e)
           | Inr end \<Rightarrow>
               let diff = extend_change consume_channels (compute_value_change start end) diff in
               (case consume_channels of
                  [] \<Rightarrow> Inl IndexPanic
                | channel # _ \<Rightarrow>
                    (case br_joins pre channel of
                       Inl e \<Rightarrow> Inl (ReaderFailed e)
                     | Inr pre_joins \<Rightarrow>
                         (case br_joins post channel of
                            Inl e \<Rightarrow> Inl (ReaderFailed e)
                          | Inr post_joins \<Rightarrow>
                              (case find_join dg enc_c consume_channels (pre_joins @ post_joins) of
                                 None \<Rightarrow> Inl JoinInconsistency
                               | Some raw_join \<Rightarrow>
                                   consume_changes dg enc_c pre post rest diff (bm_insert consume_channels raw_join joins)))))))"

definition change_is_empty :: "channel_change \<Rightarrow> bool" where
  "change_is_empty c \<longleftrightarrow> cg_added c = [] \<and> cg_removed c = []"

definition state_change_apply ::
  "(bytes \<Rightarrow> hash32) \<Rightarrow> ('c \<Rightarrow> bytes) \<Rightarrow> ('c, 'p, 'a, 'k) binary_reader \<Rightarrow> ('c, 'p, 'a, 'k) binary_reader \<Rightarrow>
   event_log_index \<Rightarrow> merge_failure + state_change" where
  "state_change_apply dg enc_c pre post e =
     (case produce_changes pre post (map (\<lambda>(_, p). pr_channels_hash p) (produces_affected e)) [] of
        Inl err \<Rightarrow> Inl err
      | Inr datums_diff \<Rightarrow>
          (case consume_changes dg enc_c pre post (map (\<lambda>(_, c). cs_channels_hashes c) (consumes_affected e)) [] [] of
             Inl err \<Rightarrow> Inl err
           | Inr (konts_diff, joins_map) \<Rightarrow>
               if \<exists>c \<in> set (bm_values datums_diff). change_is_empty c then Inl EmptyProduceChange
               else if \<exists>c \<in> set (bm_values konts_diff). change_is_empty c then Inl EmptyConsumeChange
               else Inr \<lparr>datums_changes = datums_diff, kont_changes = konts_diff, consume_channels_to_join = joins_map\<rparr>))"

section \<open>From a change to trie actions\<close>

definition changed_value :: "bytes list \<Rightarrow> channel_change \<Rightarrow> bytes list" where
  "changed_value init_value chg = seq_diff init_value (cg_removed chg) @ cg_added chg"

definition mk_trie_action ::
  "hash32 \<Rightarrow> bytes list \<Rightarrow> channel_change \<Rightarrow> (hash32 \<Rightarrow> ('c, 'p, 'a, 'k) hot_store_trie_action) \<Rightarrow>
   (hash32 \<Rightarrow> bytes list \<Rightarrow> ('c, 'p, 'a, 'k) hot_store_trie_action) \<Rightarrow>
   merge_failure + ('c, 'p, 'a, 'k) hot_store_trie_action" where
  "mk_trie_action history_pointer init_value chg remove_action update_action =
     (let new_val = changed_value init_value chg
      in if new_val = [] \<and> init_value \<noteq> [] then Inr (remove_action history_pointer)
         else if init_value \<noteq> new_val then Inr (update_action history_pointer new_val)
         else Inl EmptyMergedChange)"

datatype join_action = AddJoin "hash32 list" | RemoveJoin "hash32 list"

fun join_channels :: "join_action \<Rightarrow> hash32 list" where
  "join_channels (AddJoin cs) = cs"
| "join_channels (RemoveJoin cs) = cs"

fun consume_trie_actions ::
  "(bytes \<Rightarrow> hash32) \<Rightarrow> ('c, 'p, 'a, 'k) binary_reader \<Rightarrow> (hash32 list \<times> channel_change) list \<Rightarrow>
   merge_failure + ('c, 'p, 'a, 'k) hot_store_trie_action list \<times> join_action list" where
  "consume_trie_actions dg base [] = Inr ([], [])"
| "consume_trie_actions dg base ((consume_channels, change) # rest) =
     (let history_pointer = hash_hashes dg consume_channels in
      case raw_continuations base history_pointer of
        Inl e \<Rightarrow> Inl (ReaderFailed e)
      | Inr init \<Rightarrow>
          let new_val = changed_value init change in
          if init = new_val then Inl EmptyMergedChange
          else
            let (action, joins) =
                  (if new_val = [] \<and> init \<noteq> [] then (TrieDeleteConsume history_pointer, [RemoveJoin consume_channels])
                   else if init = [] then (TrieInsertBinaryConsume history_pointer new_val, [AddJoin consume_channels])
                   else (TrieInsertBinaryConsume history_pointer new_val, []))
            in case consume_trie_actions dg base rest of
                 Inl e \<Rightarrow> Inl e
               | Inr (actions, join_actions) \<Rightarrow> Inr (action # actions, joins @ join_actions))"

fun produce_trie_actions ::
  "('c, 'p, 'a, 'k) binary_reader \<Rightarrow> number_channels_diff \<Rightarrow>
   (hash32 \<Rightarrow> channel_change \<Rightarrow> number_channels_diff \<Rightarrow> ('c, 'p, 'a, 'k) hot_store_trie_action option) \<Rightarrow>
   (hash32 \<times> channel_change) list \<Rightarrow> merge_failure + ('c, 'p, 'a, 'k) hot_store_trie_action list" where
  "produce_trie_actions base mergeable_chs hook [] = Inr []"
| "produce_trie_actions base mergeable_chs hook ((history_pointer, change) # rest) =
     (case (case hook history_pointer change mergeable_chs of
              Some action \<Rightarrow> Inr action
            | None \<Rightarrow>
                (case raw_data base history_pointer of
                   Inl e \<Rightarrow> Inl (ReaderFailed e)
                 | Inr init \<Rightarrow> mk_trie_action history_pointer init change TrieDeleteProduce TrieInsertBinaryProduce)) of
        Inl e \<Rightarrow> Inl e
      | Inr action \<Rightarrow> map_sum id (\<lambda>actions. action # actions) (produce_trie_actions base mergeable_chs hook rest))"

text \<open>A join that is added or removed is added to or removed from each of its channels.\<close>

definition spread_join :: "join_action \<Rightarrow> bytes \<Rightarrow> (hash32, channel_change) btmap \<Rightarrow> (hash32, channel_change) btmap" where
  "spread_join ja join m =
     fold (\<lambda>c m.
       let cur = bm_get_or change_empty m c in
       bm_insert c (case ja of
                      AddJoin _ \<Rightarrow> \<lparr>cg_added = join # cg_added cur, cg_removed = cg_removed cur\<rparr>
                    | RemoveJoin _ \<Rightarrow> \<lparr>cg_added = cg_added cur, cg_removed = join # cg_removed cur\<rparr>) (bm_remove c m))
       (join_channels ja) m"

fun joins_changes ::
  "(hash32 list, bytes) btmap \<Rightarrow> join_action list \<Rightarrow> (hash32, channel_change) btmap \<Rightarrow> merge_failure + (hash32, channel_change) btmap" where
  "joins_changes joins [] m = Inr m"
| "joins_changes joins (ja # rest) m =
     (case bm_get joins (join_channels ja) of
        None \<Rightarrow> Inl NoJoinBytes
      | Some join \<Rightarrow> joins_changes joins rest (spread_join ja join m))"

fun joins_trie_actions ::
  "('c, 'p, 'a, 'k) binary_reader \<Rightarrow> (hash32 \<times> channel_change) list \<Rightarrow> merge_failure + ('c, 'p, 'a, 'k) hot_store_trie_action list" where
  "joins_trie_actions base [] = Inr []"
| "joins_trie_actions base ((history_pointer, change) # rest) =
     (case raw_joins base history_pointer of
        Inl e \<Rightarrow> Inl (ReaderFailed e)
      | Inr init \<Rightarrow>
          (case mk_trie_action history_pointer init change TrieDeleteJoins TrieInsertBinaryJoins of
             Inl e \<Rightarrow> Inl e
           | Inr action \<Rightarrow> map_sum id (\<lambda>actions. action # actions) (joins_trie_actions base rest)))"

definition compute_trie_actions ::
  "(bytes \<Rightarrow> hash32) \<Rightarrow> state_change \<Rightarrow> ('c, 'p, 'a, 'k) binary_reader \<Rightarrow> number_channels_diff \<Rightarrow>
   (hash32 \<Rightarrow> channel_change \<Rightarrow> number_channels_diff \<Rightarrow> ('c, 'p, 'a, 'k) hot_store_trie_action option) \<Rightarrow>
   merge_failure + ('c, 'p, 'a, 'k) hot_store_trie_action list" where
  "compute_trie_actions dg chg base mergeable_chs hook =
     (case consume_trie_actions dg base (kont_changes chg) of
        Inl e \<Rightarrow> Inl e
      | Inr (consume_actions, join_actions) \<Rightarrow>
          (case produce_trie_actions base mergeable_chs hook (datums_changes chg) of
             Inl e \<Rightarrow> Inl e
           | Inr produce_actions \<Rightarrow>
               (case joins_changes (consume_channels_to_join chg) join_actions [] of
                  Inl e \<Rightarrow> Inl e
                | Inr changed_joins \<Rightarrow>
                    (case joins_trie_actions base changed_joins of
                       Inl e \<Rightarrow> Inl e
                     | Inr joins_actions \<Rightarrow> Inr (produce_actions @ consume_actions @ joins_actions)))))"

section \<open>Tuple space events\<close>

datatype polarity = Send | Receive
datatype cardinality = Linear | NonLinear | Peek

record tuplespace_operation =
  op_polarity :: polarity
  op_cardinality :: cardinality
  op_event_hash :: hash32

record tuplespace_event =
  ev_incoming :: tuplespace_operation
  ev_matched :: "tuplespace_operation option"

definition to_operation_produce :: "produce \<Rightarrow> tuplespace_operation" where
  "to_operation_produce p =
     \<lparr>op_polarity = Send, op_cardinality = (if pr_persistent p then NonLinear else Linear), op_event_hash = pr_hash p\<rparr>"

definition to_operation_consume :: "consume \<Rightarrow> bool \<Rightarrow> tuplespace_operation" where
  "to_operation_consume c peeks =
     \<lparr>op_polarity = Receive, op_cardinality = (if cs_persistent c then NonLinear else if peeks then Peek else Linear),
      op_event_hash = cs_hash c\<rparr>"

definition from_produce :: "produce \<Rightarrow> hash32 \<times> tuplespace_event" where
  "from_produce p = (pr_channels_hash p, \<lparr>ev_incoming = to_operation_produce p, ev_matched = None\<rparr>)"

definition from_consume :: "consume \<Rightarrow> (hash32 \<times> tuplespace_event) option" where
  "from_consume c =
     (case cs_channels_hashes c of
        [single_channel_hash] \<Rightarrow> Some (single_channel_hash, \<lparr>ev_incoming = to_operation_consume c False, ev_matched = None\<rparr>)
      | _ \<Rightarrow> None)"

definition from_comm :: "comm \<Rightarrow> consumes \<Rightarrow> (hash32 \<times> tuplespace_event) option" where
  "from_comm comm incoming_consumes =
     (case cm_produces comm of
        [p] \<Rightarrow>
          let produce_op = to_operation_produce p;
              consume_op = to_operation_consume (cm_consume comm) (cm_peeks comm \<noteq> []);
              peek_initiated = bm_get_or 0 (cm_times_repeated comm) (pr_hash p) \<noteq> 0;
              incoming = (if bm_get incoming_consumes (cs_hash (cm_consume comm)) \<noteq> None \<and> \<not> peek_initiated
                          then consume_op else produce_op);
              matched = (if incoming = produce_op then consume_op else produce_op)
          in Some (pr_channels_hash p, \<lparr>ev_incoming = incoming, ev_matched = Some matched\<rparr>)
      | _ \<Rightarrow> None)"

definition unsatisfied :: "tuplespace_event \<Rightarrow> bool" where
  "unsatisfied e =
     (case op_cardinality (ev_incoming e) of
        Peek \<Rightarrow> ev_matched e = None
      | Linear \<Rightarrow> (case ev_matched e of None \<Rightarrow> True | Some m \<Rightarrow> op_cardinality m = Peek)
      | NonLinear \<Rightarrow> (case ev_matched e of None \<Rightarrow> True | Some m \<Rightarrow> op_cardinality m \<noteq> NonLinear))"

definition event_conflicts :: "tuplespace_event \<Rightarrow> tuplespace_event \<Rightarrow> bool" where
  "event_conflicts e f =
     (if op_polarity (ev_incoming e) = op_polarity (ev_incoming f) then
        let both_peeks = op_cardinality (ev_incoming e) = Peek \<and> op_cardinality (ev_incoming f) = Peek;
            both_matched_same_non_persistent =
              (case (ev_matched e, ev_matched f) of
                 (Some m, Some n) \<Rightarrow> Some (m = n \<and> op_cardinality n \<noteq> NonLinear)
               | _ \<Rightarrow> None)
        in if both_peeks then False
           else (case both_matched_same_non_persistent of None \<Rightarrow> False | Some b \<Rightarrow> b)
      else unsatisfied e \<and> unsatisfied f)"

section \<open>Lookups in sets of events\<close>

definition first_of :: "'x option \<Rightarrow> 'x option \<Rightarrow> 'x option" where
  "first_of x y = (case x of None \<Rightarrow> y | Some _ \<Rightarrow> x)"

lemma first_of_simps [simp]: "first_of None y = y" "first_of (Some a) y = Some a" "first_of x None = x"
  by (simp_all add: first_of_def split: option.split)

lemma first_of_eq_None [simp]: "first_of x y = None \<longleftrightarrow> x = None \<and> y = None"
  by (cases x) simp_all

lemma first_of_assoc: "first_of (first_of x y) z = first_of x (first_of y z)"
  by (cases x) simp_all

lemma get_ev_union [simp]: "bm_get (ev_union a b) h = first_of (bm_get a h) (bm_get b h)"
proof -
  have "bm_get (fold (\<lambda>(h, x). bm_entry h x id) b a) h = first_of (bm_get a h) (bm_get b h)"
    by (induction b arbitrary: a) (auto simp: bm_get_or_def first_of_def split: option.splits)
  then show ?thesis by (simp add: ev_union_def)
qed

lemma get_ev_diff [simp]: "bm_get (ev_diff a b) h = (if bm_get b h = None then bm_get a h else None)"
  by (induction a) (auto simp: ev_diff_def)

lemma get_ev_intersect [simp]: "bm_get (ev_intersect a b) h = (if bm_get b h = None then None else bm_get a h)"
  by (induction a) (auto simp: ev_intersect_def)

lemma btmap_ok_filter: "btmap_ok m \<Longrightarrow> btmap_ok (filter q m)"
  by (simp add: btmap_ok_def sorted_wrt_map sorted_wrt_filter)

lemma btmap_ok_ev [simp]:
  "btmap_ok a \<Longrightarrow> btmap_ok (ev_union a b)" "btmap_ok a \<Longrightarrow> btmap_ok (ev_diff a b')" "btmap_ok a \<Longrightarrow> btmap_ok (ev_intersect a b')"
proof -
  have "btmap_ok a \<Longrightarrow> btmap_ok (fold (\<lambda>(h, x). bm_entry h x id) b a)"
    by (induction b arbitrary: a) auto
  then show "btmap_ok a \<Longrightarrow> btmap_ok (ev_union a b)" by (simp add: ev_union_def)
qed (simp_all add: ev_diff_def ev_intersect_def btmap_ok_filter)

lemma ev_union_assoc: "btmap_ok a \<Longrightarrow> btmap_ok b \<Longrightarrow> ev_union (ev_union a b) c = ev_union a (ev_union b c)"
  by (rule btmap_eqI) (auto simp: fun_eq_iff first_of_assoc)

lemma ev_union_empty [simp]: "btmap_ok a \<Longrightarrow> ev_union a [] = a" "btmap_ok a \<Longrightarrow> ev_union [] a = a"
  by (rule btmap_eqI; simp add: fun_eq_iff)+

section \<open>Merging is a monoid\<close>

locale merge_monoid =
  fixes ok :: "'m \<Rightarrow> bool" and combine :: "'m \<Rightarrow> 'm \<Rightarrow> 'm" and neutral :: 'm
  assumes neutral_ok: "ok neutral"
    and combine_ok: "ok x \<Longrightarrow> ok y \<Longrightarrow> ok (combine x y)"
    and combine_assoc: "ok x \<Longrightarrow> ok y \<Longrightarrow> ok z \<Longrightarrow> combine (combine x y) z = combine x (combine y z)"
    and combine_neutral: "ok x \<Longrightarrow> combine x neutral = x" "ok x \<Longrightarrow> combine neutral x = x"
begin

lemma all_ok: "\<forall>x \<in> set xs. ok x \<Longrightarrow> ok (foldr combine xs neutral)"
  by (induction xs) (simp_all add: neutral_ok combine_ok)

text \<open>Branches may be combined in groups.\<close>

lemma grouped:
  "\<forall>x \<in> set xs \<union> set ys. ok x \<Longrightarrow> foldr combine (xs @ ys) neutral = combine (foldr combine xs neutral) (foldr combine ys neutral)"
proof (induction xs)
  case Nil
  then show ?case by (simp add: combine_neutral all_ok)
next
  case (Cons x xs)
  then show ?case using combine_assoc [of x "foldr combine xs neutral" "foldr combine ys neutral"] by (simp add: all_ok)
qed

lemma left_to_right: "\<forall>x \<in> set xs. ok x \<Longrightarrow> ok m \<Longrightarrow> foldl combine m xs = combine m (foldr combine xs neutral)"
  by (induction xs arbitrary: m) (simp_all add: combine_neutral combine_ok combine_assoc all_ok)

end

interpretation changes_monoid: merge_monoid "\<lambda>_. True" change_combine change_empty
  by unfold_locales (simp_all add: change_combine_def change_empty_def)

definition option_plus :: "('v \<Rightarrow> 'v \<Rightarrow> 'v) \<Rightarrow> 'v option \<Rightarrow> 'v option \<Rightarrow> 'v option" where
  "option_plus f x y = (case (x, y) of (None, _) \<Rightarrow> y | (_, None) \<Rightarrow> x | (Some a, Some b) \<Rightarrow> Some (f a b))"

lemma option_plus_simps [simp]:
  "option_plus f None y = y" "option_plus f x None = x" "option_plus f (Some a) (Some b) = Some (f a b)"
  by (simp_all add: option_plus_def split: option.split)

lemma option_plus_assoc:
  "(\<And>a b c. f (f a b) c = f a (f b c)) \<Longrightarrow> option_plus f (option_plus f x y) z = option_plus f x (option_plus f y z)"
  by (cases x; cases y; cases z) simp_all

lemma get_add_numbers:
  assumes "btmap_ok y"
  shows "bm_get (add_numbers x y) k = option_plus (+) (bm_get x k) (bm_get y k)"
proof -
  have "distinct (map fst y)" using assms by (simp add: btmap_ok_iff)
  then have "bm_get (fold (\<lambda>(k, v). bm_entry k 0 (\<lambda>n. n + v)) y x) k = option_plus (+) (bm_get x k) (bm_get y k)"
  proof (induction y arbitrary: x)
    case (Cons e y)
    obtain k' v where e: "e = (k', v)" by fastforce
    have "bm_get y k' = None" using Cons.prems e by (simp add: map_of_eq_None_iff)
    then show ?case using Cons e by (auto simp: bm_get_or_def split: option.split)
  qed simp
  then show ?thesis by (simp add: add_numbers_def)
qed

lemma get_combine_changes:
  assumes "btmap_ok y"
  shows "bm_get (combine_channel_change_map x y) k = option_plus change_combine (bm_get x k) (bm_get y k)"
proof -
  have "distinct (map fst y)" using assms by (simp add: btmap_ok_iff)
  then have "bm_get (fold (\<lambda>(k, v) out. case bm_get out k of
        Some existing \<Rightarrow> bm_insert k (change_combine existing v) out | None \<Rightarrow> bm_insert k v out) y x) k =
      option_plus change_combine (bm_get x k) (bm_get y k)"
  proof (induction y arbitrary: x)
    case (Cons e y)
    obtain k' v where e: "e = (k', v)" by fastforce
    have "bm_get y k' = None" using Cons.prems e by (simp add: map_of_eq_None_iff)
    then show ?case using Cons e by (auto split: option.split)
  qed simp
  then show ?thesis by (simp add: combine_channel_change_map_def)
qed

lemma btmap_ok_numbers [simp]: "btmap_ok x \<Longrightarrow> btmap_ok (add_numbers x y)"
proof -
  have "btmap_ok x \<Longrightarrow> btmap_ok (fold (\<lambda>(k, v). bm_entry k 0 (\<lambda>n. n + v)) y x)" by (induction y arbitrary: x) auto
  then show "btmap_ok x \<Longrightarrow> btmap_ok (add_numbers x y)" by (simp add: add_numbers_def)
qed

lemma btmap_ok_changes [simp]: "btmap_ok x \<Longrightarrow> btmap_ok (combine_channel_change_map x y)"
proof -
  have "btmap_ok x \<Longrightarrow> btmap_ok (fold (\<lambda>(k, v) out. case bm_get out k of
        Some existing \<Rightarrow> bm_insert k (change_combine existing v) out | None \<Rightarrow> bm_insert k v out) y x)"
    by (induction y arbitrary: x) (auto split: option.split)
  then show "btmap_ok x \<Longrightarrow> btmap_ok (combine_channel_change_map x y)" by (simp add: combine_channel_change_map_def)
qed

definition state_change_ok :: "state_change \<Rightarrow> bool" where
  "state_change_ok x \<longleftrightarrow> btmap_ok (datums_changes x) \<and> btmap_ok (kont_changes x) \<and> btmap_ok (consume_channels_to_join x)"

lemma combine_changes_assoc:
  assumes "btmap_ok x" "btmap_ok y" "btmap_ok z"
  shows "combine_channel_change_map (combine_channel_change_map x y) z = combine_channel_change_map x (combine_channel_change_map y z)"
  using assms changes_monoid.combine_assoc
  by (intro btmap_eqI) (simp_all add: fun_eq_iff get_combine_changes option_plus_assoc)

lemma combine_changes_empty:
  "btmap_ok x \<Longrightarrow> combine_channel_change_map x [] = x" "btmap_ok x \<Longrightarrow> combine_channel_change_map [] x = x"
  by (rule btmap_eqI; simp add: fun_eq_iff get_combine_changes)+

lemma get_fold_insert:
  "btmap_ok y \<Longrightarrow> bm_get (fold (\<lambda>(k, v). bm_insert k v) y x) = bm_get x ++ bm_get y"
proof -
  assume "btmap_ok y"
  then have "map_of (rev y) = map_of y" by (simp add: btmap_ok_iff map_of_rev_distinct)
  then show ?thesis using bm_get_collect_snoc [of y x] by simp
qed

lemma btmap_ok_fold_insert [simp]: "btmap_ok x \<Longrightarrow> btmap_ok (fold (\<lambda>(k, v). bm_insert k v) y x)"
  by (induction y arbitrary: x) auto

interpretation states_monoid: merge_monoid state_change_ok state_change_combine state_change_empty
proof unfold_locales
  fix x y z :: state_change
  show "state_change_ok state_change_empty" by (simp add: state_change_ok_def state_change_empty_def)
  show "state_change_ok x \<Longrightarrow> state_change_ok y \<Longrightarrow> state_change_ok (state_change_combine x y)"
    by (simp add: state_change_ok_def state_change_combine_def)
  show "state_change_combine (state_change_combine x y) z = state_change_combine x (state_change_combine y z)"
    if "state_change_ok x" "state_change_ok y" "state_change_ok z"
  proof -
    have "fold (\<lambda>(k, v). bm_insert k v) (consume_channels_to_join z)
        (fold (\<lambda>(k, v). bm_insert k v) (consume_channels_to_join y) (consume_channels_to_join x)) =
      fold (\<lambda>(k, v). bm_insert k v) (fold (\<lambda>(k, v). bm_insert k v) (consume_channels_to_join z) (consume_channels_to_join y))
        (consume_channels_to_join x)"
      using that by (intro btmap_eqI) (simp_all add: state_change_ok_def get_fold_insert)
    then show ?thesis using that by (simp add: state_change_ok_def state_change_combine_def combine_changes_assoc)
  qed
  have "fold (\<lambda>(k, v). bm_insert k v) (consume_channels_to_join x) [] = consume_channels_to_join x" if "state_change_ok x"
    using that by (intro btmap_eqI) (simp_all add: state_change_ok_def get_fold_insert)
  then show "state_change_ok x \<Longrightarrow> state_change_combine x state_change_empty = x"
    "state_change_ok x \<Longrightarrow> state_change_combine state_change_empty x = x"
    by (simp_all add: state_change_ok_def state_change_combine_def state_change_empty_def combine_changes_empty)
qed

definition index_ok :: "event_log_index \<Rightarrow> bool" where
  "index_ok e \<longleftrightarrow>
     btmap_ok (produces_linear e) \<and> btmap_ok (produces_persistent e) \<and> btmap_ok (produces_consumed e) \<and>
     btmap_ok (produces_peeked e) \<and> btmap_ok (produces_copied_by_peek e) \<and> btmap_ok (produces_touching_base_joins e) \<and>
     btmap_ok (consumes_linear_and_peeks e) \<and> btmap_ok (consumes_persistent e) \<and> btmap_ok (consumes_produced e) \<and>
     btmap_ok (produces_mergeable e) \<and> btmap_ok (consumes_mergeable e) \<and> btmap_ok (number_channels_data e)"

text \<open>A produce is created by a combined log when one of the two logs creates it.\<close>

lemma created_combined:
  "bm_get (produces_created (index_combine x y)) h = None \<longleftrightarrow>
     bm_get (produces_created x) h = None \<and> bm_get (produces_created y) h = None"
  by (auto simp: produces_created_def index_combine_def combine_produces_copied_by_peek_def)

lemma get_copied:
  "bm_get (produces_copied_by_peek (index_combine x y)) h =
     (if bm_get (produces_created x) h = None \<and> bm_get (produces_created y) h = None
      then first_of (bm_get (produces_copied_by_peek x) h) (bm_get (produces_copied_by_peek y) h) else None)"
  by (simp add: index_combine_def combine_produces_copied_by_peek_def)

lemma copied_assoc:
  assumes "index_ok x" "index_ok y" "index_ok z"
  shows "produces_copied_by_peek (index_combine (index_combine x y) z) = produces_copied_by_peek (index_combine x (index_combine y z))"
proof (rule btmap_eqI)
  show "btmap_ok (produces_copied_by_peek (index_combine (index_combine x y) z))"
    "btmap_ok (produces_copied_by_peek (index_combine x (index_combine y z)))"
    using assms by (simp_all add: index_ok_def index_combine_def combine_produces_copied_by_peek_def)
  show "bm_get (produces_copied_by_peek (index_combine (index_combine x y) z)) = bm_get (produces_copied_by_peek (index_combine x (index_combine y z)))"
    by (rule ext) (simp add: get_copied created_combined first_of_assoc)
qed

lemma copied_not_created: "bm_get (produces_created x) h = Some p \<Longrightarrow> bm_get (produces_copied_by_peek x) h = None"
  by (simp add: produces_created_def split: if_splits)

lemma copied_empty:
  assumes "index_ok x"
  shows "combine_produces_copied_by_peek x index_empty = produces_copied_by_peek x"
    "combine_produces_copied_by_peek index_empty x = produces_copied_by_peek x"
proof -
  have e: "bm_get (produces_created index_empty) h = None" "produces_copied_by_peek index_empty = []" for h
    by (simp_all add: produces_created_def index_empty_def)
  have ok: "btmap_ok (produces_copied_by_peek x)" using assms by (simp add: index_ok_def)
  show "combine_produces_copied_by_peek x index_empty = produces_copied_by_peek x"
    by (rule btmap_eqI) (auto simp: combine_produces_copied_by_peek_def fun_eq_iff e ok copied_not_created)
  show "combine_produces_copied_by_peek index_empty x = produces_copied_by_peek x"
    by (rule btmap_eqI) (auto simp: combine_produces_copied_by_peek_def fun_eq_iff e ok copied_not_created)
qed

lemma add_numbers_assoc:
  assumes "btmap_ok x" "btmap_ok y" "btmap_ok z"
  shows "add_numbers (add_numbers x y) z = add_numbers x (add_numbers y z)"
  using assms by (intro btmap_eqI) (simp_all add: fun_eq_iff get_add_numbers option_plus_assoc add.assoc)

lemma add_numbers_empty [simp]: "btmap_ok x \<Longrightarrow> add_numbers x [] = x" "btmap_ok x \<Longrightarrow> add_numbers [] x = x"
  by (rule btmap_eqI; simp add: fun_eq_iff get_add_numbers)+

interpretation indices_monoid: merge_monoid index_ok index_combine index_empty
proof unfold_locales
  fix x y z :: event_log_index
  show "index_ok index_empty" by (simp add: index_ok_def index_empty_def)
  show "index_ok x \<Longrightarrow> index_ok y \<Longrightarrow> index_ok (index_combine x y)"
    by (simp add: index_ok_def index_combine_def combine_produces_copied_by_peek_def)
  show "index_combine (index_combine x y) z = index_combine x (index_combine y z)" if ok: "index_ok x" "index_ok y" "index_ok z"
  proof -
    have "combine_produces_copied_by_peek (index_combine x y) z = combine_produces_copied_by_peek x (index_combine y z)"
      using copied_assoc [OF ok] by (simp add: index_combine_def)
    then show ?thesis
      using ok by (subst (1 3) index_combine_def) (simp add: index_combine_def [of x y] index_combine_def [of y z] index_ok_def ev_union_assoc add_numbers_assoc)
  qed
  show "index_ok x \<Longrightarrow> index_combine x index_empty = x" "index_ok x \<Longrightarrow> index_combine index_empty x = x"
    by (simp_all add: index_combine_def copied_empty) (simp_all add: index_ok_def index_empty_def)
qed

text \<open>
  C19: merging is a monoid: any list of event log indices, and any list of state changes, may be combined
  in groups and from either end without changing the result, and the empty index and the empty change
  add nothing.
\<close>

theorem merging_is_a_monoid:
  assumes "\<forall>x \<in> set xs \<union> set ys. index_ok x" "\<forall>s \<in> set ss \<union> set ts. state_change_ok s"
  shows "foldr index_combine (xs @ ys) index_empty =
      index_combine (foldr index_combine xs index_empty) (foldr index_combine ys index_empty) \<and>
    foldl index_combine index_empty xs = foldr index_combine xs index_empty \<and>
    foldr state_change_combine (ss @ ts) state_change_empty =
      state_change_combine (foldr state_change_combine ss state_change_empty) (foldr state_change_combine ts state_change_empty) \<and>
    foldl state_change_combine state_change_empty ss = foldr state_change_combine ss state_change_empty"
  using assms indices_monoid.grouped [of xs ys] states_monoid.grouped [of ss ts]
    indices_monoid.left_to_right [of xs index_empty] states_monoid.left_to_right [of ss state_change_empty]
  by (simp add: indices_monoid.neutral_ok states_monoid.neutral_ok indices_monoid.combine_neutral states_monoid.combine_neutral
      indices_monoid.all_ok states_monoid.all_ok)

section \<open>What an index says of a log\<close>

abbreviation hashes :: "(hash32, 'x) btmap \<Rightarrow> hash32 set" where
  "hashes s \<equiv> fst ` set s"

lemma hashes_add [simp]:
  "hashes (add_produce p s) = insert (pr_hash p) (hashes s)" "hashes (add_consume c t) = insert (cs_hash c) (hashes t)"
  by (simp_all add: add_produce_def add_consume_def)

lemma hashes_fold_add [simp]: "hashes (fold add_produce ps s) = pr_hash ` set ps \<union> hashes s"
proof (induction ps arbitrary: s)
  case (Cons p ps)
  show ?case using Cons.IH [of "add_produce p s"] unfolding hashes_add by simp
qed simp

lemma hashes_ev [simp]:
  "hashes (ev_union a b) = hashes a \<union> hashes b" "hashes (ev_diff a d) = hashes a - hashes d"
  "hashes (ev_intersect a d) = hashes a \<inter> hashes d"
proof -
  have "hashes (fold (\<lambda>(h, x). bm_entry h x id) b a) = hashes a \<union> hashes b"
  proof (induction b arbitrary: a)
    case (Cons e b)
    show ?case using Cons.IH [of "bm_entry (fst e) (snd e) id a"] unfolding set_bm_keys_entry by (simp add: split_beta id_def)
  qed simp
  then show "hashes (ev_union a b) = hashes a \<union> hashes b" by (simp add: ev_union_def)
qed (force simp: ev_diff_def ev_intersect_def map_of_eq_None_iff)+

lemma btmap_ok_add [simp]:
  "btmap_ok s \<Longrightarrow> btmap_ok (add_produce p s)" "btmap_ok t \<Longrightarrow> btmap_ok (add_consume c t)"
  by (simp_all add: add_produce_def add_consume_def)

lemma btmap_ok_fold_add [simp]: "btmap_ok s \<Longrightarrow> btmap_ok (fold add_produce ps s)"
  by (induction ps arbitrary: s) auto

lemma index_event_ok: "index_ok e \<Longrightarrow> index_ok (index_event f g ev e)"
  by (cases ev) (auto simp: index_ok_def Let_def)

lemma index_events_ok: "index_ok e \<Longrightarrow> index_ok (fold (index_event f g) log e)"
  by (induction log arbitrary: e) (simp_all add: index_event_ok)

text \<open>The events that an event adds to each set.\<close>

lemma index_event_sets:
  "hashes (produces_linear (index_event f g ev e)) = hashes (produces_linear e) \<union> {pr_hash p |p. ev = EProduce p \<and> \<not> pr_persistent p}"
  "hashes (produces_persistent (index_event f g ev e)) = hashes (produces_persistent e) \<union> {pr_hash p |p. ev = EProduce p \<and> pr_persistent p}"
  "hashes (produces_copied_by_peek (index_event f g ev e)) = hashes (produces_copied_by_peek e) \<union> {pr_hash p |p. ev = EProduce p \<and> f p}"
  "hashes (produces_touching_base_joins (index_event f g ev e)) = hashes (produces_touching_base_joins e) \<union> {pr_hash p |p. ev = EProduce p \<and> g p}"
  "hashes (consumes_linear_and_peeks (index_event f g ev e)) =
     hashes (consumes_linear_and_peeks e) \<union> {cs_hash c |c. ev = EConsume c \<and> \<not> cs_persistent c}"
  "hashes (consumes_persistent (index_event f g ev e)) = hashes (consumes_persistent e) \<union> {cs_hash c |c. ev = EConsume c \<and> cs_persistent c}"
  "hashes (produces_consumed (index_event f g ev e)) =
     hashes (produces_consumed e) \<union> {pr_hash p |p x. ev = EComm x \<and> cm_peeks x = [] \<and> p \<in> set (cm_produces x)}"
  "hashes (produces_peeked (index_event f g ev e)) =
     hashes (produces_peeked e) \<union> {pr_hash p |p x. ev = EComm x \<and> cm_peeks x \<noteq> [] \<and> p \<in> set (cm_produces x)}"
  "hashes (consumes_produced (index_event f g ev e)) = hashes (consumes_produced e) \<union> {cs_hash (cm_consume x) |x. ev = EComm x}"
  by (cases ev; auto simp: Let_def; fail)+

lemma fold_sets:
  assumes "\<And>ev e. S (step ev e) = S e \<union> A ev"
  shows "S (fold step log e) = S e \<union> (\<Union>ev \<in> set log. A ev)"
  by (induction log arbitrary: e) (auto simp: assms)

lemma index_events_sets:
  fixes f g :: "produce \<Rightarrow> bool"
  defines "run \<equiv> \<lambda>log. fold (index_event f g) log index_empty"
  shows "hashes (produces_linear (run log)) = {pr_hash p |p. EProduce p \<in> set log \<and> \<not> pr_persistent p}"
    "hashes (produces_persistent (run log)) = {pr_hash p |p. EProduce p \<in> set log \<and> pr_persistent p}"
    "hashes (produces_copied_by_peek (run log)) = {pr_hash p |p. EProduce p \<in> set log \<and> f p}"
    "hashes (produces_touching_base_joins (run log)) = {pr_hash p |p. EProduce p \<in> set log \<and> g p}"
    "hashes (consumes_linear_and_peeks (run log)) = {cs_hash c |c. EConsume c \<in> set log \<and> \<not> cs_persistent c}"
    "hashes (consumes_persistent (run log)) = {cs_hash c |c. EConsume c \<in> set log \<and> cs_persistent c}"
    "hashes (produces_consumed (run log)) = {pr_hash p |p x. EComm x \<in> set log \<and> cm_peeks x = [] \<and> p \<in> set (cm_produces x)}"
    "hashes (produces_peeked (run log)) = {pr_hash p |p x. EComm x \<in> set log \<and> cm_peeks x \<noteq> [] \<and> p \<in> set (cm_produces x)}"
    "hashes (consumes_produced (run log)) = {cs_hash (cm_consume x) |x. EComm x \<in> set log}"
  unfolding run_def
    fold_sets [where S = "\<lambda>e. hashes (produces_linear e)" and step = "index_event f g" and log = log and e = index_empty, OF index_event_sets(1)]
    fold_sets [where S = "\<lambda>e. hashes (produces_persistent e)" and step = "index_event f g" and log = log and e = index_empty, OF index_event_sets(2)]
    fold_sets [where S = "\<lambda>e. hashes (produces_copied_by_peek e)" and step = "index_event f g" and log = log and e = index_empty, OF index_event_sets(3)]
    fold_sets [where S = "\<lambda>e. hashes (produces_touching_base_joins e)" and step = "index_event f g" and log = log and e = index_empty, OF index_event_sets(4)]
    fold_sets [where S = "\<lambda>e. hashes (consumes_linear_and_peeks e)" and step = "index_event f g" and log = log and e = index_empty, OF index_event_sets(5)]
    fold_sets [where S = "\<lambda>e. hashes (consumes_persistent e)" and step = "index_event f g" and log = log and e = index_empty, OF index_event_sets(6)]
    fold_sets [where S = "\<lambda>e. hashes (produces_consumed e)" and step = "index_event f g" and log = log and e = index_empty, OF index_event_sets(7)]
    fold_sets [where S = "\<lambda>e. hashes (produces_peeked e)" and step = "index_event f g" and log = log and e = index_empty, OF index_event_sets(8)]
    fold_sets [where S = "\<lambda>e. hashes (consumes_produced e)" and step = "index_event f g" and log = log and e = index_empty, OF index_event_sets(9)]
  by (auto simp: index_empty_def)


section \<open>Conflicts are symmetric\<close>

definition agree :: "(hash32, 'x) btmap \<Rightarrow> (hash32, 'x) btmap \<Rightarrow> bool" where
  "agree a b \<longleftrightarrow> (\<forall>h x y. bm_get a h = Some x \<and> bm_get b h = Some y \<longrightarrow> x = y)"

lemma in_map_iff: "btmap_ok m \<Longrightarrow> (h, x) \<in> set m \<longleftrightarrow> bm_get m h = Some x"
  by (simp add: btmap_ok_iff)

lemma races_symmetric:
  assumes "btmap_ok a" "btmap_ok b" "agree a b"
  shows "ev_diff (ev_intersect a b) (ev_intersect m n) = ev_diff (ev_intersect b a) (ev_intersect n m)"
  using assms by (intro btmap_eqI) (auto simp: fun_eq_iff agree_def)

lemma races_iff:
  assumes "btmap_ok a"
  shows "filter (\<lambda>(_, x). \<not> q x) (ev_diff (ev_intersect a b) (ev_intersect m n)) \<noteq> [] \<longleftrightarrow>
    (\<exists>h x. bm_get a h = Some x \<and> h \<in> hashes b \<and> \<not> q x \<and> \<not> (h \<in> hashes m \<and> h \<in> hashes n))"
proof -
  have "filter (\<lambda>(_, x). \<not> q x) s \<noteq> [] \<longleftrightarrow> (\<exists>h x. (h, x) \<in> set s \<and> \<not> q x)" for s :: "(hash32 \<times> 'a) list"
    by (auto simp: filter_empty_conv)
  moreover have "(h, x) \<in> set (ev_diff (ev_intersect a b) (ev_intersect m n)) \<longleftrightarrow>
      bm_get a h = Some x \<and> h \<in> hashes b \<and> \<not> (h \<in> hashes m \<and> h \<in> hashes n)" for h x
    using assms by (simp add: in_map_iff map_of_eq_None_iff del: not_None_eq)
  ultimately show ?thesis by auto
qed

lemma concat_map_Nil: "(\<And>x. x \<in> set l \<Longrightarrow> f x \<noteq> []) \<Longrightarrow> concat (map f l) = [] \<longleftrightarrow> l = []"
  by (cases l) auto


section \<open>Concrete indices\<close>

definition sample_consumed :: event_log_index where
  "sample_consumed =
     index_empty\<lparr>produces_consumed := [(replicate 32 2, \<lparr>pr_channels_hash = replicate 32 1, pr_hash = replicate 32 2, pr_persistent = False\<rparr>)],
       number_channels_data := [(replicate 32 1, 5)]\<rparr>"

definition sample_added :: state_change where
  "sample_added = state_change_empty\<lparr>datums_changes := [(replicate 32 1, \<lparr>cg_added = [[7]], cg_removed = []\<rparr>)]\<rparr>"

lemma sample_indices_ok: "index_ok sample_consumed" "state_change_ok sample_added"
  by (simp_all add: index_ok_def sample_consumed_def index_empty_def btmap_ok_def state_change_ok_def sample_added_def state_change_empty_def)

theorem merging_is_a_monoid_witness:
  "foldr index_combine [sample_consumed, sample_consumed] index_empty =
     index_combine (foldr index_combine [sample_consumed] index_empty) (foldr index_combine [sample_consumed] index_empty) \<and>
   foldl state_change_combine state_change_empty [sample_added] = foldr state_change_combine [sample_added] state_change_empty"
  using merging_is_a_monoid [of "[sample_consumed]" "[sample_consumed]" "[sample_added]" "[sample_added]"] sample_indices_ok by simp



end
