(* ===== verification/Merge_Law.thy ===== *)
theory Merge_Law
  imports Merger
begin

text \<open>
  What merging writes. The change of a log, applied to the state the log started from, gives the state
  the log ended in, when no two affected events share a channel; two events on one channel double what
  they add. Changes may be combined in either order: the leaves that are written are the same.
\<close>

section \<open>Bags of raw values\<close>

lemma mset_seq_diff [simp]: "mset (seq_diff a b) = mset a - mset b"
proof -
  have "mset (fold remove1 b a) = mset a - mset b"
    by (induction b arbitrary: a) (simp_all flip: diff_diff_add)
  then show ?thesis by (simp add: seq_diff_def)
qed

lemma mset_changed_value: "mset (changed_value v c) = mset v - mset (cg_removed c) + mset (cg_added c)"
  by (simp add: changed_value_def)

text \<open>Applied to its own start, a change gives its end.\<close>

lemma change_reaches_end: "mset (changed_value start (compute_value_change start end)) = mset end"
  by (rule multiset_eqI) (simp add: mset_changed_value compute_value_change_def)

section \<open>What the actions leave\<close>

text \<open>The raw data and continuations under each key after an action.\<close>

fun data_step :: "('c, 'p, 'a, 'k) hot_store_trie_action \<Rightarrow> (hash32 \<Rightarrow> bytes list) \<Rightarrow> hash32 \<Rightarrow> bytes list" where
  "data_step (TrieInsertBinaryProduce h v) d = d(h := v)"
| "data_step (TrieDeleteProduce h) d = d(h := [])"
| "data_step _ d = d"

fun kont_step :: "('c, 'p, 'a, 'k) hot_store_trie_action \<Rightarrow> (hash32 \<Rightarrow> bytes list) \<Rightarrow> hash32 \<Rightarrow> bytes list" where
  "kont_step (TrieInsertBinaryConsume h v) d = d(h := v)"
| "kont_step (TrieDeleteConsume h) d = d(h := [])"
| "kont_step _ d = d"

fun data_action :: "('c, 'p, 'a, 'k) hot_store_trie_action \<Rightarrow> bool" where
  "data_action (TrieInsertBinaryProduce h v) = True"
| "data_action (TrieDeleteProduce h) = True"
| "data_action _ = False"

fun kont_action :: "('c, 'p, 'a, 'k) hot_store_trie_action \<Rightarrow> bool" where
  "kont_action (TrieInsertBinaryConsume h v) = True"
| "kont_action (TrieDeleteConsume h) = True"
| "kont_action _ = False"

lemma data_step_other: "\<forall>a \<in> set actions. \<not> data_action a \<Longrightarrow> fold data_step actions d = d"
proof (induction actions)
  case (Cons a actions)
  then show ?case by (cases a) simp_all
qed simp

lemma kont_step_other: "\<forall>a \<in> set actions. \<not> kont_action a \<Longrightarrow> fold kont_step actions d = d"
proof (induction actions)
  case (Cons a actions)
  then show ?case by (cases a) simp_all
qed simp

text \<open>No hook: no channel is handled specially.\<close>

abbreviation no_hook :: "hash32 \<Rightarrow> channel_change \<Rightarrow> number_channels_diff \<Rightarrow> ('c, 'p, 'a, 'k) hot_store_trie_action option" where
  "no_hook \<equiv> \<lambda>_ _ _. None"

lemma mk_trie_action_cases:
  assumes "mk_trie_action h init c rem ins = Inr a"
  obtains "changed_value init c = []" "a = rem h" | "a = ins h (changed_value init c)"
  using assms by (auto simp: mk_trie_action_def Let_def split: if_splits)

lemma map_sum_Inr: "map_sum id f x = Inr y \<longleftrightarrow> (\<exists>z. x = Inr z \<and> y = f z)"
  by (cases x) auto

text \<open>Steps that each write one key, on different keys.\<close>

lemma fold_writes:
  assumes "list_all2 (\<lambda>e a. \<forall>d. step a d = d(key e := val e)) l actions" "distinct (map key l)"
  shows "h \<notin> key ` set l \<Longrightarrow> fold step actions d h = d h" "e \<in> set l \<Longrightarrow> fold step actions d (key e) = val e"
proof -
  have "(h \<notin> key ` set l \<longrightarrow> fold step actions d h = d h) \<and> (\<forall>e \<in> set l. fold step actions d (key e) = val e)" for h
    using assms
  proof (induction l actions arbitrary: d h rule: list_all2_induct)
    case (Cons e l a actions)
    define d' where "d' = d(key e := val e)"
    have k: "key e \<notin> key ` set l" "distinct (map key l)" using Cons.prems by simp_all
    have s: "step a d = d'" using Cons.hyps(1) by (simp add: d'_def)
    have "fold step actions d' (key e) = d' (key e)" "h \<notin> key ` set l \<Longrightarrow> fold step actions d' h = d' h"
      "\<forall>e \<in> set l. fold step actions d' (key e) = val e"
      using Cons.IH [OF k(2), where d = d'] k(1) by blast+
    then show ?case by (auto simp: s d'_def [THEN fun_cong])
  qed simp
  then show "h \<notin> key ` set l \<Longrightarrow> fold step actions d h = d h" "e \<in> set l \<Longrightarrow> fold step actions d (key e) = val e" by blast+
qed

lemma produce_actions_write:
  assumes "produce_trie_actions base m no_hook l = Inr actions"
  shows "list_all2 (\<lambda>e a. data_action a \<and> (\<exists>init. raw_data base (fst e) = Inr init \<and>
    (\<forall>d. data_step a d = d(fst e := changed_value init (snd e))))) l actions"
  using assms
proof (induction l arbitrary: actions)
  case (Cons e l)
  obtain k g where e: "e = (k, g)" by fastforce
  from Cons.prems obtain init a rest where
    r: "raw_data base k = Inr init" "mk_trie_action k init g TrieDeleteProduce TrieInsertBinaryProduce = Inr a"
      "produce_trie_actions base m no_hook l = Inr rest" "actions = a # rest"
    unfolding e by (auto simp: map_sum_Inr split: sum.splits)
  from r(2) show ?case by (rule mk_trie_action_cases) (use r Cons.IH [OF r(3)] in \<open>simp_all add: e fun_eq_iff\<close>)
qed simp

lemma consume_actions_write:
  assumes "consume_trie_actions dg base l = Inr (actions, joins)"
  shows "list_all2 (\<lambda>e a. kont_action a \<and> (\<exists>init. raw_continuations base (hash_hashes dg (fst e)) = Inr init \<and>
    (\<forall>d. kont_step a d = d(hash_hashes dg (fst e) := changed_value init (snd e))))) l actions"
  using assms
proof (induction l arbitrary: actions joins)
  case (Cons e l)
  obtain k g where e: "e = (k, g)" by fastforce
  let ?k = "hash_hashes dg k"
  from Cons.prems obtain init a rest joins' where
    r: "raw_continuations base ?k = Inr init"
      "a = TrieDeleteConsume ?k \<and> changed_value init g = [] \<or> a = TrieInsertBinaryConsume ?k (changed_value init g)"
      "consume_trie_actions dg base l = Inr (rest, joins')" "actions = a # rest"
    unfolding e by (auto simp: Let_def split: sum.splits if_splits)
  then show ?case using Cons.IH [OF r(3)] by (auto simp: e fun_eq_iff)
qed simp

lemma joins_actions_other:
  "joins_trie_actions base l = Inr actions \<Longrightarrow> \<forall>a \<in> set actions. \<not> data_action a \<and> \<not> kont_action a"
proof (induction l arbitrary: actions)
  case (Cons e l)
  obtain k g where e: "e = (k, g)" by fastforce
  from Cons.prems obtain init a rest where
    r: "mk_trie_action k init g TrieDeleteJoins TrieInsertBinaryJoins = Inr a" "joins_trie_actions base l = Inr rest" "actions = a # rest"
    unfolding e by (auto simp: map_sum_Inr split: sum.splits)
  from r(1) show ?case by (rule mk_trie_action_cases) (use r Cons.IH [OF r(2)] in auto)
qed simp

lemma data_not_kont: "data_action a \<Longrightarrow> \<not> kont_action a"
  by (cases a) simp_all

lemma compute_trie_actions_parts:
  assumes "compute_trie_actions dg sc base m hook = Inr actions"
  obtains as bs joins cs where "produce_trie_actions base m hook (datums_changes sc) = Inr as"
    "consume_trie_actions dg base (kont_changes sc) = Inr (bs, joins)" "\<forall>a \<in> set cs. \<not> data_action a \<and> \<not> kont_action a"
    "actions = as @ bs @ cs"
  using assms joins_actions_other by (fastforce simp: compute_trie_actions_def split: sum.splits prod.splits)

section \<open>A change applied to its own base\<close>

lemma extend_change_get:
  "bm_get (extend_change k c m) = (bm_get m)(k \<mapsto> change_combine (bm_get_or change_empty m k) c)"
  by (simp add: extend_change_def)

lemma first_change: "bm_get m k = None \<Longrightarrow> change_combine (bm_get_or change_empty m k) c = c"
  by (simp add: bm_get_or_def changes_monoid.combine_neutral)

lemma produce_changes_get:
  assumes "produce_changes pre post hs diff = Inr diff'" "distinct hs" "\<forall>h \<in> set hs. bm_get diff h = None"
  shows "bm_get diff' h = (if h \<in> set hs then Some (compute_value_change (projr (raw_data pre h)) (projr (raw_data post h))) else bm_get diff h)"
    and "h \<in> set hs \<Longrightarrow> \<exists>s t. raw_data pre h = Inr s \<and> raw_data post h = Inr t"
    and "btmap_ok diff \<Longrightarrow> btmap_ok diff'"
proof -
  have "bm_get diff' h = (if h \<in> set hs then Some (compute_value_change (projr (raw_data pre h)) (projr (raw_data post h))) else bm_get diff h) \<and>
      (h \<in> set hs \<longrightarrow> (\<exists>s t. raw_data pre h = Inr s \<and> raw_data post h = Inr t)) \<and> (btmap_ok diff \<longrightarrow> btmap_ok diff')"
    using assms
  proof (induction hs arbitrary: diff)
    case (Cons k hs)
    from Cons.prems(1) obtain s t where r: "raw_data pre k = Inr s" "raw_data post k = Inr t"
      and rest: "produce_changes pre post hs (extend_change k (compute_value_change s t) diff) = Inr diff'"
      by (auto split: sum.splits)
    have "distinct hs" "\<forall>h \<in> set hs. bm_get (extend_change k (compute_value_change s t) diff) h = None" "k \<notin> set hs" "bm_get diff k = None"
      using Cons.prems(2,3) by (auto simp: extend_change_get)
    with Cons.IH [OF rest] r show ?case
      by (auto simp: extend_change_get first_change) (simp_all add: extend_change_def)
  qed simp
  then show "bm_get diff' h = (if h \<in> set hs then Some (compute_value_change (projr (raw_data pre h)) (projr (raw_data post h))) else bm_get diff h)"
    "h \<in> set hs \<Longrightarrow> \<exists>s t. raw_data pre h = Inr s \<and> raw_data post h = Inr t" "btmap_ok diff \<Longrightarrow> btmap_ok diff'"
    by blast+
qed

lemma consume_changes_get:
  fixes dg :: "bytes \<Rightarrow> hash32"
  defines "at \<equiv> \<lambda>r cs. raw_continuations r (hash_hashes dg cs)"
  assumes "consume_changes dg enc_c pre post css diff joins = Inr (diff', joins')" "distinct css" "\<forall>cs \<in> set css. bm_get diff cs = None"
  shows "bm_get diff' cs = (if cs \<in> set css then Some (compute_value_change (projr (at pre cs)) (projr (at post cs))) else bm_get diff cs)"
    and "cs \<in> set css \<Longrightarrow> \<exists>s t. at pre cs = Inr s \<and> at post cs = Inr t"
    and "btmap_ok diff \<Longrightarrow> btmap_ok diff'"
proof -
  have "bm_get diff' cs = (if cs \<in> set css then Some (compute_value_change (projr (at pre cs)) (projr (at post cs))) else bm_get diff cs) \<and>
      (cs \<in> set css \<longrightarrow> (\<exists>s t. at pre cs = Inr s \<and> at post cs = Inr t)) \<and> (btmap_ok diff \<longrightarrow> btmap_ok diff')"
    using assms(2-4)
  proof (induction css arbitrary: diff joins)
    case (Cons k css)
    from Cons.prems(1) obtain s t joins2 where r: "at pre k = Inr s" "at post k = Inr t"
      and rest: "consume_changes dg enc_c pre post css (extend_change k (compute_value_change s t) diff) joins2 = Inr (diff', joins')"
      by (auto simp: at_def Let_def split: sum.splits list.splits option.splits)
    have "distinct css" "\<forall>h \<in> set css. bm_get (extend_change k (compute_value_change s t) diff) h = None" "k \<notin> set css" "bm_get diff k = None"
      using Cons.prems(2,3) by (auto simp: extend_change_get)
    with Cons.IH [OF rest] r show ?case
      by (auto simp: extend_change_get first_change) (simp_all add: extend_change_def)
  qed simp
  then show "bm_get diff' cs = (if cs \<in> set css then Some (compute_value_change (projr (at pre cs)) (projr (at post cs))) else bm_get diff cs)"
    "cs \<in> set css \<Longrightarrow> \<exists>s t. at pre cs = Inr s \<and> at post cs = Inr t" "btmap_ok diff \<Longrightarrow> btmap_ok diff'"
    by blast+
qed

definition affected_channels :: "event_log_index \<Rightarrow> hash32 list" where
  "affected_channels e = map (\<lambda>(_, p). pr_channels_hash p) (produces_affected e)"

definition affected_joins :: "event_log_index \<Rightarrow> hash32 list list" where
  "affected_joins e = map (\<lambda>(_, c). cs_channels_hashes c) (consumes_affected e)"

lemma state_change_parts:
  assumes "state_change_apply dg enc_c pre post e = Inr sc"
  shows "produce_changes pre post (affected_channels e) [] = Inr (datums_changes sc)"
    "consume_changes dg enc_c pre post (affected_joins e) [] [] = Inr (kont_changes sc, consume_channels_to_join sc)"
  using assms by (auto simp: state_change_apply_def affected_channels_def affected_joins_def split: sum.splits prod.splits if_splits)

text \<open>The bytes a leaf holds do not depend on the order of the values.\<close>

lemma same_leaf:
  "mset v = mset w \<Longrightarrow> encode_datums_binary v = encode_datums_binary w"
  "mset v = mset w \<Longrightarrow> encode_continuations_binary v = encode_continuations_binary w"
  "mset v = mset w \<Longrightarrow> encode_joins_binary v = encode_joins_binary w"
  by (simp_all add: encode_datums_binary_def encode_continuations_binary_def encode_joins_binary_def sort_encodings_mset [of v w])

lemma list_all2_writes:
  assumes "list_all2 (\<lambda>e a. q a \<and> (\<exists>init. r e = Inr init \<and> (\<forall>d. step a d = d(key e := changed_value init (snd e))))) l actions"
  shows "list_all2 (\<lambda>e a. \<forall>d. step a d = d(key e := changed_value (projr (r e)) (snd e))) l actions" "\<forall>a \<in> set actions. q a"
proof -
  show "list_all2 (\<lambda>e a. \<forall>d. step a d = d(key e := changed_value (projr (r e)) (snd e))) l actions"
    using assms by (rule list_all2_mono) auto
  show "\<forall>a \<in> set actions. q a" using assms by (auto simp: list_all2_conv_all_nth in_set_conv_nth)
qed

lemma keys_of_get:
  assumes "\<And>h. bm_get m h = (if h \<in> S then Some (f h) else bm_get [] h)"
  shows "fst ` set m = S"
proof -
  have "fst ` set m = dom (bm_get m)" by (simp add: dom_map_of_conv_image_fst)
  then show ?thesis by (auto simp: dom_def assms split: if_splits)
qed

lemma data_written:
  assumes "produce_changes pre post hs [] = Inr diff" "distinct hs" "produce_trie_actions pre m no_hook diff = Inr actions"
  shows "h \<notin> set hs \<Longrightarrow> fold data_step actions d h = d h"
    and "h \<in> set hs \<Longrightarrow> \<exists>final. raw_data post h = Inr final \<and> mset (fold data_step actions d h) = mset final"
    and "\<forall>a \<in> set actions. data_action a"
proof -
  note g = produce_changes_get [OF assms(1,2), simplified]
  have keys: "fst ` set diff = set hs" "distinct (map fst diff)"
    using keys_of_get [OF g(1)] g(3) by (simp_all add: btmap_ok_iff)
  note w = list_all2_writes [OF produce_actions_write [OF assms(3)]] and f = fold_writes [OF w(1) keys(2)]
  show "\<forall>a \<in> set actions. data_action a" by (rule w(2))
  show "h \<notin> set hs \<Longrightarrow> fold data_step actions d h = d h" using f(1) keys(1) by simp
  show "\<exists>final. raw_data post h = Inr final \<and> mset (fold data_step actions d h) = mset final" if h: "h \<in> set hs"
  proof -
    obtain start final where r: "raw_data pre h = Inr start" "raw_data post h = Inr final" using g(2) [OF h] by blast
    then have "(h, compute_value_change start final) \<in> set diff" using g(1) h by (simp add: map_of_SomeD)
    from f(2) [OF this] show ?thesis using r change_reaches_end by simp
  qed
qed

lemma konts_written:
  assumes "consume_changes dg enc_c pre post css [] [] = Inr (diff, joins)" "distinct (map (hash_hashes dg) css)"
    and "consume_trie_actions dg pre diff = Inr (actions, ja)"
  shows "h \<notin> hash_hashes dg ` set css \<Longrightarrow> fold kont_step actions d h = d h"
    and "cs \<in> set css \<Longrightarrow> \<exists>final. raw_continuations post (hash_hashes dg cs) = Inr final \<and>
      mset (fold kont_step actions d (hash_hashes dg cs)) = mset final"
    and "\<forall>a \<in> set actions. kont_action a"
proof -
  have css: "distinct css" "inj_on (hash_hashes dg) (set css)" using assms(2) by (simp_all add: distinct_map)
  note g = consume_changes_get [OF assms(1) css(1), simplified]
  have keys: "fst ` set diff = set css" "distinct (map fst diff)"
    using keys_of_get [OF g(1)] g(3) by (simp_all add: btmap_ok_iff)
  then have d: "distinct (map (\<lambda>e. hash_hashes dg (fst e)) diff)"
    using css(2) comp_inj_on [of fst "set diff" "hash_hashes dg"] by (simp add: distinct_map comp_def)
  note w = list_all2_writes [OF consume_actions_write [OF assms(3)]] and f = fold_writes [OF w(1) d]
  show "\<forall>a \<in> set actions. kont_action a" by (rule w(2))
  show "h \<notin> hash_hashes dg ` set css \<Longrightarrow> fold kont_step actions d h = d h"
    using f(1) keys(1) by (metis image_image)
  show "\<exists>final. raw_continuations post (hash_hashes dg cs) = Inr final \<and> mset (fold kont_step actions d (hash_hashes dg cs)) = mset final"
    if h: "cs \<in> set css"
  proof -
    obtain start final where r: "raw_continuations pre (hash_hashes dg cs) = Inr start" "raw_continuations post (hash_hashes dg cs) = Inr final"
      using g(2) [OF h] by blast
    then have "(cs, compute_value_change start final) \<in> set diff" using g(1) h by (simp add: map_of_SomeD)
    from f(2) [OF this] show ?thesis using r change_reaches_end by simp
  qed
qed


lemma fold_remove1_Nil: "fold remove1 xs [] = []"
  by (induction xs) simp_all

text \<open>
  C40: two produces on one channel double the data. For a log of two sends on an empty channel, the change
  of state counts the data of the channel once for each of the two affected produces, so the trie action
  that should write the data of the state after the log writes every datum twice.
\<close>

theorem repeated_channel_doubles_data:
  assumes "pr_hash p \<noteq> pr_hash q" "pr_channels_hash p = h" "pr_channels_hash q = h" "\<not> pr_persistent p" "\<not> pr_persistent q"
    and "raw_data pre h = Inr []" "raw_data post h = Inr vs" "vs \<noteq> []"
  shows "\<exists>sc. state_change_apply dg enc_c pre post (index_apply [EProduce p, EProduce q] (\<lambda>_. False) (\<lambda>_. False) []) = Inr sc \<and>
    compute_trie_actions dg sc pre [] no_hook = Inr [TrieInsertBinaryProduce h (vs @ vs)]"
proof -
  let ?e = "index_apply [EProduce p, EProduce q] (\<lambda>_. False) (\<lambda>_. False) []"
  have sets: "produces_linear ?e = add_produce q (add_produce p [])" "produces_persistent ?e = []" "produces_copied_by_peek ?e = []"
    "produces_consumed ?e = []" "consumes_linear_and_peeks ?e = []" "consumes_persistent ?e = []" "consumes_produced ?e = []"
    using assms(4,5) by (simp_all add: index_apply_def Let_def index_empty_def)
  have "produces_affected ?e = produces_linear ?e" "consumes_affected ?e = []"
    by (simp_all add: produces_affected_def consumes_affected_def produces_created_and_not_destroyed_def
        consumes_created_and_not_destroyed_def sets ev_diff_def ev_union_def Let_def)
  moreover have "map (\<lambda>(_, p). pr_channels_hash p) (add_produce q (add_produce p [])) = [h, h]"
    using assms(1-3) by (simp add: add_produce_def bm_entry_def bm_insert_def bm_remove_def bm_get_or_def)
  ultimately have a: "map (\<lambda>(_, p). pr_channels_hash p) (produces_affected ?e) = [h, h]" "consumes_affected ?e = []" using sets(1) by simp_all
  have c: "compute_value_change [] vs = \<lparr>cg_added = vs, cg_removed = []\<rparr>" by (simp add: compute_value_change_def seq_diff_def fold_remove1_Nil)
  have "produce_changes pre post [h, h] [] = Inr [(h, \<lparr>cg_added = vs @ vs, cg_removed = []\<rparr>)]"
    using assms(6,7)
    by (simp add: c extend_change_def bm_entry_def bm_insert_def bm_remove_def bm_get_or_def change_combine_def change_empty_def)
  then have "state_change_apply dg enc_c pre post ?e =
      Inr \<lparr>datums_changes = [(h, \<lparr>cg_added = vs @ vs, cg_removed = []\<rparr>)], kont_changes = [], consume_channels_to_join = []\<rparr>"
    unfolding state_change_apply_def a using assms(8) by (simp add: change_is_empty_def)
  moreover have "compute_trie_actions dg
      \<lparr>datums_changes = [(h, \<lparr>cg_added = vs @ vs, cg_removed = []\<rparr>)], kont_changes = [], consume_channels_to_join = []\<rparr> pre [] no_hook =
      Inr [TrieInsertBinaryProduce h (vs @ vs)]"
    using assms(6,8) by (simp add: compute_trie_actions_def mk_trie_action_def changed_value_def seq_diff_def)
  ultimately show ?thesis by blast
qed

section \<open>The order of combination\<close>

definition similar :: "channel_change \<Rightarrow> channel_change \<Rightarrow> bool" where
  "similar c c' \<longleftrightarrow> mset (cg_added c) = mset (cg_added c') \<and> mset (cg_removed c) = mset (cg_removed c')"

lemma similar_swap: "similar (change_combine c c') (change_combine c' c)"
  by (simp add: similar_def change_combine_def)

lemma similar_value: "similar c c' \<Longrightarrow> mset (changed_value v c) = mset (changed_value v c')"
  by (simp add: similar_def mset_changed_value)

lemma similar_empty: "similar c c' \<Longrightarrow> changed_value v c = [] \<longleftrightarrow> changed_value v c' = []"
  by (drule similar_value [where v = v]) (metis mset_zero_iff)

lemma list_all2_of_get:
  assumes "btmap_ok m" "btmap_ok n" "\<And>k. rel_option R (bm_get m k) (bm_get n k)"
  shows "list_all2 (\<lambda>e f. fst e = fst f \<and> R (snd e) (snd f)) m n"
proof -
  have "bm_get m k = None \<longleftrightarrow> bm_get n k = None" for k using assms(3) [of k] by (cases "bm_get m k"; cases "bm_get n k") simp_all
  then have "fst ` set m = fst ` set n" by (auto simp: map_of_eq_None_iff)
  then have keys: "map fst m = map fst n"
    using assms(1,2) sorted_distinct_set_unique [of "map fst m" "map fst n"] by (simp add: btmap_ok_iff)
  then have len: "length m = length n" using map_eq_imp_length_eq by blast
  have "fst (m ! i) = fst (n ! i) \<and> R (snd (m ! i)) (snd (n ! i))" if "i < length m" for i
  proof -
    have f: "fst (m ! i) = fst (n ! i)" using keys that len by (metis nth_map)
    have "bm_get m (fst (m ! i)) = Some (snd (m ! i))" "bm_get n (fst (n ! i)) = Some (snd (n ! i))"
      using assms(1,2) that len by (auto simp: btmap_ok_iff intro: map_of_is_SomeI)
    then show ?thesis using assms(3) [of "fst (m ! i)"] f by simp
  qed
  then show ?thesis by (simp add: list_all2_conv_all_nth len)
qed

lemma combined_changes_similar:
  assumes "btmap_ok x" "btmap_ok y"
  shows "list_all2 (\<lambda>e f. fst e = fst f \<and> similar (snd e) (snd f)) (combine_channel_change_map x y) (combine_channel_change_map y x)"
proof (rule list_all2_of_get)
  show "btmap_ok (combine_channel_change_map x y)" "btmap_ok (combine_channel_change_map y x)" using assms by simp_all
  have "similar c c" for c by (simp add: similar_def)
  then show "rel_option similar (bm_get (combine_channel_change_map x y) k) (bm_get (combine_channel_change_map y x) k)" for k
    unfolding get_combine_changes [OF assms(1)] get_combine_changes [OF assms(2)]
    by (cases "bm_get x k"; cases "bm_get y k") (simp_all add: similar_swap)
qed

lemma consume_actions_similar:
  assumes "list_all2 (\<lambda>e f. fst e = fst f \<and> similar (snd e) (snd f)) l l'"
    and "consume_trie_actions dg base l = Inr (actions, joins)" "consume_trie_actions dg base l' = Inr (actions', joins')"
  shows "map (calculate_storage_action dg' sz) actions = map (calculate_storage_action dg' sz) actions' \<and> joins = joins'"
  using assms
proof (induction l l' arbitrary: actions joins actions' joins' rule: list_all2_induct)
  case (Cons e l f l')
  obtain k c c' where e: "e = (k, c)" "f = (k, c')" "similar c c'" using Cons.hyps(1) by (cases e; cases f) auto
  let ?k = "hash_hashes dg k"
  obtain init rest js where
    1: "raw_continuations base ?k = Inr init" "consume_trie_actions dg base l = Inr (rest, js)"
      "actions = (if changed_value init c = [] \<and> init \<noteq> [] then TrieDeleteConsume ?k else TrieInsertBinaryConsume ?k (changed_value init c)) # rest"
      "joins = (if changed_value init c = [] \<and> init \<noteq> [] then [RemoveJoin k] else if init = [] then [AddJoin k] else []) @ js"
    using Cons.prems(1) unfolding e by (auto simp: Let_def split: sum.splits if_splits)
  obtain rest' js' where
    2: "consume_trie_actions dg base l' = Inr (rest', js')"
      "actions' = (if changed_value init c' = [] \<and> init \<noteq> [] then TrieDeleteConsume ?k else TrieInsertBinaryConsume ?k (changed_value init c')) # rest'"
      "joins' = (if changed_value init c' = [] \<and> init \<noteq> [] then [RemoveJoin k] else if init = [] then [AddJoin k] else []) @ js'"
    using Cons.prems(2) 1(1) unfolding e by (auto simp: Let_def split: sum.splits if_splits)
  note leaf = same_leaf(2) [OF similar_value [OF e(3), of init]]
  show ?case
    using Cons.IH [OF 1(2) 2(1)] similar_empty [OF e(3), of init] leaf unfolding 1(3,4) 2(2,3) by simp
qed simp

lemma produce_actions_similar:
  assumes "list_all2 (\<lambda>e f. fst e = fst f \<and> similar (snd e) (snd f)) l l'"
    and "\<And>h c c'. similar c c' \<Longrightarrow> hook h c m = hook h c' m"
    and "produce_trie_actions base m hook l = Inr actions" "produce_trie_actions base m hook l' = Inr actions'"
  shows "map (calculate_storage_action dg sz) actions = map (calculate_storage_action dg sz) actions'"
  using assms(1,3,4)
proof (induction l l' arbitrary: actions actions' rule: list_all2_induct)
  case (Cons e l f l')
  obtain k c c' where e: "e = (k, c)" "f = (k, c')" "similar c c'" using Cons.hyps(1) by (cases e; cases f) auto
  have hook: "hook k c m = hook k c' m" by (rule assms(2) [OF e(3)])
  show ?case
  proof (cases "hook k c m")
    case (Some a)
    then show ?thesis using Cons.prems Cons.IH hook unfolding e by (auto simp: map_sum_Inr)
  next
    case None
    obtain init a rest where 1: "raw_data base k = Inr init"
      "mk_trie_action k init c TrieDeleteProduce TrieInsertBinaryProduce = Inr a" "produce_trie_actions base m hook l = Inr rest" "actions = a # rest"
      using Cons.prems(1) None unfolding e by (auto simp: map_sum_Inr split: sum.splits)
    obtain a' rest' where 2: "mk_trie_action k init c' TrieDeleteProduce TrieInsertBinaryProduce = Inr a'"
      "produce_trie_actions base m hook l' = Inr rest'" "actions' = a' # rest'"
      using Cons.prems(2) None hook 1(1) unfolding e by (auto simp: map_sum_Inr split: sum.splits)
    have "calculate_storage_action dg sz a = calculate_storage_action dg sz a'"
      using 1(2) 2(1) similar_empty [OF e(3), of init] same_leaf(1) [OF similar_value [OF e(3), of init]]
      by (auto simp: mk_trie_action_def Let_def split: if_splits)
    then show ?thesis using Cons.IH [OF 1(3) 2(2)] 1(4) 2(3) by simp
  qed
qed simp

lemma map_add_comm_agree: "(\<And>k v w. f k = Some v \<Longrightarrow> g k = Some w \<Longrightarrow> v = w) \<Longrightarrow> f ++ g = g ++ f"
  by (rule ext) (auto simp: map_add_def split: option.splits)

text \<open>
  C8: the order in which two state changes are combined does not reach the merged state. If both orders
  give trie actions, the storage actions they stand for, leaves, leaf hashes and history keys, are the
  same list, so the merged state has one root. The changes must agree on the bytes of a join they both
  name, and the treatment of numeric channels must not depend on the order of added and removed values.
\<close>

theorem merge_order_irrelevant:
  assumes "state_change_ok x" "state_change_ok y"
    and joins: "\<forall>k v w. bm_get (consume_channels_to_join x) k = Some v \<longrightarrow> bm_get (consume_channels_to_join y) k = Some w \<longrightarrow> v = w"
    and hook: "\<And>h c c'. similar c c' \<Longrightarrow> hook h c m = hook h c' m"
    and "compute_trie_actions dg (state_change_combine x y) base m hook = Inr actions"
      "compute_trie_actions dg (state_change_combine y x) base m hook = Inr actions'"
  shows "map (calculate_storage_action dg sz) actions = map (calculate_storage_action dg sz) actions'"
proof -
  let ?xy = "state_change_combine x y" and ?yx = "state_change_combine y x"
  have d: "list_all2 (\<lambda>e f. fst e = fst f \<and> similar (snd e) (snd f)) (datums_changes ?xy) (datums_changes ?yx)"
    and k: "list_all2 (\<lambda>e f. fst e = fst f \<and> similar (snd e) (snd f)) (kont_changes ?xy) (kont_changes ?yx)"
    using assms(1,2) by (simp_all add: state_change_combine_def state_change_ok_def combined_changes_similar)
  have "bm_get (consume_channels_to_join x) ++ bm_get (consume_channels_to_join y) =
      bm_get (consume_channels_to_join y) ++ bm_get (consume_channels_to_join x)"
    by (rule map_add_comm_agree) (use joins in blast)
  then have j: "consume_channels_to_join ?xy = consume_channels_to_join ?yx"
    using assms(1,2) by (intro btmap_eqI) (simp_all add: state_change_combine_def state_change_ok_def get_fold_insert)
  obtain cs js ps ms ja where 1: "consume_trie_actions dg base (kont_changes ?xy) = Inr (cs, js)"
    "produce_trie_actions base m hook (datums_changes ?xy) = Inr ps" "joins_changes (consume_channels_to_join ?xy) js [] = Inr ms"
    "joins_trie_actions base ms = Inr ja" "actions = ps @ cs @ ja"
    using assms(5) by (auto simp: compute_trie_actions_def split: sum.splits prod.splits)
  obtain cs' js' ps' ms' ja' where 2: "consume_trie_actions dg base (kont_changes ?yx) = Inr (cs', js')"
    "produce_trie_actions base m hook (datums_changes ?yx) = Inr ps'" "joins_changes (consume_channels_to_join ?yx) js' [] = Inr ms'"
    "joins_trie_actions base ms' = Inr ja'" "actions' = ps' @ cs' @ ja'"
    using assms(6) by (auto simp: compute_trie_actions_def split: sum.splits prod.splits)
  note c = consume_actions_similar [OF k 1(1) 2(1), of dg sz] and p = produce_actions_similar [OF d hook 1(2) 2(2), of dg sz]
  then have "ja = ja'" using 1(3,4) 2(3,4) j by simp
  then show ?thesis using c p 1(5) 2(5) by simp
qed

text \<open>
  The order can decide whether the merge succeeds: a change that puts back what the other takes away
  leaves the same values, which the merge refuses in one order and writes again in the other.
\<close>

theorem merge_order_can_fail:
  assumes "raw_data base h = Inr [a, b]" "a \<noteq> b"
    and x: "x = \<lparr>datums_changes = [(h, \<lparr>cg_added = [a], cg_removed = [b]\<rparr>)], kont_changes = [], consume_channels_to_join = []\<rparr>"
    and y: "y = \<lparr>datums_changes = [(h, \<lparr>cg_added = [b], cg_removed = [a]\<rparr>)], kont_changes = [], consume_channels_to_join = []\<rparr>"
  shows "compute_trie_actions dg (state_change_combine x y) base m no_hook = Inl EmptyMergedChange \<and>
    compute_trie_actions dg (state_change_combine y x) base m no_hook = Inr [TrieInsertBinaryProduce h [b, a]]"
  using assms(1,2)
  by (simp add: x y compute_trie_actions_def state_change_combine_def combine_channel_change_map_def change_combine_def
      mk_trie_action_def changed_value_def seq_diff_def bm_insert_def bm_remove_def)

section \<open>Concrete merges\<close>

text \<open>Two sends, and readers of the states before and after them.\<close>

definition sample_produce :: "byte \<Rightarrow> byte \<Rightarrow> produce" where
  "sample_produce c b = \<lparr>pr_channels_hash = replicate 32 c, pr_hash = replicate 32 b, pr_persistent = False\<rparr>"

definition sample_reader :: "bytes list \<Rightarrow> (byte, byte, byte, byte) binary_reader" where
  "sample_reader vs =
     \<lparr>br_data = (\<lambda>h. Inr (if h = replicate 32 1 then map (\<lambda>v. \<lparr>db_decoded = sample_datum 6, db_raw = v\<rparr>) vs else [])),
      br_continuations = (\<lambda>_. Inr []), br_joins = (\<lambda>_. Inr [])\<rparr>"

lemma sample_raw [simp]:
  "raw_data (sample_reader vs) h = Inr (if h = replicate 32 1 then vs else [])"
  "raw_continuations (sample_reader vs) h = Inr []" "raw_joins (sample_reader vs) h = Inr []"
  by (simp_all add: raw_data_def raw_continuations_def raw_joins_def sample_reader_def comp_def)

definition sample_change :: "bytes \<Rightarrow> state_change" where
  "sample_change v =
     \<lparr>datums_changes = [(replicate 32 1, \<lparr>cg_added = [v], cg_removed = []\<rparr>)], kont_changes = [], consume_channels_to_join = []\<rparr>"

lemma sample_change_ok: "state_change_ok (sample_change v)"
  by (simp add: state_change_ok_def sample_change_def btmap_ok_def)

lemmas run_merge = compute_trie_actions_def state_change_combine_def combine_channel_change_map_def change_combine_def
  mk_trie_action_def changed_value_def seq_diff_def bm_insert_def bm_remove_def

theorem merge_order_irrelevant_witness:
  "\<exists>actions actions'.
     compute_trie_actions sample_digest (state_change_combine (sample_change [7]) (sample_change [8])) (sample_reader []) [] no_hook = Inr actions \<and>
     compute_trie_actions sample_digest (state_change_combine (sample_change [8]) (sample_change [7])) (sample_reader []) [] no_hook = Inr actions' \<and>
     actions \<noteq> actions' \<and>
     map (calculate_storage_action sample_digest byte_serializers) actions = map (calculate_storage_action sample_digest byte_serializers) actions'"
proof -
  have r: "compute_trie_actions sample_digest (state_change_combine (sample_change [7]) (sample_change [8])) (sample_reader []) [] no_hook =
      Inr [TrieInsertBinaryProduce (replicate 32 1) [[7], [8]]]"
    "compute_trie_actions sample_digest (state_change_combine (sample_change [8]) (sample_change [7])) (sample_reader []) [] no_hook =
      Inr [TrieInsertBinaryProduce (replicate 32 1) [[8], [7]]]"
    by (simp_all add: sample_change_def run_merge)
  from merge_order_irrelevant [OF sample_change_ok sample_change_ok _ refl r, of byte_serializers] show ?thesis
    unfolding r by (simp add: sample_change_def)
qed

theorem repeated_channel_doubles_data_witness:
  "\<exists>sc. state_change_apply sample_digest (\<lambda>b. [b]) (sample_reader []) (sample_reader [[7], [8]])
       (index_apply [EProduce (sample_produce 1 2), EProduce (sample_produce 1 3)] (\<lambda>_. False) (\<lambda>_. False) []) = Inr sc \<and>
     compute_trie_actions sample_digest sc (sample_reader []) [] no_hook =
       Inr [TrieInsertBinaryProduce (replicate 32 1) [[7], [8], [7], [8]]]"
  using repeated_channel_doubles_data [of "sample_produce 1 2" "sample_produce 1 3" "replicate 32 1" "sample_reader []" "sample_reader [[7], [8]]" "[[7], [8]]"]
  by (simp add: sample_produce_def)


end
