(* ===== verification/Spec2Isabelle.thy ===== *)
theory Spec2Isabelle
  imports Prelude Merging Refined Finalizer Message_State Blocks Dag_Store Radix_Tree Radix_Map Tuple_Types Scodec
    Stable_Hash Hot_Store Native_Store Matcher History_Repository Space Space_Runs Replay Replay_Law Merger Merge_Law
begin

text \<open>
  This library models the deterministic core of an RChain node written in Rust and proves it correct:
  the tuple space with its replay and its content-addressed history, the block DAG with its finalizer,
  and the merging of concurrent blocks. Paths below are relative to \<^verbatim>\<open>src/\<close>.

  \<^bold>\<open>The program and its parts.\<close> A node executes deploys against a tuple space, in which a produce sends
  a datum on a channel and a consume waits on a join of channels for data that match its patterns. What
  is read or written since the last checkpoint lives in an overlay (\<^verbatim>\<open>rspace/src/hot_store.rs\<close>, and
  \<^verbatim>\<open>native_store.rs\<close> for the native contracts). A checkpoint turns the overlay into leaves and actions on
  a radix trie whose root hash is the state hash of a block. The events of an execution are recorded in
  the block; another node runs the same commands on a replay space rigged with that record and must
  come to the same state. Blocks form a DAG: the block DAG storage (\<^verbatim>\<open>casper/src/dag.rs\<close>) keeps their
  metadata and the message state, and the finalizer finds fringes that more than two thirds of the
  bonded stake supports. A block with several parents merges their effects: the logs of the parents are
  indexed and tested for conflicts, a resolution decides which deploys are rejected, and the changes of
  state of the accepted ones are combined and written to the base state.

  \<^bold>\<open>Foundations.\<close>
  \<^item> \<open>Prelude\<close>: \<^verbatim>\<open>BTreeSet\<close> and \<^verbatim>\<open>BTreeMap\<close> of the Rust standard library as strictly ascending lists
    (\<open>bs_*\<close>, \<open>bm_*\<close>) with their invariants and their set and map semantics, and the ranges of the signed
    64-bit integers.
  \<^item> \<open>Refined\<close>: \<^verbatim>\<open>shared/src/base16.rs\<close> and \<^verbatim>\<open>shared/src/refined.rs\<close>. Hexadecimal text is decoded and printed
    back; heights and sequence numbers saturate within their range.

  \<^bold>\<open>The tuple space.\<close>
  \<^item> \<open>Tuple_Types\<close>: the records of \<^verbatim>\<open>rspace/src/internal.rs\<close>, \<^verbatim>\<open>trace/event.rs\<close>, \<^verbatim>\<open>tuple_space.rs\<close> and
    \<^verbatim>\<open>errors.rs\<close>.
  \<^item> \<open>Scodec\<close>: \<^verbatim>\<open>serializers/scodec_serialize.rs\<close>, bit by bit. The codecs of data, continuations and joins
    round-trip, and the encoding of a list of data does not depend on its order.
  \<^item> \<open>Stable_Hash\<close>: \<^verbatim>\<open>hashing/stable_hash_provider.rs\<close> and the constructors of produces and consumes.
  \<^item> \<open>Hot_Store\<close>, \<open>Native_Store\<close>: the two overlays. Each operation acts as a function on the view of the
    overlay, that is what it holds together with what is still only in history.
  \<^item> \<open>Matcher\<close>: \<^verbatim>\<open>space_matcher.rs\<close>, the search for data that match a list of patterns.
  \<^item> \<open>Radix_Tree\<close>, \<open>Radix_Map\<close>: \<^verbatim>\<open>history/radix_tree.rs\<close>, \<^verbatim>\<open>key_segment.rs\<close>, \<^verbatim>\<open>history_action.rs\<close> and
    \<^verbatim>\<open>instances/radix_history.rs\<close>. The first theory holds the nodes, their codec, the caches and the batches;
    the second relates a history to the finite map it holds: batches update that map, equal maps have
    equal roots, and a committed root can be opened again and read.
  \<^item> \<open>History_Repository\<close>: \<^verbatim>\<open>history/history_repository.rs\<close>, \<^verbatim>\<open>root_repository.rs\<close>, \<^verbatim>\<open>roots_store.rs\<close> and
    \<^verbatim>\<open>instances/rspace_history_reader_impl.rs\<close>. It composes codecs, hashes, trie and overlay: a reader of the
    root of a checkpoint returns what the overlay stood for.
  \<^item> \<open>Space\<close>, \<open>Space_Runs\<close>: \<^verbatim>\<open>rspace.rs\<close>. Produce, consume, install, checkpoints and resets over the overlay,
    each shown to implement a function on views (\<open>implements\<close>), and the sequences of commands. The locale
    \<open>machine\<close> lifts this refinement to runs; it is interpreted by the play space and by the replay space.
    The properties say when a command fires, what it takes and leaves, and what a soft checkpoint restores.
  \<^item> \<open>Replay\<close>, \<open>Replay_Law\<close>: \<^verbatim>\<open>replay_rspace.rs\<close>. The bindings of recorded communications and the searches
    restricted to them; then the law that a replay of a play returns the results of the play, ends in the
    same tuple space and uses up the record, with the conditions it needs.

  \<^bold>\<open>Merging.\<close>
  \<^item> \<open>Merger\<close>, \<open>Merge_Law\<close>: the directory \<^verbatim>\<open>rspace/src/merger\<close> and \<^verbatim>\<open>trace/tuplespace_event.rs\<close>. Event log
    indices, conflicts and dependencies, changes of state and the trie actions that write them. Indices
    and changes form monoids (locale \<open>merge_monoid\<close>, interpreted for each of them); a change applied to
    its own base gives the state after the log; the order of combination does not matter to what is written.
  \<^item> \<open>Merging\<close>: \<^verbatim>\<open>sdk/src/dag/merging.rs\<close>, the conflict resolution. The accepted deploys are free of
    conflicts, the rejected ones closed under dependency, and the options are the complements of the
    maximal conflict-free sets.

  \<^bold>\<open>Consensus.\<close>
  \<^item> \<open>Finalizer\<close>: \<^verbatim>\<open>sdk/src/consensus.rs\<close>, \<^verbatim>\<open>block-storage/src/dag/finalizer.rs\<close> and \<^verbatim>\<open>message_map.rs\<close>. A finalized
    fringe is certified by a super majority; two such fringes share supporters, by the locale
    \<open>quorum_system\<close> interpreted with the threshold of the code.
  \<^item> \<open>Message_State\<close>: \<^verbatim>\<open>block-storage/src/dag/message_state.rs\<close>, with the invariant of every reachable state.
  \<^item> \<open>Blocks\<close>: the block, metadata and fringe records of \<^verbatim>\<open>models/src\<close>, with the helpers of
    \<^verbatim>\<open>casper/src/proto_util.rs\<close> and \<^verbatim>\<open>block_status.rs\<close>.
  \<^item> \<open>Dag_Store\<close>: \<^verbatim>\<open>casper/src/dag.rs\<close>, \<^verbatim>\<open>casper/src/block_metadata_store.rs\<close>,
    \<^verbatim>\<open>block-storage/src/dag/metadata_store.rs\<close> and \<^verbatim>\<open>representation.rs\<close>: insertion of blocks, the height and
    child indices, the deploy pool, and the rebuilding of the storage on startup.

  \<^bold>\<open>Conventions.\<close> A struct is a record whose fields carry a prefix, an enum a datatype, a \<^verbatim>\<open>Result\<close> a sum with
  the error on the left; an operation on shared state takes the state and returns it with its outcome,
  and a panic is an outcome of its own. The locks of the code serialise the operations that touch the same
  data, so an operation is one state transformer; interleavings inside an operation are not modelled.
  Bytes are 8-bit words; an \<^verbatim>\<open>i64\<close> is an integer with its range and, where the code wraps or saturates,
  the wrapping or saturation written out.

  Digests, the \<^verbatim>\<open>Serialize\<close> instances of channels, patterns, data and continuations, and the \<^verbatim>\<open>Match\<close>
  instance are parameters, as they are in the generic code of \<^verbatim>\<open>rspace\<close>. What the theorems need of them
  appears as a hypothesis: that decoding inverts encoding, or that a digest tells apart the values at hand.
  No digest is assumed to be injective; where a collision would matter the theorems name it as the other
  outcome. Key-value stores are the maps of their records, and their input and output do not fail.

  \<^bold>\<open>Loops.\<close> No definition has fuel. Loops that shrink a list or a key are recursive functions with a
  termination proof. The traversal of the dependency map (\<open>Merging.traverse_loop\<close>), the walk along the
  chain of a sender (\<open>Finalizer.self_loop\<close>) and the search for the top fringe
  (\<open>Finalizer.finalization_loop\<close>) may run forever on malformed input; they are partial functions whose value
  \<open>None\<close> means that the loop does not return. Conflict resolution is shown to return on acyclic dependencies
  and one round of the fringe search on messages whose heights decrease along parents.

  \<^bold>\<open>Where the code falls short.\<close> Some theorems are concrete executions of the model that show a defect:
  accepted deploys that overdraw a mergeable channel (\<open>Merging\<close>), a refused block that stays in the index and
  a storage that cannot be reloaded (\<open>Dag_Store\<close>), a produce that is lost after its join was dropped
  (\<open>Space_Runs\<close>) and whose record the replay refuses (\<open>Replay_Law\<close>), a checkpoint that panics on a join
  stored in two orders (\<open>History_Repository\<close>), and a change of state that counts the data of a channel once
  per event (\<open>Merge_Law\<close>). The positive theorems carry the hypotheses that exclude these cases.

  \<^bold>\<open>Not modelled.\<close>
  \<^item> The language \<^verbatim>\<open>rholang\<close>: parser, normalizer, reducer, spatial matcher, system processes, cost
    accounting. The tuple space is generic in them, so its theorems hold for any instance; the language
    itself is a development of its own. The same holds for the terms, sorting and wire formats in \<^verbatim>\<open>models\<close>.
  \<^item> The rest of \<^verbatim>\<open>casper\<close>: block validation, proposing, receiving and retrieval, the runtime manager and
    genesis drive the components above through the interpreter and the network, and need both.
  \<^item> \<^verbatim>\<open>node\<close> and \<^verbatim>\<open>comm\<close>: network transport, discovery, HTTP and gRPC services, configuration, diagnostics.
  \<^item> \<^verbatim>\<open>crypto\<close>: wrappers of third-party digests, signatures and certificates, here parameters.
  \<^item> The rest of \<^verbatim>\<open>shared\<close>, \<^verbatim>\<open>block-storage\<close> and \<^verbatim>\<open>sdk\<close>: LMDB access, typed stores, caches, logging and
    syntax helpers over them.
  \<^item> In \<^verbatim>\<open>rspace\<close>: state export and import, the reporting space, the lock implementations and the factory.
  \<^item> \<^verbatim>\<open>graphz\<close>, \<^verbatim>\<open>qucalc\<close>, the benchmarks, the earlier Scala implementation in \<^verbatim>\<open>legacy\<close>, the Lean and Coq texts in
    \<^verbatim>\<open>spec\<close>, and the documentation and tools.
\<close>

end
